theory Spec2Isabelle
  imports Complex_Main "HOL-Library.Sublist"
begin

section \<open>Path names (java.io.File on a Unix host, without symbolic links)\<close>

text \<open>
  The program is a Rhino script over \<open>java.io.File\<close>. A \<open>File\<close> object is an abstract
  path name; it is modelled by its normalised path string. The host is a Unix one
  (\<open>File.separator = "/"\<close>), and the modelled file system has regular files and
  directories only: canonicalisation resolves \<open>.\<close> and \<open>..\<close> lexically.
\<close>

type_synonym path = "string list"

definition sep :: char where
  "sep = CHR ''/''"

definition startsWith :: "string \<Rightarrow> string \<Rightarrow> bool" where
  "startsWith s pre = prefix pre s"

definition endsWith :: "string \<Rightarrow> string \<Rightarrow> bool" where
  "endsWith s suf = suffix suf s"

definition isSpace :: "char \<Rightarrow> bool" where
  "isSpace c = (c \<in> set [CHR '' '', CHR 0x09, CHR 0x0A, CHR 0x0B, CHR 0x0C, CHR 0x0D])"

definition trim :: "string \<Rightarrow> string" where
  "trim s = rev (dropWhile isSpace (rev (dropWhile isSpace s)))"

fun splitOn :: "char \<Rightarrow> string \<Rightarrow> string list" where
  "splitOn c [] = [[]]"
| "splitOn c (x # xs) =
     (if x = c then [] # splitOn c xs
      else (case splitOn c xs of [] \<Rightarrow> [[x]] | w # ws \<Rightarrow> (x # w) # ws))"

fun joinWith :: "char \<Rightarrow> string list \<Rightarrow> string" where
  "joinWith c [] = []"
| "joinWith c [x] = x"
| "joinWith c (x # y # ys) = x @ c # joinWith c (y # ys)"

text \<open>\<open>new File(String)\<close> normalises its argument: runs of separators collapse and a
  trailing separator is dropped (the root \<open>/\<close> stays).\<close>

definition isAbsolute :: "string \<Rightarrow> bool" where
  "isAbsolute p = (case p of [] \<Rightarrow> False | c # _ \<Rightarrow> c = sep)"

definition normalizePath :: "string \<Rightarrow> string" where
  "normalizePath p =
     (let names = filter (\<lambda>s. s \<noteq> []) (splitOn sep p)
      in if isAbsolute p then sep # joinWith sep names else joinWith sep names)"

definition File :: "string \<Rightarrow> string" where
  "File p = normalizePath p"

definition File2 :: "string \<Rightarrow> string \<Rightarrow> string" where
  "File2 parent child = normalizePath (parent @ sep # child)"

fun lastIndexOf :: "string \<Rightarrow> char \<Rightarrow> nat option" where
  "lastIndexOf [] c = None"
| "lastIndexOf (x # xs) c =
     (case lastIndexOf xs c of
        Some i \<Rightarrow> Some (Suc i)
      | None \<Rightarrow> if x = c then Some 0 else None)"

definition getName :: "string \<Rightarrow> string" where
  "getName f = (case lastIndexOf f sep of None \<Rightarrow> f | Some i \<Rightarrow> drop (Suc i) f)"

definition getParent :: "string \<Rightarrow> string option" where
  "getParent f =
     (case lastIndexOf f sep of
        None \<Rightarrow> None
      | Some i \<Rightarrow>
          if i = 0 then (if 1 < length f then Some [sep] else None)
          else Some (take i f))"

section \<open>The file tree and the host\<close>

datatype node =
    RegularFile (name: string) (content: string) (modified: int)
  | Directory (name: string) (dir_length: nat) (modified: int) (children: "node list")

datatype exn = Exn string

text \<open>A step either completes or is left by an exception; the state reached is kept in
  both cases, since what was written before a \<open>throw\<close> stays on disk.\<close>

datatype 's outcome = Normal 's | Abrupt exn 's

text \<open>The part of the host that the file tree does not determine: the working directory,
  what the operating system permits, the clock, the built-ins of the script engine
  (\<open>localeCompare\<close>, \<open>RegExp\<close>, number and date formatting, the case mapping of
  the letters outside ASCII) and the bot's
  \<open>FileStream\<close> API, which is not part of the repository.\<close>

record env =
  user_dir :: string
  deletable :: "path \<Rightarrow> bool"
  writable :: "path \<Rightarrow> bool"
  readable :: "path \<Rightarrow> bool"
  renamable :: "path \<Rightarrow> path \<Rightarrow> bool"
  clock :: int
  new_dir_length :: nat
  localeCompare :: "string \<Rightarrow> string \<Rightarrow> int"
  RegExp :: "string \<Rightarrow> (string \<Rightarrow> bool) option"
  number_string :: "rat \<Rightarrow> string"
  date_string :: "int \<Rightarrow> string"
  lower_case :: "string \<Rightarrow> string"
  FileStream_read :: "node \<Rightarrow> string \<Rightarrow> exn + string option"
  FileStream_write :: "node \<Rightarrow> string \<Rightarrow> string \<Rightarrow> (exn + string option) \<times> node"
  FileStream_append :: "node \<Rightarrow> string \<Rightarrow> string \<Rightarrow> (exn + string option) \<times> node"
  FileStream_remove :: "node \<Rightarrow> string \<Rightarrow> (exn + bool) \<times> node"

definition getAbsolutePath :: "env \<Rightarrow> string \<Rightarrow> string" where
  "getAbsolutePath e f = (if isAbsolute f then f else normalizePath (user_dir e @ sep # f))"

definition canon_step :: "path \<Rightarrow> string \<Rightarrow> path" where
  "canon_step st s =
     (if s = [] \<or> s = ''.'' then st else if s = ''..'' then tl st else s # st)"

definition canon_names :: "string \<Rightarrow> path" where
  "canon_names p = rev (foldl canon_step [] (splitOn sep p))"

definition locate :: "env \<Rightarrow> string \<Rightarrow> path" where
  "locate e f = canon_names (getAbsolutePath e f)"

definition path_string :: "path \<Rightarrow> string" where
  "path_string p = sep # joinWith sep p"

definition getCanonicalPath :: "env \<Rightarrow> string \<Rightarrow> string" where
  "getCanonicalPath e f = path_string (locate e f)"

subsection \<open>Reading the tree\<close>

fun lookup :: "node \<Rightarrow> path \<Rightarrow> node option" where
  "lookup n [] = Some n"
| "lookup n (s # p) =
     (case n of
        RegularFile _ _ _ \<Rightarrow> None
      | Directory _ _ _ ks \<Rightarrow>
          (case find (\<lambda>k. name k = s) ks of None \<Rightarrow> None | Some k \<Rightarrow> lookup k p))"

definition is_dir :: "node option \<Rightarrow> bool" where
  "is_dir x = (case x of Some (Directory _ _ _ _) \<Rightarrow> True | _ \<Rightarrow> False)"

definition is_file :: "node option \<Rightarrow> bool" where
  "is_file x = (case x of Some (RegularFile _ _ _) \<Rightarrow> True | _ \<Rightarrow> False)"

text \<open>The node a \<open>File\<close> denotes; the empty path name denotes none.\<close>

definition node_at :: "env \<Rightarrow> node \<Rightarrow> string \<Rightarrow> node option" where
  "node_at e fs f = (if f = [] then None else lookup fs (locate e f))"

definition exists :: "env \<Rightarrow> node \<Rightarrow> string \<Rightarrow> bool" where
  "exists e fs f = (node_at e fs f \<noteq> None)"

definition isDirectory :: "env \<Rightarrow> node \<Rightarrow> string \<Rightarrow> bool" where
  "isDirectory e fs f = is_dir (node_at e fs f)"

definition isFile :: "env \<Rightarrow> node \<Rightarrow> string \<Rightarrow> bool" where
  "isFile e fs f = is_file (node_at e fs f)"

text \<open>\<open>File.length()\<close>: the byte length of a regular file, the directory node's own
  length for a directory, 0 for a path that does not exist.\<close>

definition node_length :: "node \<Rightarrow> nat" where
  "node_length n = (case n of RegularFile _ c _ \<Rightarrow> length c | Directory _ l _ _ \<Rightarrow> l)"

definition file_length :: "env \<Rightarrow> node \<Rightarrow> string \<Rightarrow> nat" where
  "file_length e fs f = (case node_at e fs f of None \<Rightarrow> 0 | Some n \<Rightarrow> node_length n)"

definition lastModified :: "env \<Rightarrow> node \<Rightarrow> string \<Rightarrow> int" where
  "lastModified e fs f = (case node_at e fs f of None \<Rightarrow> 0 | Some n \<Rightarrow> modified n)"

text \<open>\<open>listFiles()\<close> is \<open>null\<close> for anything that is not a directory; the children come
  in the order the directory stores them, as \<open>File\<close> objects below the parent.\<close>

definition listFiles :: "env \<Rightarrow> node \<Rightarrow> string \<Rightarrow> string list option" where
  "listFiles e fs f =
     (case node_at e fs f of
        Some (Directory _ _ _ ks) \<Rightarrow> Some (map (\<lambda>k. File2 f (name k)) ks)
      | _ \<Rightarrow> None)"

subsection \<open>Changing the tree\<close>

fun set_child :: "string \<Rightarrow> node option \<Rightarrow> node list \<Rightarrow> node list" where
  "set_child s r [] = (case r of None \<Rightarrow> [] | Some n \<Rightarrow> [n])"
| "set_child s r (k # ks) =
     (if name k = s then (case r of None \<Rightarrow> ks | Some n \<Rightarrow> n # ks)
      else k # set_child s r ks)"

text \<open>\<open>alter g p x\<close> replaces what stands at \<open>p\<close> below \<open>x\<close> by \<open>g\<close> of it; a path through
  a regular file or a missing directory changes nothing.\<close>

fun alter :: "(node option \<Rightarrow> node option) \<Rightarrow> path \<Rightarrow> node option \<Rightarrow> node option" where
  "alter g [] x = g x"
| "alter g (s # p) x =
     (case x of
        Some (Directory a l m ks) \<Rightarrow>
          Some (Directory a l m (set_child s (alter g p (find (\<lambda>k. name k = s) ks)) ks))
      | _ \<Rightarrow> x)"

definition put :: "node \<Rightarrow> path \<Rightarrow> node option \<Rightarrow> node" where
  "put fs p r = (case alter (\<lambda>_. r) p (Some fs) of None \<Rightarrow> fs | Some fs' \<Rightarrow> fs')"

text \<open>\<open>File.delete()\<close>: a regular file, or a directory without children, that the host
  lets go; never the root.\<close>

definition File_delete :: "env \<Rightarrow> node \<Rightarrow> string \<Rightarrow> bool \<times> node" where
  "File_delete e fs f =
     (let p = locate e f in
      if f \<noteq> [] \<and> p \<noteq> [] \<and> deletable e p \<and>
         (case lookup fs p of
            None \<Rightarrow> False
          | Some (RegularFile _ _ _) \<Rightarrow> True
          | Some (Directory _ _ _ ks) \<Rightarrow> ks = [])
      then (True, put fs p None) else (False, fs))"

definition mkdir_at :: "env \<Rightarrow> node \<Rightarrow> path \<Rightarrow> bool \<times> node" where
  "mkdir_at e fs p =
     (if p \<noteq> [] \<and> writable e p \<and> lookup fs p = None \<and> is_dir (lookup fs (butlast p))
      then (True, put fs p (Some (Directory (last p) (new_dir_length e) (clock e) [])))
      else (False, fs))"

text \<open>\<open>File.mkdirs()\<close> as the class library has it: false when the path exists, else
  \<open>mkdir\<close>, else the parent's \<open>mkdirs\<close> and \<open>mkdir\<close> again; parents made before a
  failure stay.\<close>

function mkdirs_at :: "env \<Rightarrow> node \<Rightarrow> path \<Rightarrow> bool \<times> node" where
  "mkdirs_at e fs p =
     (if lookup fs p \<noteq> None then (False, fs)
      else if fst (mkdir_at e fs p) then mkdir_at e fs p
      else if p = [] then (False, fs)
      else
        (case mkdirs_at e fs (butlast p) of
           (b, fs1) \<Rightarrow>
             if b \<or> lookup fs1 (butlast p) \<noteq> None then mkdir_at e fs1 p else (False, fs1)))"
  by pat_completeness auto
termination
  by (relation "measure (\<lambda>(e, fs, p). length p)") auto

declare mkdirs_at.simps [simp del]

definition mkdirs :: "env \<Rightarrow> node \<Rightarrow> string \<Rightarrow> bool \<times> node" where
  "mkdirs e fs f = (if f = [] then (False, fs) else mkdirs_at e fs (locate e f))"

text \<open>\<open>new FileInputStream(f)\<close> throws unless \<open>f\<close> is a readable regular file.\<close>

definition FileInputStream :: "env \<Rightarrow> node \<Rightarrow> string \<Rightarrow> exn + string" where
  "FileInputStream e fs f =
     (case node_at e fs f of
        Some (RegularFile _ c _) \<Rightarrow>
          if readable e (locate e f) then Inr c else Inl (Exn ''FileNotFoundException'')
      | _ \<Rightarrow> Inl (Exn ''FileNotFoundException''))"

text \<open>\<open>new FileOutputStream(f)\<close> creates the file or truncates it; it throws when the
  path is a directory, its parent is not one, or the host refuses.\<close>

definition FileOutputStream :: "env \<Rightarrow> node \<Rightarrow> string \<Rightarrow> exn + node" where
  "FileOutputStream e fs f =
     (let p = locate e f in
      if f \<noteq> [] \<and> p \<noteq> [] \<and> writable e p \<and> is_dir (lookup fs (butlast p)) \<and>
         \<not> is_dir (lookup fs p)
      then Inr (put fs p (Some (RegularFile (last p) [] (clock e))))
      else Inl (Exn ''FileNotFoundException''))"

text \<open>Writing through an open output stream replaces the bytes written so far.\<close>

definition write_bytes :: "env \<Rightarrow> node \<Rightarrow> string \<Rightarrow> string \<Rightarrow> node" where
  "write_bytes e fs f bytes =
     (let p = locate e f in put fs p (Some (RegularFile (last p) bytes (clock e))))"

text \<open>\<open>_copyFile\<close>: open the source, open (and so truncate) the target, copy what the
  source holds then, close both.\<close>

definition copyFile :: "env \<Rightarrow> node \<Rightarrow> string \<Rightarrow> string \<Rightarrow> node outcome" where
  "copyFile e fs sourceFile destFile =
     (case FileInputStream e fs sourceFile of
        Inl x \<Rightarrow> Abrupt x fs
      | Inr _ \<Rightarrow>
          (case FileOutputStream e fs destFile of
             Inl x \<Rightarrow> Abrupt x fs
           | Inr fs1 \<Rightarrow>
               (case FileInputStream e fs1 sourceFile of
                  Inl x \<Rightarrow> Abrupt x fs1
                | Inr bytes \<Rightarrow> Normal (write_bytes e fs1 destFile bytes))))"

section \<open>The sandbox: \<open>_resolvePath\<close>\<close>

record FileManager =
  basePath :: "string option"
  isSandboxed :: bool

datatype resolve_error = InvalidPathInput | SecurityException

text \<open>\<open>_resolvePath\<close> returns \<open>null\<close> after logging one of two errors; the model keeps
  which one (\<open>Inl\<close>), the callers only test for \<open>null\<close>.\<close>

definition resolvePath :: "env \<Rightarrow> FileManager \<Rightarrow> string \<Rightarrow> resolve_error + string" where
  "resolvePath e fm userPath =
     (if \<not> isSandboxed fm then Inr (File userPath)
      else
        let pathStr = trim userPath in
        if pathStr = [] then Inl InvalidPathInput
        else
          let base = (case basePath fm of None \<Rightarrow> [] | Some b \<Rightarrow> b);
              targetFile = File pathStr;
              resolvedFile =
                (if isAbsolute targetFile \<or> startsWith pathStr ''sdcard/'' then targetFile
                 else File2 base pathStr);
              canonicalPath = getCanonicalPath e resolvedFile;
              baseCanonicalPath = getCanonicalPath e (File base)
          in if \<not> startsWith canonicalPath baseCanonicalPath then Inl SecurityException
             else Inr resolvedFile)"

section \<open>The directory walker: \<open>_traverseDirectory\<close>\<close>

datatype order = PreOrder | PostOrder

text \<open>The walker recurses on the live file system, which its visitors may change, so the
  recursion carries fuel: \<open>None\<close> means that the fuel did not suffice. The state is the
  caller's context together with the file tree.\<close>

definition then_do :: "'s outcome option \<Rightarrow> ('s \<Rightarrow> 's outcome option) \<Rightarrow> 's outcome option" where
  "then_do r k = (case r of None \<Rightarrow> None | Some (Abrupt x s) \<Rightarrow> Some (Abrupt x s) | Some (Normal s) \<Rightarrow> k s)"

fun for_each :: "(string \<Rightarrow> 's \<Rightarrow> 's outcome option) \<Rightarrow> string list \<Rightarrow> 's \<Rightarrow> 's outcome option" where
  "for_each body [] s = Some (Normal s)"
| "for_each body (c # cs) s = then_do (body c s) (for_each body cs)"

primrec walk ::
  "nat \<Rightarrow> env \<Rightarrow> (string \<Rightarrow> 'c \<times> node \<Rightarrow> ('c \<times> node) outcome) \<Rightarrow>
   (string \<Rightarrow> 'c \<times> node \<Rightarrow> ('c \<times> node) outcome) \<Rightarrow> order \<Rightarrow> string \<Rightarrow> 'c \<times> node \<Rightarrow>
   ('c \<times> node) outcome option" where
  "walk 0 e onFile onDir ord currentFile s = None"
| "walk (Suc n) e onFile onDir ord currentFile s =
     then_do
       (Some (if isDirectory e (snd s) currentFile \<and> ord = PreOrder then onDir currentFile s
              else Normal s))
       (\<lambda>s. then_do
         (if isDirectory e (snd s) currentFile then
            (case listFiles e (snd s) currentFile of
               None \<Rightarrow> Some (Normal s)
             | Some cs \<Rightarrow> for_each (walk n e onFile onDir ord) cs s)
          else Some (Normal s))
         (\<lambda>s. then_do
           (Some (if isFile e (snd s) currentFile then onFile currentFile s else Normal s))
           (\<lambda>s. Some (if isDirectory e (snd s) currentFile \<and> ord = PostOrder
                       then onDir currentFile s else Normal s))))"

definition traverseDirectory ::
  "nat \<Rightarrow> env \<Rightarrow> node \<Rightarrow> string \<Rightarrow> (string \<Rightarrow> 'c \<times> node \<Rightarrow> ('c \<times> node) outcome) \<Rightarrow>
   (string \<Rightarrow> 'c \<times> node \<Rightarrow> ('c \<times> node) outcome) \<Rightarrow> order \<Rightarrow> 'c \<Rightarrow>
   ('c \<times> node) outcome option" where
  "traverseDirectory n e fs path onFile onDir ord initialContext =
     (let rootFile = File path in
      if \<not> exists e fs rootFile then Some (Normal (initialContext, fs))
      else walk n e onFile onDir ord rootFile (initialContext, fs))"

text \<open>The default visitor, \<open>function() {}\<close>.\<close>

fun no_visit :: "string \<Rightarrow> 'c \<times> node \<Rightarrow> ('c \<times> node) outcome" where
  "no_visit f (c, fs) = Normal (c, fs)"

section \<open>Sizes: \<open>_convertSize\<close>, \<open>getStorageSize\<close>, \<open>getMetadata\<close>\<close>

text \<open>\<open>String.prototype.toLowerCase\<close>. Strings are byte strings (UTF-8). On a string of
  ASCII bytes the method maps \<open>A\<close>-\<open>Z\<close> to \<open>a\<close>-\<open>z\<close> and nothing else; what it does to a
  string with other bytes is the engine's case mapping, \<open>lower_case\<close> of the host.\<close>

definition ascii_lower :: "char \<Rightarrow> char" where
  "ascii_lower c =
     (if 65 \<le> (of_char c :: nat) \<and> (of_char c :: nat) \<le> 90
      then char_of ((of_char c :: nat) + 32) else c)"

definition toLowerCase :: "env \<Rightarrow> string \<Rightarrow> string" where
  "toLowerCase e s =
     (if list_all (\<lambda>c. (of_char c :: nat) < 128) s then map ascii_lower s else lower_case e s)"

text \<open>\<open>Number(x.toFixed(2))\<close> for \<open>x \<ge> 0\<close>: the nearest multiple of 1/100, the larger one
  on a tie; from \<open>10^21\<close> on \<open>toFixed\<close> prints the number itself. Numbers are exact
  rationals here; the program's are doubles, which agree with them up to \<open>2^53\<close> bytes.\<close>

definition toFixed2 :: "rat \<Rightarrow> rat" where
  "toFixed2 x = (if 10 ^ 21 \<le> x then x else of_int \<lfloor>x * 100 + 1 / 2\<rfloor> / 100)"

definition convertSize :: "env \<Rightarrow> rat \<Rightarrow> string \<Rightarrow> rat" where
  "convertSize e bytes unit =
     (let KILO = 1024;
          u = toLowerCase e unit;
          sz = (if u = ''b'' then bytes
                  else if u = ''kb'' then bytes / KILO
                  else if u = ''gb'' then bytes / KILO / KILO / KILO
                  else if u = ''tb'' then bytes / KILO / KILO / KILO / KILO
                else bytes / KILO / KILO)
      in toFixed2 sz)"

definition size_onFile :: "env \<Rightarrow> string \<Rightarrow> nat \<times> node \<Rightarrow> (nat \<times> node) outcome" where
  "size_onFile e file s = Normal (fst s + file_length e (snd s) file, snd s)"

text \<open>\<open>getStorageSize\<close> returns a number or \<open>null\<close>; the outer \<open>option\<close> is the fuel's.\<close>

definition getStorageSize ::
  "nat \<Rightarrow> env \<Rightarrow> FileManager \<Rightarrow> node \<Rightarrow> string \<Rightarrow> string option \<Rightarrow> rat option option" where
  "getStorageSize n e fm fs path unit =
     (let targetUnit = (case unit of None \<Rightarrow> ''mb'' | Some u \<Rightarrow> if u = [] then ''mb'' else u) in
      case resolvePath e fm path of
        Inl _ \<Rightarrow> Some None
      | Inr file \<Rightarrow>
          if \<not> exists e fs file then Some None
          else if isFile e fs file
          then Some (Some (convertSize e (of_nat (file_length e fs file)) targetUnit))
          else
            (case traverseDirectory n e fs (getAbsolutePath e file) (size_onFile e) no_visit
                    PreOrder 0 of
               None \<Rightarrow> None
             | Some (Abrupt _ _) \<Rightarrow> Some None
             | Some (Normal context) \<Rightarrow>
                 Some (Some (convertSize e (of_nat (fst context)) targetUnit))))"

record metadata =
  m_name :: string
  m_path :: string
  m_size :: nat
  m_lastModified :: int
  m_isDirectory :: bool
  m_readableSize :: string
  m_readableLastModified :: string

definition getMetadata :: "env \<Rightarrow> FileManager \<Rightarrow> node \<Rightarrow> string \<Rightarrow> metadata option" where
  "getMetadata e fm fs path =
     (case resolvePath e fm path of
        Inl _ \<Rightarrow> None
      | Inr file \<Rightarrow>
          if \<not> exists e fs file then None
          else
            let sz = file_length e fs file;
                lm = lastModified e fs file
            in Some \<lparr> m_name = getName file,
                      m_path = getAbsolutePath e file,
                      m_size = sz,
                      m_lastModified = lm,
                      m_isDirectory = isDirectory e fs file,
                      m_readableSize = number_string e (convertSize e (of_nat sz) ''mb'') @ '' MB'',
                      m_readableLastModified = date_string e (lm + 32400000) \<rparr>)"

section \<open>File contents through the bot's \<open>FileStream\<close>\<close>

text \<open>A public operation either returns (\<open>Inr\<close>, with \<open>None\<close> for \<open>null\<close>) or lets an
  exception reach its caller (\<open>Inl\<close>).\<close>

definition write_op ::
  "env \<Rightarrow> FileManager \<Rightarrow> node \<Rightarrow> string \<Rightarrow> string option \<Rightarrow> (exn + string option) \<times> node" where
  "write_op e fm fs path data =
     (case resolvePath e fm path of
        Inl _ \<Rightarrow> (Inr None, fs)
      | Inr file \<Rightarrow>
          let data = (case data of None \<Rightarrow> [] | Some d \<Rightarrow> d) in
          (case FileStream_write e fs (getAbsolutePath e file) data of
             (Inl x, fs') \<Rightarrow> (Inr None, fs')
           | (Inr r, fs') \<Rightarrow> (Inr r, fs')))"

definition read_op :: "env \<Rightarrow> FileManager \<Rightarrow> node \<Rightarrow> string \<Rightarrow> exn + string option" where
  "read_op e fm fs path =
     (case resolvePath e fm path of
        Inl _ \<Rightarrow> Inr None
      | Inr file \<Rightarrow> FileStream_read e fs (getAbsolutePath e file))"

definition append_op ::
  "env \<Rightarrow> FileManager \<Rightarrow> node \<Rightarrow> string \<Rightarrow> string option \<Rightarrow> (exn + string option) \<times> node" where
  "append_op e fm fs path data =
     (case resolvePath e fm path of
        Inl _ \<Rightarrow> (Inr None, fs)
      | Inr file \<Rightarrow>
          let data = (case data of None \<Rightarrow> [] | Some d \<Rightarrow> d) in
          (case FileStream_append e fs (getAbsolutePath e file) data of
             (Inl x, fs') \<Rightarrow> (Inr None, fs')
           | (Inr r, fs') \<Rightarrow> (Inr r, fs')))"

definition delete_op :: "env \<Rightarrow> FileManager \<Rightarrow> node \<Rightarrow> string \<Rightarrow> (exn + bool) \<times> node" where
  "delete_op e fm fs path =
     (case resolvePath e fm path of
        Inl _ \<Rightarrow> (Inr False, fs)
      | Inr file \<Rightarrow>
          (case FileStream_remove e fs (getAbsolutePath e file) of
             (Inl x, fs') \<Rightarrow> (Inr False, fs')
           | (Inr r, fs') \<Rightarrow> (Inr r, fs')))"

section \<open>Deleting: \<open>deleteDirectory\<close>, \<open>remove\<close>\<close>

text \<open>The context of the source is \<open>{success}\<close>; \<open>attempted\<close> is added to it to record
  each call of \<open>File.delete()\<close> with its result, in order.\<close>

record delete_context =
  success :: bool
  attempted :: "(string \<times> bool) list"

definition delete_visit ::
  "env \<Rightarrow> string \<Rightarrow> delete_context \<times> node \<Rightarrow> (delete_context \<times> node) outcome" where
  "delete_visit e file s =
     (case File_delete e (snd s) file of
        (ok, fs') \<Rightarrow>
          Normal ((fst s)\<lparr> success := (if \<not> ok then False else success (fst s)),
                           attempted := attempted (fst s) @ [(file, ok)] \<rparr>, fs'))"

definition delete_walk ::
  "nat \<Rightarrow> env \<Rightarrow> node \<Rightarrow> string \<Rightarrow> (delete_context \<times> node) outcome option" where
  "delete_walk n e fs file =
     traverseDirectory n e fs (getAbsolutePath e file) (delete_visit e) (delete_visit e)
       PostOrder \<lparr> success = True, attempted = [] \<rparr>"

definition deleteDirectory ::
  "nat \<Rightarrow> env \<Rightarrow> FileManager \<Rightarrow> node \<Rightarrow> string \<Rightarrow> (bool \<times> node) option" where
  "deleteDirectory n e fm fs path =
     (case resolvePath e fm path of
        Inl _ \<Rightarrow> Some (False, fs)
      | Inr file \<Rightarrow>
          if \<not> exists e fs file then Some (True, fs)
          else if \<not> isDirectory e fs file then Some (File_delete e fs file)
          else
            (case delete_walk n e fs file of
               None \<Rightarrow> None
             | Some (Abrupt _ s) \<Rightarrow> Some (False, snd s)
             | Some (Normal result) \<Rightarrow> Some (success (fst result), snd result)))"

definition remove ::
  "nat \<Rightarrow> env \<Rightarrow> FileManager \<Rightarrow> node \<Rightarrow> string \<Rightarrow> (bool \<times> node) option" where
  "remove n e fm fs path =
     (case resolvePath e fm path of
        Inl _ \<Rightarrow> Some (False, fs)
      | Inr file \<Rightarrow>
          if \<not> exists e fs file then Some (True, fs)
          else if isDirectory e fs file then deleteDirectory n e fm fs (getAbsolutePath e file)
          else Some (File_delete e fs file))"

section \<open>The tree query: \<open>getDirectoryTree\<close>\<close>

datatype extension_option = NoExtension | OneExtension string | ManyExtensions "string list"

text \<open>The options after the defaults of the source are applied to the flags; a missing
  string is \<open>None\<close>, and \<open>truthy\<close> is the script's test of a string option.\<close>

record tree_options =
  detail :: bool
  showEmptyFolders :: bool
  search_name :: "string option"
  search_regex :: "string option"
  search_extension :: extension_option
  search_content :: "string option"
  search_contentRegex :: "string option"
  sort_by :: "string option"
  sort_order :: "string option"

definition truthy :: "string option \<Rightarrow> bool" where
  "truthy x = (case x of None \<Rightarrow> False | Some s \<Rightarrow> s \<noteq> [])"

definition or_default :: "string option \<Rightarrow> string \<Rightarrow> string" where
  "or_default x d = (case x of None \<Rightarrow> d | Some s \<Rightarrow> if s = [] then d else s)"

definition BINARY_EXTENSIONS :: "string list" where
  "BINARY_EXTENSIONS =
     [''png'', ''jpg'', ''jpeg'', ''gif'', ''bmp'', ''tiff'', ''webp'',
      ''mp3'', ''wav'', ''ogg'', ''flac'', ''aac'',
      ''mp4'', ''avi'', ''mkv'', ''mov'', ''wmv'',
      ''zip'', ''rar'', ''7z'', ''tar'', ''gz'',
      ''pdf'', ''doc'', ''docx'', ''ppt'', ''pptx'', ''xls'', ''xlsx'', ''hwp'',
      ''exe'', ''apk'', ''dmg'', ''iso'',
      ''db'', ''sqlite'', ''sqlite3'']"

text \<open>The message returned for a pattern that does not compile, in UTF-8.\<close>

definition invalid_pattern :: string where
  "invalid_pattern =
     [CHR 0xEC, CHR 0x9E, CHR 0x98, CHR 0xEB, CHR 0xAA, CHR 0xBB, CHR 0xEB, CHR 0x90, CHR
      0x98, CHR 0xEC, CHR 0x97, CHR 0x88, CHR 0xEA, CHR 0xB1, CHR 0xB0, CHR 0xEB, CHR
      0x82, CHR 0x98, CHR 0x20, CHR 0xEC, CHR 0xA7, CHR 0x80, CHR 0xEC, CHR 0x9B, CHR
      0x90, CHR 0xED, CHR 0x95, CHR 0x98, CHR 0xEC, CHR 0xA7, CHR 0x80, CHR 0x20, CHR
      0xEC, CHR 0x95, CHR 0x8A, CHR 0xEB, CHR 0x8A, CHR 0x94, CHR 0x20, CHR 0xEC, CHR
      0xA0, CHR 0x95, CHR 0xEA, CHR 0xB7, CHR 0x9C, CHR 0xEC, CHR 0x8B, CHR 0x9D, CHR
      0x20, CHR 0xED, CHR 0x8C, CHR 0xA8, CHR 0xED, CHR 0x84, CHR 0xB4]"

text \<open>The box-drawing characters U+2502, U+251C and U+2514, in UTF-8.\<close>

definition bar :: string where
  "bar = [CHR 0xE2, CHR 0x94, CHR 0x82]"

definition tee :: string where
  "tee = [CHR 0xE2, CHR 0x94, CHR 0x9C]"

definition corner :: string where
  "corner = [CHR 0xE2, CHR 0x94, CHR 0x94]"

definition newline :: char where
  "newline = CHR 0x0A"

definition getBaseName :: "string \<Rightarrow> string" where
  "getBaseName path =
     (let fileName = getName (File path) in
      case lastIndexOf fileName (CHR ''.'') of
        None \<Rightarrow> fileName
      | Some dotIndex \<Rightarrow> if 0 < dotIndex then take dotIndex fileName else fileName)"

definition getExtension :: "env \<Rightarrow> string \<Rightarrow> string" where
  "getExtension e path =
     (let fileName = getName (File path) in
      case lastIndexOf fileName (CHR ''.'') of
        None \<Rightarrow> []
      | Some dotIndex \<Rightarrow> toLowerCase e (drop (Suc dotIndex) fileName))"

definition str_includes :: "string \<Rightarrow> string \<Rightarrow> bool" where
  "str_includes s part = sublist part s"

datatype pattern = NoPattern | Pattern "string \<Rightarrow> bool" | BadPattern

definition compile :: "env \<Rightarrow> string option \<Rightarrow> pattern" where
  "compile e x =
     (if truthy x then (case RegExp e (the x) of None \<Rightarrow> BadPattern | Some t \<Rightarrow> Pattern t)
      else NoPattern)"

definition extension_list :: "env \<Rightarrow> extension_option \<Rightarrow> string list option" where
  "extension_list e x =
     (case x of
        NoExtension \<Rightarrow> None
      | OneExtension s \<Rightarrow> if s = [] then None else Some [toLowerCase e s]
      | ManyExtensions ss \<Rightarrow> Some (map (toLowerCase e) ss))"

text \<open>The filter of one item; reading the content may throw.\<close>

definition passes ::
  "env \<Rightarrow> node \<Rightarrow> tree_options \<Rightarrow> pattern \<Rightarrow> pattern \<Rightarrow> string \<Rightarrow> exn + bool" where
  "passes e fs opts fileNameRegex contentRegex item =
     (if isDirectory e fs item then Inr True
      else
        let itemName = getName item;
            itemNameLower = toLowerCase e itemName;
            extension = getExtension e itemName;
            hasContentSearch = (truthy (search_content opts) \<or> truthy (search_contentRegex opts))
        in
        if (case extension_list e (search_extension opts) of
              None \<Rightarrow> False | Some exts \<Rightarrow> extension \<notin> set exts) then Inr False
        else if truthy (search_name opts) \<and>
                \<not> str_includes itemNameLower (toLowerCase e (the (search_name opts))) then Inr False
        else if (case fileNameRegex of Pattern t \<Rightarrow> \<not> t itemName | _ \<Rightarrow> False) then Inr False
        else if \<not> hasContentSearch then Inr True
        else if extension \<in> set BINARY_EXTENSIONS then Inr False
        else
          (case FileStream_read e fs (getAbsolutePath e item) of
             Inl x \<Rightarrow> Inl x
           | Inr None \<Rightarrow> Inr False
           | Inr (Some text) \<Rightarrow>
               (case contentRegex of
                  Pattern t \<Rightarrow> Inr (t text)
                | _ \<Rightarrow>
                  if truthy (search_content opts)
                  then Inr (str_includes text (the (search_content opts)))
                  else Inr False)))"

fun filter_items :: "(string \<Rightarrow> exn + bool) \<Rightarrow> string list \<Rightarrow> exn + string list" where
  "filter_items keep [] = Inr []"
| "filter_items keep (item # items) =
     (case keep item of
        Inl x \<Rightarrow> Inl x
      | Inr b \<Rightarrow>
          (case filter_items keep items of
             Inl x \<Rightarrow> Inl x
           | Inr rest \<Rightarrow> Inr (if b then item # rest else rest)))"

text \<open>The comparator handed to \<open>Array.prototype.sort\<close>.\<close>

definition compare_items ::
  "env \<Rightarrow> node \<Rightarrow> string \<Rightarrow> string \<Rightarrow> string \<Rightarrow> string \<Rightarrow> int" where
  "compare_items e fs by ord a b =
     (if isDirectory e fs a \<and> \<not> isDirectory e fs b then - 1
      else if \<not> isDirectory e fs a \<and> isDirectory e fs b then 1
      else
        let compareResult =
          (if by = ''date'' then lastModified e fs a - lastModified e fs b
           else if by = ''size'' then
             (if isFile e fs a \<and> isFile e fs b
              then int (file_length e fs a) - int (file_length e fs b) else 0)
           else localeCompare e (getName a) (getName b))
        in if ord = ''desc'' then - compareResult else compareResult)"

text \<open>\<open>Array.prototype.sort\<close> is the engine's; it is modelled by a stable insertion sort,
  one of the orders a sort may return for a consistent comparator.\<close>

fun insert_by :: "('a \<Rightarrow> 'a \<Rightarrow> int) \<Rightarrow> 'a \<Rightarrow> 'a list \<Rightarrow> 'a list" where
  "insert_by cmp x [] = [x]"
| "insert_by cmp x (y # ys) = (if cmp x y \<le> 0 then x # y # ys else y # insert_by cmp x ys)"

definition sort_by_comparator :: "('a \<Rightarrow> 'a \<Rightarrow> int) \<Rightarrow> 'a list \<Rightarrow> 'a list" where
  "sort_by_comparator cmp xs = foldr (insert_by cmp) xs []"

text \<open>The items of one directory level, filtered and sorted.\<close>

definition level_items ::
  "env \<Rightarrow> node \<Rightarrow> tree_options \<Rightarrow> pattern \<Rightarrow> pattern \<Rightarrow> string \<Rightarrow> exn + string list" where
  "level_items e fs opts fileNameRegex contentRegex directory =
     (case listFiles e fs directory of
        None \<Rightarrow> Inr []
      | Some itemList \<Rightarrow>
          (case filter_items (passes e fs opts fileNameRegex contentRegex) itemList of
             Inl x \<Rightarrow> Inl x
           | Inr filteredList \<Rightarrow>
               Inr (sort_by_comparator
                      (compare_items e fs (or_default (sort_by opts) ''name'')
                         (or_default (sort_order opts) ''asc''))
                      filteredList)))"

definition file_line :: "env \<Rightarrow> FileManager \<Rightarrow> node \<Rightarrow> tree_options \<Rightarrow> string \<Rightarrow> string \<Rightarrow> string" where
  "file_line e fm fs opts pfx item =
     (let fileName = pfx @ getName item in
      if detail opts then
        (case getMetadata e fm fs (getAbsolutePath e item) of
           None \<Rightarrow> fileName
         | Some metadata \<Rightarrow>
             fileName @ '' ('' @ m_readableSize metadata @ '' / '' @
               m_readableLastModified metadata @ '')'')
      else fileName)"

text \<open>The rendering loop over the sorted items of a level; \<open>rec\<close> is the recursive call
  of \<open>traverse\<close>, \<open>i\<close> the index of the first item of \<open>items\<close> among the \<open>len\<close> items.\<close>

fun render_items ::
  "(string \<Rightarrow> nat \<Rightarrow> (exn + string list) option) \<Rightarrow> env \<Rightarrow> FileManager \<Rightarrow> node \<Rightarrow>
   tree_options \<Rightarrow> nat \<Rightarrow> nat \<Rightarrow> nat \<Rightarrow> string list \<Rightarrow> (exn + string list) option" where
  "render_items rec e fm fs opts depth len i [] = Some (Inr [])"
| "render_items rec e fm fs opts depth len i (item # items) =
     (let pfx = concat (replicate (depth - 1) (bar @ ''  '')) @
                   (if i = len - 1 then corner @ '' '' else tee @ '' '') in
      if isDirectory e fs item then
        (case rec item (depth + 1) of
           None \<Rightarrow> None
         | Some (Inl x) \<Rightarrow> Some (Inl x)
         | Some (Inr childLines) \<Rightarrow>
             (case render_items rec e fm fs opts depth len (Suc i) items of
                None \<Rightarrow> None
              | Some (Inl x) \<Rightarrow> Some (Inl x)
              | Some (Inr later) \<Rightarrow>
                  Some (Inr ((if childLines \<noteq> [] \<or> showEmptyFolders opts
                              then (pfx @ getName item @ ''/'') # childLines else []) @ later))))
      else
        (case render_items rec e fm fs opts depth len (Suc i) items of
           None \<Rightarrow> None
         | Some (Inl x) \<Rightarrow> Some (Inl x)
         | Some (Inr later) \<Rightarrow> Some (Inr (file_line e fm fs opts pfx item # later))))"

primrec traverse ::
  "nat \<Rightarrow> env \<Rightarrow> FileManager \<Rightarrow> node \<Rightarrow> tree_options \<Rightarrow> pattern \<Rightarrow> pattern \<Rightarrow> string \<Rightarrow> nat \<Rightarrow>
   (exn + string list) option" where
  "traverse 0 e fm fs opts fileNameRegex contentRegex directory depth = None"
| "traverse (Suc n) e fm fs opts fileNameRegex contentRegex directory depth =
     (case level_items e fs opts fileNameRegex contentRegex directory of
        Inl x \<Rightarrow> Some (Inl x)
      | Inr filteredList \<Rightarrow>
          render_items (traverse n e fm fs opts fileNameRegex contentRegex) e fm fs opts depth
            (length filteredList) 0 filteredList)"

definition join_lines :: "string list \<Rightarrow> string" where
  "join_lines ls = joinWith newline ls"

text \<open>\<open>getDirectoryTree\<close> returns a string or \<open>null\<close>; the outer \<open>option\<close> is the fuel's.
  Every exception is caught at the end of the function and gives \<open>null\<close>.\<close>

definition getDirectoryTree ::
  "nat \<Rightarrow> env \<Rightarrow> FileManager \<Rightarrow> node \<Rightarrow> string \<Rightarrow> tree_options \<Rightarrow> string option option" where
  "getDirectoryTree n e fm fs path opts =
     (case resolvePath e fm path of
        Inl _ \<Rightarrow> Some None
      | Inr file \<Rightarrow>
          (case compile e (search_regex opts) of
             BadPattern \<Rightarrow> Some (Some invalid_pattern)
           | fileNameRegex \<Rightarrow>
               (case compile e (search_contentRegex opts) of
                  BadPattern \<Rightarrow> Some (Some invalid_pattern)
                | contentRegex \<Rightarrow>
                    if \<not> exists e fs file \<or> \<not> isDirectory e fs file then Some None
                    else
                      (case traverse n e fm fs opts fileNameRegex contentRegex file 1 of
                         None \<Rightarrow> None
                       | Some (Inl x) \<Rightarrow> Some None
                       | Some (Inr treeLines) \<Rightarrow>
                           Some (Some (join_lines ((getName file @ ''/'') # treeLines)))))))"

definition default_options :: tree_options where
  "default_options = \<lparr> detail = False, showEmptyFolders = False, search_name = None,
     search_regex = None, search_extension = NoExtension, search_content = None,
     search_contentRegex = None, sort_by = None, sort_order = None \<rparr>"

section \<open>Copying and moving: \<open>copy\<close>, \<open>move\<close>\<close>

definition getParentFile :: "string \<Rightarrow> string option" where
  "getParentFile f = getParent f"

definition rename_node :: "string \<Rightarrow> node \<Rightarrow> node" where
  "rename_node s n =
     (case n of RegularFile _ c m \<Rightarrow> RegularFile s c m | Directory _ l m ks \<Rightarrow> Directory s l m ks)"

text \<open>\<open>File.renameTo\<close>: the host may refuse (another volume, permissions); a node cannot
  be moved below itself, onto a directory that is not empty, or across kinds.\<close>

definition renameTo :: "env \<Rightarrow> node \<Rightarrow> string \<Rightarrow> string \<Rightarrow> bool \<times> node" where
  "renameTo e fs src dst =
     (let p = locate e src; q = locate e dst in
      case node_at e fs src of
        None \<Rightarrow> (False, fs)
      | Some n \<Rightarrow>
          if dst = [] \<or> p = [] \<or> q = [] \<or> \<not> renamable e p q \<or> \<not> is_dir (lookup fs (butlast q)) then (False, fs)
          else if p = q then (True, fs)
          else if prefix p q then (False, fs)
          else
            (case lookup fs q of
               Some (Directory _ _ _ (k # ks)) \<Rightarrow> (False, fs)
             | Some (Directory _ _ _ []) \<Rightarrow>
                 if is_dir (Some n) then (True, put (put fs p None) q (Some (rename_node (last q) n)))
                 else (False, fs)
             | Some (RegularFile _ _ _) \<Rightarrow>
                 if is_file (Some n) then (True, put (put fs p None) q (Some (rename_node (last q) n)))
                 else (False, fs)
             | None \<Rightarrow> (True, put (put fs p None) q (Some (rename_node (last q) n)))))"

text \<open>The context of the copy: \<open>{sourceRootPath, resultRootPath}\<close>.\<close>

definition copy_onDir ::
  "env \<Rightarrow> string \<Rightarrow> (string \<times> string) \<times> node \<Rightarrow> ((string \<times> string) \<times> node) outcome" where
  "copy_onDir e dir s =
     (let currentPath = getAbsolutePath e dir;
          relativePath = drop (length (fst (fst s))) currentPath
      in if 0 < length relativePath then
           (let newDestDir = File2 (snd (fst s)) relativePath in
            if \<not> exists e (snd s) newDestDir
            then Normal (fst s, snd (mkdirs e (snd s) newDestDir))
            else Normal s)
         else Normal s)"

definition copy_onFile ::
  "env \<Rightarrow> string \<Rightarrow> (string \<times> string) \<times> node \<Rightarrow> ((string \<times> string) \<times> node) outcome" where
  "copy_onFile e file s =
     (let currentPath = getAbsolutePath e file;
          relativePath = drop (length (fst (fst s))) currentPath;
          newDestFile = File2 (snd (fst s)) relativePath
      in case copyFile e (snd s) file newDestFile of
           Normal fs' \<Rightarrow> Normal (fst s, fs')
         | Abrupt x fs' \<Rightarrow> Abrupt x (fst s, fs'))"

definition with_separator :: "string \<Rightarrow> string" where
  "with_separator p = (if endsWith p [sep] then p else p @ [sep])"

definition make_parent :: "env \<Rightarrow> node \<Rightarrow> string \<Rightarrow> node" where
  "make_parent e fs destination =
     (case getParentFile destination of
        None \<Rightarrow> fs
      | Some destParent \<Rightarrow>
          if \<not> exists e fs destParent then snd (mkdirs e fs destParent) else fs)"

text \<open>\<open>copy\<close> and \<open>move\<close> return a boolean; the outer \<open>option\<close> is the fuel's.\<close>

definition copy ::
  "nat \<Rightarrow> env \<Rightarrow> FileManager \<Rightarrow> node \<Rightarrow> string \<Rightarrow> string \<Rightarrow> (bool \<times> node) option" where
  "copy n e fm fs sourcePath resultPath =
     (case (resolvePath e fm sourcePath, resolvePath e fm resultPath) of
        (Inr source, Inr destination) \<Rightarrow>
          if \<not> exists e fs source then Some (False, fs)
          else
            let fs1 = make_parent e fs destination in
            if isFile e fs1 source then
              (case copyFile e fs1 source destination of
                 Normal fs2 \<Rightarrow> Some (True, fs2)
               | Abrupt x fs2 \<Rightarrow> Some (False, fs2))
            else if isDirectory e fs1 source then
              (let fs2 = (if \<not> exists e fs1 destination then snd (mkdirs e fs1 destination) else fs1);
                   sourceRootPath = with_separator (getAbsolutePath e source)
               in case traverseDirectory n e fs2 (getAbsolutePath e source) (copy_onFile e)
                         (copy_onDir e) PreOrder
                         (sourceRootPath, getAbsolutePath e destination) of
                    None \<Rightarrow> None
                  | Some (Normal (c, fs3)) \<Rightarrow> Some (True, fs3)
                  | Some (Abrupt x (c, fs3)) \<Rightarrow> Some (False, fs3))
            else Some (True, fs1)
      | _ \<Rightarrow> Some (False, fs))"

definition move ::
  "nat \<Rightarrow> env \<Rightarrow> FileManager \<Rightarrow> node \<Rightarrow> string \<Rightarrow> string \<Rightarrow> (bool \<times> node) option" where
  "move n e fm fs sourcePath resultPath =
     (case (resolvePath e fm sourcePath, resolvePath e fm resultPath) of
        (Inr source, Inr destination) \<Rightarrow>
          if \<not> exists e fs source then Some (False, fs)
          else
            let fs1 = make_parent e fs destination in
            (case renameTo e fs1 source destination of
               (True, fs2) \<Rightarrow> Some (True, fs2)
             | (False, fs2) \<Rightarrow>
                 (case copy n e fm fs2 (getAbsolutePath e source) (getAbsolutePath e destination) of
                    None \<Rightarrow> None
                  | Some (True, fs3) \<Rightarrow> remove n e fm fs3 (getAbsolutePath e source)
                  | Some (False, fs3) \<Rightarrow> Some (False, fs3)))
      | _ \<Rightarrow> Some (False, fs))"

section \<open>Archives: \<open>zip\<close>, \<open>unzip\<close>\<close>

text \<open>An archive is the list of its entries, a name and the bytes; a name that ends in
  \<open>/\<close> is a directory entry (\<open>ZipEntry.isDirectory\<close>). How the entries are laid out
  in the bytes of the file is \<open>java.util.zip\<close>'s: \<open>zip_bytes\<close> and \<open>unzip_bytes\<close> are
  parameters of the operations.\<close>

type_synonym zip_entry = "string \<times> string"

record zip_codec =
  zip_bytes :: "zip_entry list \<Rightarrow> string"
  unzip_bytes :: "string \<Rightarrow> zip_entry list option"

definition zip_onDir ::
  "env \<Rightarrow> string \<Rightarrow> string \<Rightarrow> zip_entry list \<times> node \<Rightarrow> (zip_entry list \<times> node) outcome" where
  "zip_onDir e sourceRootPath dir s =
     (let kids = listFiles e (snd s) dir in
      if kids = None \<or> kids = Some [] then
        (let currentPath = getAbsolutePath e dir;
             entryName = drop (length sourceRootPath) currentPath @ ''/''
         in if 1 < length entryName then Normal (fst s @ [(entryName, [])], snd s)
            else Normal s)
      else Normal s)"

text \<open>\<open>putNextEntry\<close> comes before the file is opened: an entry without bytes stays in
  the archive when the open throws.\<close>

definition zip_onFile ::
  "env \<Rightarrow> string \<Rightarrow> string \<Rightarrow> zip_entry list \<times> node \<Rightarrow> (zip_entry list \<times> node) outcome" where
  "zip_onFile e sourceRootPath file s =
     (let currentPath = getAbsolutePath e file;
          entryName = drop (length sourceRootPath) currentPath
      in case FileInputStream e (snd s) file of
           Inl x \<Rightarrow> Abrupt x (fst s @ [(entryName, [])], snd s)
         | Inr bytes \<Rightarrow> Normal (fst s @ [(entryName, bytes)], snd s))"

text \<open>\<open>zip\<close> returns the path of the archive or \<open>null\<close>; the outer \<open>option\<close> is the
  fuel's. The archive file is created before the walk and receives its bytes when the
  stream is closed, also after an exception.\<close>

definition zip ::
  "nat \<Rightarrow> env \<Rightarrow> zip_codec \<Rightarrow> FileManager \<Rightarrow> node \<Rightarrow> string \<Rightarrow> string option \<Rightarrow>
   (string option \<times> node) option" where
  "zip n e codec fm fs sourcePath zipFilePath =
     (case resolvePath e fm sourcePath of
        Inl _ \<Rightarrow> Some (None, fs)
      | Inr sourceFile \<Rightarrow>
          if \<not> exists e fs sourceFile then Some (None, fs)
          else
            (case (if truthy zipFilePath
                   then (case resolvePath e fm (the zipFilePath) of
                           Inl _ \<Rightarrow> None | Inr z \<Rightarrow> Some z)
                   else
                     (let baseName = getBaseName (getName sourceFile) in
                      case getParent sourceFile of
                        Some parentDir \<Rightarrow> Some (File (parentDir @ ''/'' @ baseName @ ''.zip''))
                      | None \<Rightarrow> Some (File (baseName @ ''.zip'')))) of
               None \<Rightarrow> Some (None, fs)
             | Some zipFile \<Rightarrow>
                 (case FileOutputStream e fs zipFile of
                    Inl x \<Rightarrow> Some (None, fs)
                  | Inr fs1 \<Rightarrow>
                      if isDirectory e fs1 sourceFile then
                        (let sourceRootPath = with_separator (getAbsolutePath e sourceFile) in
                         case traverseDirectory n e fs1 (getAbsolutePath e sourceFile)
                                (zip_onFile e sourceRootPath) (zip_onDir e sourceRootPath)
                                PreOrder [] of
                           None \<Rightarrow> None
                         | Some (Normal (zos, fs2)) \<Rightarrow>
                             Some (Some (getAbsolutePath e zipFile),
                                   write_bytes e fs2 zipFile (zip_bytes codec zos))
                         | Some (Abrupt x (zos, fs2)) \<Rightarrow>
                             Some (None, write_bytes e fs2 zipFile (zip_bytes codec zos)))
                      else
                        (case FileInputStream e fs1 sourceFile of
                           Inl x \<Rightarrow> Some (None, write_bytes e fs1 zipFile (zip_bytes codec []))
                         | Inr bytes \<Rightarrow>
                             Some (Some (getAbsolutePath e zipFile),
                                   write_bytes e fs1 zipFile
                                     (zip_bytes codec [(getName sourceFile, bytes)]))))))"

definition zip_slip :: exn where
  "zip_slip = Exn ''IOException: Zip Slip''"

text \<open>One turn of the loop of \<open>unzip\<close>.\<close>

definition unzip_entry :: "env \<Rightarrow> string \<Rightarrow> string \<Rightarrow> zip_entry \<Rightarrow> node \<Rightarrow> node outcome" where
  "unzip_entry e destDirectory destDirPath zipEntry fs =
     (let newFile = File2 destDirectory (fst zipEntry);
          newFilePath = getCanonicalPath e newFile
      in if \<not> startsWith newFilePath destDirPath then Abrupt zip_slip fs
         else if endsWith (fst zipEntry) ''/'' then
           (if \<not> isDirectory e fs newFile then
              (case mkdirs e fs newFile of
                 (False, fs') \<Rightarrow> Abrupt (Exn ''IOException: mkdirs'') fs'
               | (True, fs') \<Rightarrow> Normal fs')
            else Normal fs)
         else
           (case getParentFile newFile of
              None \<Rightarrow> Abrupt (Exn ''TypeError'') fs
            | Some parent \<Rightarrow>
                (case (if \<not> isDirectory e fs parent then mkdirs e fs parent else (True, fs)) of
                   (False, fs') \<Rightarrow> Abrupt (Exn ''IOException: mkdirs'') fs'
                 | (True, fs') \<Rightarrow>
                     (case FileOutputStream e fs' newFile of
                        Inl x \<Rightarrow> Abrupt x fs'
                      | Inr fs'' \<Rightarrow> Normal (write_bytes e fs'' newFile (snd zipEntry))))))"

fun unzip_entries :: "env \<Rightarrow> string \<Rightarrow> string \<Rightarrow> zip_entry list \<Rightarrow> node \<Rightarrow> node outcome" where
  "unzip_entries e destDirectory destDirPath [] fs = Normal fs"
| "unzip_entries e destDirectory destDirPath (zipEntry # rest) fs =
     (case unzip_entry e destDirectory destDirPath zipEntry fs of
        Abrupt x fs' \<Rightarrow> Abrupt x fs'
      | Normal fs' \<Rightarrow> unzip_entries e destDirectory destDirPath rest fs')"

text \<open>The destination of \<open>unzip\<close>, and the file tree once it is made.\<close>

definition unzip_destination ::
  "env \<Rightarrow> FileManager \<Rightarrow> string \<Rightarrow> string option \<Rightarrow> string option" where
  "unzip_destination e fm zipFile resultFolderPath =
     (if truthy resultFolderPath
      then (case resolvePath e fm (the resultFolderPath) of Inl _ \<Rightarrow> None | Inr d \<Rightarrow> Some d)
      else
        (let destDirName = getBaseName (getName zipFile) in
         case getParent zipFile of
           Some parent \<Rightarrow> Some (File2 parent destDirName)
         | None \<Rightarrow> Some (File destDirName)))"

definition made_destination :: "env \<Rightarrow> node \<Rightarrow> string \<Rightarrow> node" where
  "made_destination e fs destDirectory =
     (if \<not> exists e fs destDirectory then snd (mkdirs e fs destDirectory) else fs)"

definition unzip ::
  "env \<Rightarrow> zip_codec \<Rightarrow> FileManager \<Rightarrow> node \<Rightarrow> string \<Rightarrow> string option \<Rightarrow> string option \<times> node" where
  "unzip e codec fm fs zipFilePath resultFolderPath =
     (case resolvePath e fm zipFilePath of
        Inl _ \<Rightarrow> (None, fs)
      | Inr zipFile \<Rightarrow>
          if \<not> exists e fs zipFile \<or> isDirectory e fs zipFile then (None, fs)
          else
            (case unzip_destination e fm zipFile resultFolderPath of
               None \<Rightarrow> (None, fs)
             | Some destDirectory \<Rightarrow>
                 let fs1 = made_destination e fs destDirectory;
                     destDirPath = with_separator (getCanonicalPath e destDirectory)
                 in
                 (case FileInputStream e fs1 zipFile of
                    Inl x \<Rightarrow> (None, fs1)
                  | Inr bytes \<Rightarrow>
                      (case unzip_bytes codec bytes of
                         None \<Rightarrow> (None, fs1)
                       | Some entries \<Rightarrow>
                           (case unzip_entries e destDirectory destDirPath entries fs1 of
                              Abrupt x fs2 \<Rightarrow> (None, fs2)
                            | Normal fs2 \<Rightarrow> (Some (getAbsolutePath e destDirectory), fs2))))))"

section \<open>Well-formed trees and their measures\<close>

text \<open>A name of a directory entry is not empty, holds no separator and is neither \<open>.\<close>
  nor \<open>..\<close>; the entries of a directory have different names.\<close>

definition valid_name :: "string \<Rightarrow> bool" where
  "valid_name n = (n \<noteq> [] \<and> sep \<notin> set n \<and> n \<noteq> ''.'' \<and> n \<noteq> ''..'')"

fun wf_node :: "node \<Rightarrow> bool" where
  "wf_node (RegularFile _ _ _) = True"
| "wf_node (Directory _ _ _ ks) =
     (distinct (map name ks) \<and> (\<forall>k \<in> set ks. valid_name (name k) \<and> wf_node k))"

fun total_bytes :: "node \<Rightarrow> nat" where
  "total_bytes (RegularFile _ c _) = length c"
| "total_bytes (Directory _ _ _ ks) = sum_list (map total_bytes ks)"

fun height :: "node \<Rightarrow> nat" where
  "height (RegularFile _ _ _) = 0"
| "height (Directory _ _ _ ks) = Suc (fold max (map height ks) 0)"

text \<open>\<open>unit || "mb"\<close>, as \<open>getStorageSize\<close> computes it.\<close>

definition target_unit :: "string option \<Rightarrow> string" where
  "target_unit unit = (case unit of None \<Rightarrow> ''mb'' | Some u \<Rightarrow> if u = [] then ''mb'' else u)"

section \<open>What a best-effort deletion does to a tree\<close>

definition lookup_opt :: "node option \<Rightarrow> path \<Rightarrow> node option" where
  "lookup_opt x p = (case x of None \<Rightarrow> None | Some n \<Rightarrow> lookup n p)"

text \<open>What a best-effort deletion leaves of the node \<open>t\<close> that the file \<open>f\<close> denotes.\<close>

fun residual :: "env \<Rightarrow> string \<Rightarrow> node \<Rightarrow> node option" where
  "residual e f (RegularFile a c m) =
     (if locate e f \<noteq> [] \<and> deletable e (locate e f) then None else Some (RegularFile a c m))"
| "residual e f (Directory a l m ks) =
     (let rs = concat (map (\<lambda>k. case residual e (File2 f (name k)) k of
                                    None \<Rightarrow> [] | Some k' \<Rightarrow> [k']) ks)
      in if rs = [] \<and> locate e f \<noteq> [] \<and> deletable e (locate e f) then None
         else Some (Directory a l m rs))"

text \<open>The calls of \<open>File.delete()\<close> of a post-order walk that tries every node, with
  their results.\<close>

fun attempts :: "env \<Rightarrow> string \<Rightarrow> node \<Rightarrow> (string \<times> bool) list" where
  "attempts e f (RegularFile a c m) = [(f, residual e f (RegularFile a c m) = None)]"
| "attempts e f (Directory a l m ks) =
     concat (map (\<lambda>k. attempts e (File2 f (name k)) k) ks) @
     [(f, residual e f (Directory a l m ks) = None)]"

fun postorder :: "string \<Rightarrow> node \<Rightarrow> string list" where
  "postorder f (RegularFile a c m) = [f]"
| "postorder f (Directory a l m ks) =
     concat (map (\<lambda>k. postorder (File2 f (name k)) k) ks) @ [f]"

definition residuals :: "env \<Rightarrow> string \<Rightarrow> node list \<Rightarrow> node list" where
  "residuals e f ks =
     concat (map (\<lambda>k. case residual e (File2 f (name k)) k of None \<Rightarrow> [] | Some k' \<Rightarrow> [k']) ks)"

text \<open>The node at \<open>p\<close> is the only entry of that name in its directory.\<close>

definition sole :: "node \<Rightarrow> path \<Rightarrow> bool" where
  "sole fs p =
     (p = [] \<or>
      (case lookup fs (butlast p) of
         Some (Directory _ _ _ ks) \<Rightarrow> length (filter (\<lambda>k. name k = last p) ks) = 1
       | _ \<Rightarrow> False))"

definition record_attempts :: "delete_context \<Rightarrow> (string \<times> bool) list \<Rightarrow> delete_context" where
  "record_attempts ctx as =
     ctx\<lparr> success := (success ctx \<and> list_all snd as), attempted := attempted ctx @ as \<rparr>"

section \<open>What an operation leaves alone\<close>

text \<open>The string test of the sandbox and of \<open>unzip\<close>, read on the names.\<close>

definition slashed :: "path \<Rightarrow> string" where
  "slashed p = concat (map (\<lambda>s. sep # s) p)"

text \<open>What a step may do to the regular files: none appears or changes (\<open>no_new_file\<close>),
  or none does outside a directory \<open>d\<close> (\<open>no_new_file_outside\<close>).\<close>

definition no_new_file_outside :: "path \<Rightarrow> node \<Rightarrow> node \<Rightarrow> bool" where
  "no_new_file_outside d fs fs' =
     (\<forall>q. \<not> prefix d q \<longrightarrow> is_file (lookup fs' q) \<longrightarrow> lookup fs' q = lookup fs q)"

definition no_new_file :: "node \<Rightarrow> node \<Rightarrow> bool" where
  "no_new_file fs fs' = (\<forall>q. is_file (lookup fs' q) \<longrightarrow> lookup fs' q = lookup fs q)"

fun state_of :: "'s outcome \<Rightarrow> 's" where
  "state_of (Normal s) = s"
| "state_of (Abrupt x s) = s"

section \<open>What \<open>zip\<close> writes and \<open>unzip\<close> builds\<close>

text \<open>The entries of the archive of a directory, in the order of the walk: \<open>r\<close> is the
  path of the node below the directory that is packed.\<close>

fun entries_of :: "path \<Rightarrow> node \<Rightarrow> zip_entry list" where
  "entries_of r (RegularFile n c m) = [(joinWith sep r, c)]"
| "entries_of r (Directory n l m ks) =
     (if ks = [] then (if r = [] then [] else [(joinWith sep r @ [sep], [])])
      else concat (map (\<lambda>k. entries_of (r @ [name k]) k) ks))"

text \<open>The tree after the directory at \<open>q\<close> has been made, when it was not there.\<close>

definition with_directory :: "env \<Rightarrow> node \<Rightarrow> path \<Rightarrow> node" where
  "with_directory e fs q = (if is_dir (lookup fs q) then fs else snd (mkdirs_at e fs q))"

text \<open>The node that \<open>unzip\<close> makes of a node that \<open>zip\<close> has packed.\<close>

fun rebuilt :: "env \<Rightarrow> node \<Rightarrow> node" where
  "rebuilt e (RegularFile n c m) = RegularFile n c (clock e)"
| "rebuilt e (Directory n l m ks) = Directory n (new_dir_length e) (clock e) (map (rebuilt e) ks)"

text \<open>The regular files below a node, by their relative paths, with their bytes; and
  the directories without children.\<close>

fun files_of :: "node \<Rightarrow> (path \<times> string) list" where
  "files_of (RegularFile n c m) = [([], c)]"
| "files_of (Directory n l m ks) =
     concat (map (\<lambda>k. map (\<lambda>(r, c). (name k # r, c)) (files_of k)) ks)"

fun empty_dirs_of :: "node \<Rightarrow> path list" where
  "empty_dirs_of (RegularFile n c m) = []"
| "empty_dirs_of (Directory n l m ks) =
     (if ks = [] then [[]] else concat (map (\<lambda>k. map ((#) (name k)) (empty_dirs_of k)) ks))"

text \<open>The regular files below a file, named as \<open>listFiles\<close> names them.\<close>

fun files_below :: "string \<Rightarrow> node \<Rightarrow> string list" where
  "files_below f (RegularFile n c m) = [f]"
| "files_below f (Directory n l m ks) = concat (map (\<lambda>k. files_below (File2 f (name k)) k) ks)"

section \<open>Example hosts and trees\<close>

definition zzz_options :: tree_options where
  "zzz_options = default_options\<lparr> search_name := Some ''zzz'' \<rparr>"


text \<open>The comparison by the requested key, before the order is applied.\<close>

definition key_compare :: "env \<Rightarrow> node \<Rightarrow> string \<Rightarrow> string \<Rightarrow> string \<Rightarrow> int" where
  "key_compare e fs by a b =
     (if by = ''date'' then lastModified e fs a - lastModified e fs b
      else if by = ''size'' then
        (if isFile e fs a \<and> isFile e fs b
         then int (file_length e fs a) - int (file_length e fs b) else 0)
      else localeCompare e (getName a) (getName b))"

text \<open>The tree that \<open>getDirectoryTree\<close> prints.\<close>

text \<open>The lines below the root line, read as a forest: an entry is an item of a
  directory level, its line, and for a directory the entries printed below it.\<close>

datatype entry = Entry (entry_item: string) (entry_line: string) (entry_below: "entry list")

fun lines_of :: "entry \<Rightarrow> string list" where
  "lines_of (Entry it txt bs) = txt # concat (map lines_of bs)"

definition indent :: "nat \<Rightarrow> string" where
  "indent depth = concat (replicate (depth - 1) (bar @ ''  ''))"

text \<open>An earlier and a later entry of a level: no file before a directory, and two
  entries of the same kind in the order of the requested key, reversed for \<open>desc\<close>.\<close>

definition in_order :: "env \<Rightarrow> node \<Rightarrow> tree_options \<Rightarrow> string \<Rightarrow> string \<Rightarrow> bool" where
  "in_order e fs opts x y =
     (\<not> (\<not> isDirectory e fs x \<and> isDirectory e fs y) \<and>
      (isDirectory e fs x = isDirectory e fs y \<longrightarrow>
         (if or_default (sort_order opts) ''asc'' = ''desc''
          then 0 \<le> key_compare e fs (or_default (sort_by opts) ''name'') x y
          else key_compare e fs (or_default (sort_by opts) ''name'') x y \<le> 0)))"

text \<open>The items printed for the directory \<open>d\<close>: filtered items of it in their order,
  among them every file and, when \<open>showEmptyFolders\<close> is on, every directory; every
  earlier and later one \<open>in_order\<close>.\<close>

definition level_ok ::
  "env \<Rightarrow> node \<Rightarrow> tree_options \<Rightarrow> pattern \<Rightarrow> pattern \<Rightarrow> string \<Rightarrow> string list \<Rightarrow> bool" where
  "level_ok e fs opts r1 r2 d its =
     ((case level_items e fs opts r1 r2 d of
         Inl _ \<Rightarrow> False
       | Inr ys \<Rightarrow>
           subseq its ys \<and>
           (\<forall>y \<in> set ys. \<not> isDirectory e fs y \<or> showEmptyFolders opts \<longrightarrow> y \<in> set its)) \<and>
      sorted_wrt (in_order e fs opts) its)"

text \<open>An entry at a depth: its line is the indentation, a branch mark and the name of the
  item, with \<open>/\<close> for a directory; the entries below a directory are a level of it, one
  deeper, and there are some unless \<open>showEmptyFolders\<close> is on; a file has none.\<close>

fun entry_ok ::
  "env \<Rightarrow> FileManager \<Rightarrow> node \<Rightarrow> tree_options \<Rightarrow> pattern \<Rightarrow> pattern \<Rightarrow> nat \<Rightarrow> entry \<Rightarrow> bool" where
  "entry_ok e fm fs opts r1 r2 depth (Entry it txt bs) =
     ((\<exists>mark \<in> set [tee, corner].
         txt = (if isDirectory e fs it then indent depth @ mark @ '' '' @ getName it @ ''/''
               else file_line e fm fs opts (indent depth @ mark @ '' '') it)) \<and>
      (if isDirectory e fs it
       then level_ok e fs opts r1 r2 it (map entry_item bs) \<and>
            (bs \<noteq> [] \<or> showEmptyFolders opts) \<and>
            (\<forall>b \<in> set bs. entry_ok e fm fs opts r1 r2 (depth + 1) b)
       else bs = []))"

text \<open>A consistent comparator, as \<open>Array.prototype.sort\<close> expects one.\<close>

definition consistent :: "('a \<Rightarrow> 'a \<Rightarrow> int) \<Rightarrow> bool" where
  "consistent c =
     ((\<forall>x y. sgn (c x y) = - sgn (c y x)) \<and>
      (\<forall>x y z. c x y \<le> 0 \<and> c y z \<le> 0 \<longrightarrow> c x z \<le> 0))"

text \<open>The comparison of the example host: by character codes.\<close>

fun compare_strings :: "string \<Rightarrow> string \<Rightarrow> int" where
  "compare_strings [] [] = 0"
| "compare_strings [] (y # ys) = - 1"
| "compare_strings (x # xs) [] = 1"
| "compare_strings (x # xs) (y # ys) =
     (if (of_char x :: nat) < of_char y then - 1
      else if (of_char y :: nat) < of_char x then 1
      else compare_strings xs ys)"

definition sort_tree :: node where
  "sort_tree =
     Directory [] 4096 0
       [Directory ''base'' 4096 0
          [RegularFile ''a.txt'' ''hello!'' 5,
           Directory ''Z'' 4096 3 [],
           RegularFile ''b.txt'' ''hi'' 7]]"

definition desc_options :: tree_options where
  "desc_options = default_options\<lparr> sort_order := Some ''desc'' \<rparr>"

text \<open>The options of the examples with \<open>showEmptyFolders\<close> on.\<close>

definition shown_options :: tree_options where
  "shown_options = zzz_options\<lparr> showEmptyFolders := True \<rparr>"

definition desc_shown_options :: tree_options where
  "desc_shown_options = desc_options\<lparr> showEmptyFolders := True \<rparr>"

definition unix_env :: env where
  "unix_env = \<lparr> user_dir = ''/'', deletable = (\<lambda>_. True), writable = (\<lambda>_. True),
      readable = (\<lambda>_. True), renamable = (\<lambda>_ _. True), clock = 0, new_dir_length = 4096,
      localeCompare = compare_strings,
      RegExp = (\<lambda>_. None), number_string = (\<lambda>_. []), date_string = (\<lambda>_. []),
      lower_case = map ascii_lower,
      FileStream_read = (\<lambda>fs f. Inr (case lookup fs (canon_names f) of
                                        Some (RegularFile _ c _) \<Rightarrow> Some c | _ \<Rightarrow> None)),
      FileStream_write = (\<lambda>fs _ _. (Inr None, fs)),
      FileStream_append = (\<lambda>fs _ _. (Inr None, fs)),
      FileStream_remove = (\<lambda>fs _. (Inr False, fs)) \<rparr>"

definition sandbox :: "string \<Rightarrow> FileManager" where
  "sandbox b = \<lparr> basePath = Some b, isSandboxed = True \<rparr>"

definition small_tree :: node where
  "small_tree =
     Directory [] 4096 0
       [Directory ''base'' 4096 0
          [RegularFile ''a.txt'' ''hello!'' 5,
           Directory ''sub'' 4096 3 [RegularFile ''b.txt'' ''world!'' 7],
           Directory ''empty'' 4096 4 []]]"

definition throwing_env :: env where
  "throwing_env = unix_env\<lparr> FileStream_read := (\<lambda>_ _. Inl (Exn ''IOException'')),
      FileStream_write := (\<lambda>fs _ _. (Inl (Exn ''IOException''), fs)) \<rparr>"

text \<open>A host that does not let \<open>/base/sub/b.txt\<close> be deleted.\<close>

definition locked_env :: env where
  "locked_env = unix_env\<lparr> deletable := (\<lambda>p. p \<noteq> [''base'', ''sub'', ''b.txt'']) \<rparr>"

text \<open>A codec for the examples: an entry is its name, a zero byte, its bytes and a
  byte 1.\<close>

definition decode_step ::
  "zip_entry list \<times> string option \<times> string \<Rightarrow> char \<Rightarrow> zip_entry list \<times> string option \<times> string" where
  "decode_step s c =
     (case s of
        (es, None, cur) \<Rightarrow> if c = CHR 0x00 then (es, Some cur, []) else (es, None, cur @ [c])
      | (es, Some n, cur) \<Rightarrow> if c = CHR 0x01 then (es @ [(n, cur)], None, []) else (es, Some n, cur @ [c]))"

definition plain_codec :: zip_codec where
  "plain_codec =
     \<lparr> zip_bytes = (\<lambda>es. concat (map (\<lambda>(n, d). n @ [CHR 0x00] @ d @ [CHR 0x01]) es)),
       unzip_bytes = (\<lambda>bs. Some (fst (foldl decode_step ([], None, []) bs))) \<rparr>"

text \<open>An archive whose second entry points out of the destination.\<close>

definition evil_entries :: "zip_entry list" where
  "evil_entries = [(''ok.txt'', ''fine''), (''../evil.txt'', ''bad''), (''late.txt'', ''late'')]"

definition evil :: node where
  "evil =
     Directory [] 4096 0
       [Directory ''base'' 4096 0
          [RegularFile ''evil.zip'' (zip_bytes plain_codec evil_entries) 1]]"

text \<open>A host on which no file can be read.\<close>

definition unreadable_env :: env where
  "unreadable_env = unix_env\<lparr> readable := (\<lambda>_. False) \<rparr>"

text \<open>A tree to pack: \<open>/base/src\<close> holds a file, a directory with a file and an empty
  directory.\<close>

definition packed :: node where
  "packed =
     Directory ''src'' 4096 1
       [RegularFile ''a.txt'' ''hello'' 2,
        Directory ''docs'' 4096 3 [RegularFile ''b.txt'' ''world'' 4],
        Directory ''empty'' 4096 5 []]"

definition pack_tree :: node where
  "pack_tree = Directory [] 4096 0 [Directory ''base'' 4096 0 [packed]]"

section \<open>Path name lemmas\<close>

lemma splitOn_nonempty: "splitOn c s \<noteq> []"
  by (induction s) (auto split: list.splits)

lemma splitOn_append: "splitOn c (a @ c # b) = splitOn c a @ splitOn c b"
  by (induction a) (auto split: list.splits simp: splitOn_nonempty)

lemma splitOn_free: "c \<notin> set n \<Longrightarrow> splitOn c n = [n]"
  by (induction n) auto

lemma splitOn_parts_free: "w \<in> set (splitOn c s) \<Longrightarrow> c \<notin> set w"
  by (induction s arbitrary: w) (auto split: if_splits list.splits)

lemma splitOn_joinWith:
  "ws \<noteq> [] \<Longrightarrow> \<forall>w \<in> set ws. c \<notin> set w \<Longrightarrow> splitOn c (joinWith c ws) = ws"
proof (induction c ws rule: joinWith.induct)
  case (3 c x y ys)
  then show ?case by (simp add: splitOn_append splitOn_free)
qed (simp_all add: splitOn_free)

lemma foldl_canon_step_filter:
  "foldl canon_step st (filter (\<lambda>s. s \<noteq> []) xs) = foldl canon_step st xs"
  by (induction xs arbitrary: st) (auto simp: canon_step_def)

lemma foldl_canon_normalize:
  "foldl canon_step st (splitOn sep (normalizePath g)) = foldl canon_step st (splitOn sep g)"
proof -
  let ?names = "filter (\<lambda>s. s \<noteq> []) (splitOn sep g)"
  have free: "\<forall>w \<in> set ?names. sep \<notin> set w"
    by (auto dest: splitOn_parts_free)
  have j: "foldl canon_step st (splitOn sep (joinWith sep ?names)) = foldl canon_step st ?names"
  proof (cases "?names = []")
    case True
    then show ?thesis by (simp add: canon_step_def)
  next
    case False
    then show ?thesis using splitOn_joinWith[OF False free] by simp
  qed
  have "foldl canon_step st (splitOn sep (normalizePath g)) = foldl canon_step st ?names"
    using j by (simp add: normalizePath_def canon_step_def Let_def)
  then show ?thesis by (simp add: foldl_canon_step_filter)
qed

lemma canon_names_normalize: "canon_names (normalizePath g) = canon_names g"
  by (simp add: canon_names_def foldl_canon_normalize)

lemma isAbsolute_normalize: "isAbsolute g \<Longrightarrow> isAbsolute (normalizePath g)"
  by (simp add: normalizePath_def isAbsolute_def)

lemma canon_names_child:
  assumes "valid_name n"
  shows "canon_names (f @ sep # n) = canon_names f @ [n]"
  using assms by (simp add: canon_names_def splitOn_append splitOn_free valid_name_def canon_step_def)

lemma isAbsolute_File2: "isAbsolute f \<Longrightarrow> isAbsolute (File2 f n)"
  by (auto simp: File2_def normalizePath_def isAbsolute_def split: list.splits)

lemma locate_absolute: "isAbsolute f \<Longrightarrow> locate e f = canon_names f"
  by (simp add: locate_def getAbsolutePath_def)

lemma joinWith_nonempty: "x \<in> set ws \<Longrightarrow> x \<noteq> [] \<Longrightarrow> joinWith c ws \<noteq> []"
  by (induction c ws rule: joinWith.induct) auto

lemma joinWith_first:
  "ws \<noteq> [] \<Longrightarrow> hd ws \<noteq> [] \<Longrightarrow> joinWith c ws \<noteq> [] \<and> hd (joinWith c ws) = hd (hd ws)"
  by (induction c ws rule: joinWith.induct) auto

lemma isAbsolute_normalize_iff: "isAbsolute (normalizePath g) = isAbsolute g"
proof (cases "isAbsolute g")
  case True
  then show ?thesis by (simp add: isAbsolute_normalize)
next
  case False
  let ?names = "filter (\<lambda>s. s \<noteq> []) (splitOn sep g)"
  have "\<not> isAbsolute (joinWith sep ?names)"
  proof (cases "?names = []")
    case True
    then show ?thesis by (simp add: isAbsolute_def)
  next
    case names: False
    then have "hd ?names \<in> set ?names" by (rule hd_in_set)
    then have h: "hd ?names \<noteq> []" "sep \<notin> set (hd ?names)"
      by (auto dest: splitOn_parts_free)
    then have "hd (hd ?names) \<noteq> sep"
      by (cases "hd ?names") auto
    then show ?thesis
      using joinWith_first[OF names h(1), of sep]
      by (cases "joinWith sep ?names") (auto simp: isAbsolute_def)
  qed
  then show ?thesis using False by (simp add: normalizePath_def Let_def)
qed

lemma File2_nonempty: "File2 f n \<noteq> []" if "valid_name n"
proof -
  have "splitOn sep (f @ sep # n) = splitOn sep f @ [n]"
    using that by (simp add: splitOn_append splitOn_free valid_name_def)
  then have "n \<in> set (filter (\<lambda>s. s \<noteq> []) (splitOn sep (f @ sep # n)))"
    using that by (simp add: valid_name_def)
  then have "joinWith sep (filter (\<lambda>s. s \<noteq> []) (splitOn sep (f @ sep # n))) \<noteq> []"
    using that by (intro joinWith_nonempty[of n]) (auto simp: valid_name_def)
  then show ?thesis by (simp add: File2_def normalizePath_def Let_def)
qed

lemma foldl_canon_child:
  assumes "valid_name n"
  shows "foldl canon_step st (splitOn sep (f @ sep # n)) = n # foldl canon_step st (splitOn sep f)"
  using assms by (simp add: splitOn_append splitOn_free valid_name_def canon_step_def)

lemma locate_File2:
  assumes "f \<noteq> []" "valid_name n"
  shows "locate e (File2 f n) = locate e f @ [n]"
proof (cases "isAbsolute f")
  case True
  have "locate e (File2 f n) = canon_names (File2 f n)"
    by (rule locate_absolute) (rule isAbsolute_File2[OF True])
  also have "\<dots> = canon_names (f @ sep # n)"
    unfolding File2_def by (rule canon_names_normalize)
  also have "\<dots> = canon_names f @ [n]"
    by (rule canon_names_child[OF assms(2)])
  finally show ?thesis by (simp add: locate_absolute[OF True])
next
  case False
  then have "\<not> isAbsolute (f @ sep # n)"
    using assms(1) by (cases f) (auto simp: isAbsolute_def)
  then have rel: "\<not> isAbsolute (File2 f n)"
    by (simp add: File2_def isAbsolute_normalize_iff)
  let ?u = "user_dir e"
  have "locate e (File2 f n) = canon_names (?u @ sep # File2 f n)"
    using rel by (simp add: locate_def getAbsolutePath_def canon_names_normalize)
  also have "\<dots> = canon_names (?u @ sep # normalizePath (f @ sep # n))"
    by (simp add: File2_def)
  also have "\<dots> = rev (foldl canon_step (foldl canon_step [] (splitOn sep ?u))
                        (splitOn sep (f @ sep # n)))"
    by (simp add: canon_names_def splitOn_append foldl_canon_normalize)
  also have "\<dots> = rev (foldl canon_step (foldl canon_step [] (splitOn sep ?u)) (splitOn sep f)) @ [n]"
    by (simp add: foldl_canon_child[OF assms(2)])
  also have "rev (foldl canon_step (foldl canon_step [] (splitOn sep ?u)) (splitOn sep f))
      = canon_names (?u @ sep # f)"
    by (simp add: canon_names_def splitOn_append)
  also have "canon_names (?u @ sep # f) = locate e f"
    using False by (simp add: locate_def getAbsolutePath_def canon_names_normalize)
  finally show ?thesis .
qed

section \<open>The walker on a well-formed tree\<close>

lemma lookup_append:
  "lookup fs (p @ q) = (case lookup fs p of None \<Rightarrow> None | Some t \<Rightarrow> lookup t q)"
  by (induction p arbitrary: fs) (auto split: node.splits option.splits)

lemma find_name_distinct:
  "distinct (map name ks) \<Longrightarrow> k \<in> set ks \<Longrightarrow> find (\<lambda>k'. name k' = name k) ks = Some k"
  by (induction ks) auto

lemma lookup_child:
  assumes "lookup fs p = Some (Directory a l m ks)" "distinct (map name ks)" "k \<in> set ks"
  shows "lookup fs (p @ [name k]) = Some k"
  using assms by (simp add: lookup_append find_name_distinct)

lemma fold_max_ge: "(a::nat) \<le> fold max xs a"
proof (induction xs arbitrary: a)
  case Nil then show ?case by simp
next
  case (Cons x xs)
  have "a \<le> max x a" by simp
  also have "\<dots> \<le> fold max xs (max x a)" by (rule Cons.IH)
  finally show ?case by simp
qed

lemma fold_max_mem: "(x::nat) \<in> set xs \<Longrightarrow> x \<le> fold max xs a"
proof (induction xs arbitrary: a)
  case Nil then show ?case by simp
next
  case (Cons y ys)
  show ?case
  proof (cases "x = y")
    case True
    have "x \<le> max y a" using True by simp
    also have "\<dots> \<le> fold max ys (max y a)" by (rule fold_max_ge)
    finally show ?thesis by simp
  next
    case False
    then have "x \<in> set ys" using Cons.prems by simp
    then show ?thesis using Cons.IH by simp
  qed
qed

lemma height_child: "k \<in> set ks \<Longrightarrow> height k \<le> fold max (map height ks) 0"
  by (rule fold_max_mem) simp

lemma for_each_sum:
  assumes "\<And>k acc. k \<in> set ks \<Longrightarrow> body (g k) (acc, fs) = Some (Normal (acc + w k, fs))"
  shows "for_each body (map g ks) (acc, fs) = Some (Normal (acc + sum_list (map w ks), fs))"
  using assms
proof (induction ks arbitrary: acc)
  case Nil then show ?case by simp
next
  case (Cons k ks)
  then show ?case by (simp add: then_do_def add.assoc)
qed

lemma node_at_nonempty: "node_at e fs f = Some t \<Longrightarrow> f \<noteq> []"
  by (auto simp: node_at_def split: if_splits)

lemma node_at_child:
  assumes "node_at e fs f = Some (Directory a l m ks)" "distinct (map name ks)" "k \<in> set ks"
    and "valid_name (name k)"
  shows "node_at e fs (File2 f (name k)) = Some k"
proof -
  have f: "f \<noteq> []" by (rule node_at_nonempty[OF assms(1)])
  have "lookup fs (locate e f) = Some (Directory a l m ks)"
    using assms(1) f by (simp add: node_at_def)
  then have "lookup fs (locate e f @ [name k]) = Some k"
    using assms(2,3) by (rule lookup_child)
  then show ?thesis
    by (simp add: node_at_def File2_nonempty[OF assms(4)] locate_File2[OF f assms(4)])
qed

lemma walk_size:
  assumes "wf_node t" "node_at e fs f = Some t" "height t < n"
  shows "walk n e (size_onFile e) no_visit PreOrder f (acc, fs) = Some (Normal (acc + total_bytes t, fs))"
  using assms
proof (induction n arbitrary: t f acc)
  case 0 then show ?case by simp
next
  case (Suc n)
  show ?case
  proof (cases t)
    case (RegularFile a c m)
    then show ?thesis using Suc.prems
      by (simp add: then_do_def isDirectory_def isFile_def is_dir_def is_file_def size_onFile_def
          file_length_def node_length_def)
  next
    case (Directory a l m ks)
    have kids: "\<And>k acc. k \<in> set ks \<Longrightarrow>
        walk n e (size_onFile e) no_visit PreOrder (File2 f (name k)) (acc, fs)
          = Some (Normal (acc + total_bytes k, fs))"
    proof -
      fix k acc assume k: "k \<in> set ks"
      have wfk: "wf_node k" "valid_name (name k)" "distinct (map name ks)"
        using Suc.prems(1) k Directory by auto
      have lk: "node_at e fs (File2 f (name k)) = Some k"
        using Suc.prems(2) wfk(3) k wfk(2) unfolding Directory by (rule node_at_child)
      have hk: "height k < n"
        using height_child[OF k] Suc.prems(3) Directory by simp
      show "walk n e (size_onFile e) no_visit PreOrder (File2 f (name k)) (acc, fs)
          = Some (Normal (acc + total_bytes k, fs))"
        by (rule Suc.IH[OF wfk(1) lk hk])
    qed
    have loop: "for_each (walk n e (size_onFile e) no_visit PreOrder)
          (map (\<lambda>k. File2 f (name k)) ks) (acc, fs)
        = Some (Normal (acc + sum_list (map total_bytes ks), fs))"
      by (rule for_each_sum) (rule kids)
    show ?thesis using Suc.prems(2) Directory loop
      by (simp add: then_do_def isDirectory_def isFile_def is_dir_def is_file_def
          listFiles_def)
  qed
qed

section \<open>The name of a file and the name of its node\<close>

lemma lastIndexOf_None: "lastIndexOf xs c = None \<longleftrightarrow> c \<notin> set xs"
  by (induction xs) (auto split: option.splits)

lemma lastIndexOf_Some:
  "lastIndexOf xs c = Some i \<Longrightarrow> xs = take i xs @ c # drop (Suc i) xs \<and> c \<notin> set (drop (Suc i) xs)"
proof (induction xs arbitrary: i)
  case Nil then show ?case by simp
next
  case (Cons x xs)
  then show ?case
    by (cases "lastIndexOf xs c") (auto simp: lastIndexOf_None split: if_splits)
qed

lemma getName_split:
  "(f = getName f \<or> (\<exists>pre. f = pre @ sep # getName f)) \<and> sep \<notin> set (getName f)"
proof (cases "lastIndexOf f sep")
  case None
  then have "sep \<notin> set f" by (simp add: lastIndexOf_None)
  then show ?thesis by (simp add: getName_def None)
next
  case (Some i)
  from lastIndexOf_Some[OF Some]
  have "f = take i f @ sep # drop (Suc i) f" "sep \<notin> set (drop (Suc i) f)" by simp_all
  then show ?thesis by (simp add: getName_def Some) blast
qed

lemma lookup_snoc_name: "lookup fs (q @ [s]) = Some t \<Longrightarrow> name t = s"
  by (auto simp: lookup_append find_Some_iff split: option.splits node.splits)

lemma locate_last:
  assumes "f \<noteq> []" "valid_name (getName f)"
  shows "\<exists>q. locate e f = q @ [getName f]"
proof -
  let ?nm = "getName f"
  have nosep: "sep \<notin> set ?nm" using getName_split by blast
  consider (single) "f = ?nm" | (deep) pre where "f = pre @ sep # ?nm"
    using getName_split by blast
  then show ?thesis
  proof cases
    case single
    then have rel: "\<not> isAbsolute f"
      using nosep assms(1) by (cases f) (auto simp: isAbsolute_def)
    have "locate e f = canon_names (user_dir e @ sep # ?nm)"
      using rel single by (simp add: locate_def getAbsolutePath_def canon_names_normalize)
    then show ?thesis by (simp add: canon_names_child[OF assms(2)])
  next
    case deep
    show ?thesis
    proof (cases "isAbsolute f")
      case True
      then have "locate e f = canon_names (pre @ sep # ?nm)"
        using deep by (simp add: locate_absolute)
      then show ?thesis by (simp add: canon_names_child[OF assms(2)])
    next
      case False
      then have "locate e f = canon_names ((user_dir e @ sep # pre) @ sep # ?nm)"
        using deep by (simp add: locate_def getAbsolutePath_def canon_names_normalize)
      then show ?thesis by (simp only: canon_names_child[OF assms(2)]) blast
    qed
  qed
qed

lemma node_at_name:
  assumes "node_at e fs f = Some t" "valid_name (getName f)"
  shows "name t = getName f"
proof -
  have f: "f \<noteq> []" by (rule node_at_nonempty[OF assms(1)])
  obtain q where "locate e f = q @ [getName f]" using locate_last[OF f assms(2)] by blast
  then show ?thesis using assms(1) f by (auto simp: node_at_def dest: lookup_snoc_name)
qed

section \<open>The tree query returns\<close>

lemma filter_items_total:
  assumes "\<And>x. x \<in> set xs \<Longrightarrow> \<not> isl (keep x)"
  shows "filter_items keep xs = Inr (filter (\<lambda>x. keep x = Inr True) xs)"
  using assms
proof (induction xs)
  case Nil then show ?case by simp
next
  case (Cons x xs)
  then have "\<not> isl (keep x)" by simp
  then obtain b where b: "keep x = Inr b" by (cases "keep x") auto
  show ?case using Cons b by simp
qed

lemma passes_total:
  assumes "\<And>g. \<not> isl (FileStream_read e fs g)"
  shows "\<not> isl (passes e fs opts r1 r2 item)"
proof -
  obtain r where "FileStream_read e fs (getAbsolutePath e item) = Inr r"
    using assms[of "getAbsolutePath e item"] by (cases "FileStream_read e fs (getAbsolutePath e item)") auto
  then show ?thesis
    by (auto simp: passes_def Let_def split: option.splits pattern.splits)
qed

lemma set_insert_by: "set (insert_by cmp x ys) = insert x (set ys)"
  by (induction ys) auto

lemma set_sort_by_comparator: "set (sort_by_comparator cmp xs) = set xs"
  by (induction xs) (auto simp: sort_by_comparator_def set_insert_by)

lemma level_items_total:
  assumes "\<And>g. \<not> isl (FileStream_read e fs g)"
    and "node_at e fs d = Some (Directory a l m ks)"
  shows "\<exists>ys. level_items e fs opts r1 r2 d = Inr ys \<and>
           set ys = {File2 d (name k) | k. k \<in> set ks \<and> passes e fs opts r1 r2 (File2 d (name k)) = Inr True}"
proof -
  have "filter_items (passes e fs opts r1 r2) (map (\<lambda>k. File2 d (name k)) ks)
      = Inr (filter (\<lambda>x. passes e fs opts r1 r2 x = Inr True) (map (\<lambda>k. File2 d (name k)) ks))"
    by (rule filter_items_total) (rule passes_total[OF assms(1)])
  then show ?thesis
    using assms(2) by (auto simp: level_items_def listFiles_def set_sort_by_comparator)
qed

lemma render_items_total:
  assumes "\<And>item. item \<in> set items \<Longrightarrow> isDirectory e fs item \<Longrightarrow>
             \<exists>ls. rec item (depth + 1) = Some (Inr ls)"
  shows "\<exists>ls. render_items rec e fm fs opts depth len i items = Some (Inr ls)"
  using assms
proof (induction items arbitrary: i)
  case Nil then show ?case by simp
next
  case (Cons item items)
  obtain later where later: "render_items rec e fm fs opts depth len (Suc i) items = Some (Inr later)"
    using Cons.IH[of "Suc i"] Cons.prems by auto
  show ?case
  proof (cases "isDirectory e fs item")
    case True
    then obtain ls where "rec item (depth + 1) = Some (Inr ls)"
      using Cons.prems[of item] by auto
    then show ?thesis using True later by (simp add: Let_def)
  next
    case False
    then show ?thesis using later by (simp add: Let_def)
  qed
qed

lemma traverse_total:
  assumes "\<And>g. \<not> isl (FileStream_read e fs g)"
    and "node_at e fs d = Some t" "is_dir (Some t)" "wf_node t" "height t < n"
  shows "\<exists>ls. traverse n e fm fs opts r1 r2 d depth = Some (Inr ls)"
  using assms(2-)
proof (induction n arbitrary: d t depth)
  case 0 then show ?case by simp
next
  case (Suc n)
  obtain a l m ks where t: "t = Directory a l m ks"
    using Suc.prems(2) by (cases t) (auto simp: is_dir_def)
  obtain ys where ys: "level_items e fs opts r1 r2 d = Inr ys"
    and set_ys: "set ys = {File2 d (name k) | k. k \<in> set ks \<and>
        passes e fs opts r1 r2 (File2 d (name k)) = Inr True}"
    using level_items_total[OF assms(1) Suc.prems(1)[unfolded t]] by blast
  have rec: "\<exists>ls. traverse n e fm fs opts r1 r2 item (depth + 1) = Some (Inr ls)"
    if item: "item \<in> set ys" and isd: "isDirectory e fs item" for item
  proof -
    obtain k where k: "k \<in> set ks" "item = File2 d (name k)"
      using item set_ys by auto
    have wfk: "wf_node k" "valid_name (name k)" "distinct (map name ks)"
      using Suc.prems(3) k t by auto
    have nk: "node_at e fs item = Some k"
      unfolding k(2) using Suc.prems(1)[unfolded t] wfk(3) k(1) wfk(2) by (rule node_at_child)
    have dk: "is_dir (Some k)" using isd nk by (simp add: isDirectory_def)
    have hk: "height k < n" using height_child[OF k(1)] Suc.prems(4) t by simp
    show ?thesis by (rule Suc.IH[OF nk dk wfk(1) hk])
  qed
  show ?case
    using render_items_total[of ys e fs "traverse n e fm fs opts r1 r2" depth fm opts "length ys" 0, OF rec]
    by (simp add: ys)
qed

lemma join_lines_Cons:
  "join_lines (x # ls) = x @ (if ls = [] then [] else newline # join_lines ls)"
  by (cases ls) (simp_all add: join_lines_def)

lemma level_items_none:
  assumes "node_at e fs d = Some (Directory a l m ks)"
    and "\<forall>k \<in> set ks. passes e fs opts r1 r2 (File2 d (name k)) = Inr False"
  shows "level_items e fs opts r1 r2 d = Inr []"
proof -
  have "filter_items (passes e fs opts r1 r2) (map (\<lambda>k. File2 d (name k)) ks) = Inr []"
    using assms(2) by (induction ks) auto
  then show ?thesis using assms(1)
    by (simp add: level_items_def listFiles_def sort_by_comparator_def)
qed

lemma getDirectoryTree_shape:
  assumes "resolvePath e fm path = Inr file"
    and "node_at e fs file = Some (Directory a l m ks)"
    and "wf_node (Directory a l m ks)" "height (Directory a l m ks) < n"
    and "compile e (search_regex opts) \<noteq> BadPattern"
    and "compile e (search_contentRegex opts) \<noteq> BadPattern"
    and "\<forall>g. \<not> isl (FileStream_read e fs g)"
  shows "\<exists>lines. getDirectoryTree n e fm fs path opts
                    = Some (Some (join_lines ((getName file @ ''/'') # lines))) \<and>
           ((\<forall>k \<in> set ks. passes e fs opts (compile e (search_regex opts))
                 (compile e (search_contentRegex opts)) (File2 file (name k)) = Inr False)
             \<longrightarrow> lines = [])"
proof -
  let ?r1 = "compile e (search_regex opts)" and ?r2 = "compile e (search_contentRegex opts)"
  have rd: "\<And>g. \<not> isl (FileStream_read e fs g)" using assms(7) by simp
  have "is_dir (Some (Directory a l m ks))" by (simp add: is_dir_def)
  from traverse_total[OF rd assms(2) this assms(3,4), of fm opts ?r1 ?r2 1]
  obtain lines where lines: "traverse n e fm fs opts ?r1 ?r2 file 1 = Some (Inr lines)"
    by blast
  have res: "getDirectoryTree n e fm fs path opts
      = Some (Some (join_lines ((getName file @ ''/'') # lines)))"
    using assms(1,2,5,6) lines
    by (cases ?r1; cases ?r2) (simp_all add: getDirectoryTree_def exists_def isDirectory_def is_dir_def)
  have "lines = []"
    if none: "\<forall>k \<in> set ks. passes e fs opts ?r1 ?r2 (File2 file (name k)) = Inr False"
  proof -
    obtain n' where n': "n = Suc n'" using assms(4) by (cases n) auto
    show ?thesis
      using lines level_items_none[OF assms(2) none] by (simp add: n')
  qed
  then show ?thesis using res by blast
qed

section \<open>Properties of the sizes\<close>

lemma isAbsolute_getAbsolutePath:
  "isAbsolute (user_dir e) \<Longrightarrow> isAbsolute (getAbsolutePath e f)"
  by (auto simp: getAbsolutePath_def normalizePath_def isAbsolute_def split: list.splits)

lemma root_file:
  assumes "isAbsolute (user_dir e)"
  shows "isAbsolute (File (getAbsolutePath e f))"
    and "locate e (File (getAbsolutePath e f)) = locate e f"
    and "File (getAbsolutePath e f) \<noteq> []"
proof -
  have a: "isAbsolute (getAbsolutePath e f)" by (rule isAbsolute_getAbsolutePath[OF assms])
  show b: "isAbsolute (File (getAbsolutePath e f))"
    unfolding File_def by (rule isAbsolute_normalize[OF a])
  have "locate e (File (getAbsolutePath e f)) = canon_names (File (getAbsolutePath e f))"
    by (rule locate_absolute[OF b])
  also have "\<dots> = canon_names (getAbsolutePath e f)"
    unfolding File_def by (rule canon_names_normalize)
  finally show "locate e (File (getAbsolutePath e f)) = locate e f"
    by (simp add: locate_def)
  show "File (getAbsolutePath e f) \<noteq> []"
    using b by (auto simp: isAbsolute_def)
qed

lemma node_at_root_file:
  assumes "isAbsolute (user_dir e)" "node_at e fs f = Some t"
  shows "node_at e fs (File (getAbsolutePath e f)) = Some t"
  using assms(2) root_file(2,3)[OF assms(1), of f] by (auto simp: node_at_def split: if_splits)

lemma toFixed2_of_nat: "toFixed2 (of_nat k) = of_nat k"
proof -
  have "\<lfloor>(of_nat k :: rat) * 100 + 1 / 2\<rfloor> = int (k * 100)"
    by (rule floor_unique) (simp_all)
  then show ?thesis by (simp add: toFixed2_def)
qed

lemma convertSize_b: "convertSize e (of_nat k) ''b'' = of_nat k"
  by (simp add: convertSize_def toLowerCase_def ascii_lower_def toFixed2_of_nat)

lemma getStorageSize_total:
  assumes "isAbsolute (user_dir e)" "resolvePath e fm path = Inr f"
    and "node_at e fs f = Some t" "wf_node t" "height t < n"
  shows "getStorageSize n e fm fs path unit =
           Some (Some (convertSize e (of_nat (total_bytes t)) (target_unit unit)))"
proof (cases t)
  case (RegularFile a c m)
  then show ?thesis using assms
    by (simp add: getStorageSize_def exists_def isFile_def is_file_def file_length_def
        node_length_def target_unit_def)
next
  case (Directory a l m ks)
  have r: "node_at e fs (File (getAbsolutePath e f)) = Some t"
    by (rule node_at_root_file[OF assms(1,3)])
  have w: "walk n e (size_onFile e) no_visit PreOrder (File (getAbsolutePath e f)) (0, fs)
      = Some (Normal (0 + total_bytes t, fs))"
    by (rule walk_size[OF assms(4) r assms(5)])
  have tr: "traverseDirectory n e fs (getAbsolutePath e f) (size_onFile e) no_visit PreOrder 0
      = Some (Normal (total_bytes t, fs))"
    using w r by (simp add: traverseDirectory_def Let_def exists_def)
  show ?thesis using assms(2,3) Directory
    by (simp add: getStorageSize_def exists_def isFile_def is_file_def tr[unfolded Directory]
        target_unit_def)
qed

section \<open>The example tree, evaluated\<close>

lemma unix_env_absolute: "isAbsolute (user_dir unix_env)"
  by code_simp

lemma small_tree_resolve:
  "resolvePath unix_env (sandbox ''/base'') ''.'' = Inr ''/base/.''"
  "resolvePath unix_env (sandbox ''/base'') ''a.txt'' = Inr ''/base/a.txt''"
  "resolvePath unix_env (sandbox ''/base'') ''sub'' = Inr ''/base/sub''"
  "resolvePath unix_env (sandbox ''/base'') ''empty'' = Inr ''/base/empty''"
  by code_simp+

lemma small_tree_lookup:
  "node_at unix_env small_tree (''/base/.'') = Some (Directory ''base'' 4096 0
          [RegularFile ''a.txt'' ''hello!'' 5,
           Directory ''sub'' 4096 3 [RegularFile ''b.txt'' ''world!'' 7],
           Directory ''empty'' 4096 4 []])"
  "node_at unix_env small_tree (''/base/a.txt'') = Some (RegularFile ''a.txt'' ''hello!'' 5)"
  "node_at unix_env small_tree (''/base/sub'')
     = Some (Directory ''sub'' 4096 3 [RegularFile ''b.txt'' ''world!'' 7])"
  "node_at unix_env small_tree (''/base/empty'') = Some (Directory ''empty'' 4096 4 [])"
  by code_simp+

lemma small_tree_wf:
  "wf_node (Directory ''base'' 4096 0
          [RegularFile ''a.txt'' ''hello!'' 5,
           Directory ''sub'' 4096 3 [RegularFile ''b.txt'' ''world!'' 7],
           Directory ''empty'' 4096 4 []])"
  "wf_node (RegularFile ''a.txt'' ''hello!'' 5)"
  "wf_node (Directory ''sub'' 4096 3 [RegularFile ''b.txt'' ''world!'' 7])"
  "wf_node (Directory ''empty'' 4096 4 [])"
  by code_simp+

lemma small_tree_height:
  "height (Directory ''base'' 4096 0
          [RegularFile ''a.txt'' ''hello!'' 5,
           Directory ''sub'' 4096 3 [RegularFile ''b.txt'' ''world!'' 7],
           Directory ''empty'' 4096 4 []]) < 5"
  "height (RegularFile ''a.txt'' ''hello!'' 5) < 5"
  "height (Directory ''sub'' 4096 3 [RegularFile ''b.txt'' ''world!'' 7]) < 5"
  "height (Directory ''empty'' 4096 4 []) < 5"
  by code_simp+

lemma small_tree_sizes:
  "getStorageSize 5 unix_env (sandbox ''/base'') small_tree ''.'' u
     = Some (Some (convertSize unix_env 12 (target_unit u)))"
  "getStorageSize 5 unix_env (sandbox ''/base'') small_tree ''a.txt'' u
     = Some (Some (convertSize unix_env 6 (target_unit u)))"
  "getStorageSize 5 unix_env (sandbox ''/base'') small_tree ''sub'' u
     = Some (Some (convertSize unix_env 6 (target_unit u)))"
  "getStorageSize 5 unix_env (sandbox ''/base'') small_tree ''empty'' u
     = Some (Some (convertSize unix_env 0 (target_unit u)))"
  using getStorageSize_total[OF unix_env_absolute small_tree_resolve(1) small_tree_lookup(1)
      small_tree_wf(1) small_tree_height(1), of u]
    getStorageSize_total[OF unix_env_absolute small_tree_resolve(2) small_tree_lookup(2)
      small_tree_wf(2) small_tree_height(2), of u]
    getStorageSize_total[OF unix_env_absolute small_tree_resolve(3) small_tree_lookup(3)
      small_tree_wf(3) small_tree_height(3), of u]
    getStorageSize_total[OF unix_env_absolute small_tree_resolve(4) small_tree_lookup(4)
      small_tree_wf(4) small_tree_height(4), of u]
  by simp_all

lemma convertSize_examples:
  "convertSize unix_env 12 ''kb'' = 1 / 100" "convertSize unix_env 6 ''kb'' = 1 / 100" "convertSize unix_env 0 ''kb'' = 0"
  "convertSize unix_env 12 ''b'' = 12" "convertSize unix_env 6 ''b'' = 6" "convertSize unix_env 0 ''b'' = 0"
  by code_simp+

section \<open>Additivity of \<open>getStorageSize\<close>\<close>

text \<open>
  C6, as the claim states it: the size of a directory is the sum of the sizes of its
  children, in every unit. It fails for \<open>kb\<close> on a directory of 12 bytes whose children
  hold 6, 6 and 0 bytes: each result is rounded to two decimals, so the directory gives
  0.01 and its children 0.01, 0.01 and 0.
\<close>

theorem getStorageSize_not_additive_in_kb:
  "getStorageSize 5 unix_env (sandbox ''/base'') small_tree ''.'' (Some ''kb'') = Some (Some (1 / 100)) \<and>
   listFiles unix_env small_tree ''/base'' = Some [''/base/a.txt'', ''/base/sub'', ''/base/empty''] \<and>
   getStorageSize 5 unix_env (sandbox ''/base'') small_tree ''a.txt'' (Some ''kb'') = Some (Some (1 / 100)) \<and>
   getStorageSize 5 unix_env (sandbox ''/base'') small_tree ''sub'' (Some ''kb'') = Some (Some (1 / 100)) \<and>
   getStorageSize 5 unix_env (sandbox ''/base'') small_tree ''empty'' (Some ''kb'') = Some (Some 0) \<and>
   (1 / 100 :: rat) \<noteq> 1 / 100 + 1 / 100 + 0"
proof -
  have "listFiles unix_env small_tree ''/base'' = Some [''/base/a.txt'', ''/base/sub'', ''/base/empty'']"
    by code_simp
  then show ?thesis
    by (simp add: small_tree_sizes target_unit_def convertSize_examples)
qed


text \<open>
  C6, amended: in unit \<open>b\<close> the size of a directory is the sum of the sizes of its
  children; in every unit it is the conversion (with its rounding to two decimals) of
  that sum of bytes. The children are named by user paths \<open>child_path k\<close> that resolve
  to the entries of the directory, and the fuel exceeds the height of the tree.
\<close>

theorem getStorageSize_additive_in_bytes:
  assumes "isAbsolute (user_dir e)"
    and "resolvePath e fm path = Inr f"
    and "node_at e fs f = Some (Directory a l m ks)"
    and "wf_node (Directory a l m ks)"
    and "height (Directory a l m ks) < n"
    and "\<forall>k \<in> set ks. resolvePath e fm (child_path k) = Inr (child_file k) \<and>
           node_at e fs (child_file k) = Some k"
  shows "\<exists>bs. map (\<lambda>k. getStorageSize n e fm fs (child_path k) (Some ''b'')) ks
                 = map (\<lambda>b. Some (Some (of_nat b))) bs \<and>
              getStorageSize n e fm fs path (Some ''b'') = Some (Some (of_nat (sum_list bs))) \<and>
              (\<forall>u. getStorageSize n e fm fs path u
                     = Some (Some (convertSize e (of_nat (sum_list bs)) (target_unit u))))"
proof -
  have dir: "\<And>u. getStorageSize n e fm fs path u
      = Some (Some (convertSize e (of_nat (sum_list (map total_bytes ks))) (target_unit u)))"
    using getStorageSize_total[OF assms(1,2,3,4,5)] by simp
  have kid: "getStorageSize n e fm fs (child_path k) (Some ''b'') = Some (Some (of_nat (total_bytes k)))"
    if k: "k \<in> set ks" for k
  proof -
    have r: "resolvePath e fm (child_path k) = Inr (child_file k)"
      and lk: "node_at e fs (child_file k) = Some k"
      using assms(6) k by auto
    have wfk: "wf_node k" using assms(4) k by simp
    have hk: "height k < n" using height_child[OF k] assms(5) by simp
    show ?thesis
      using getStorageSize_total[OF assms(1) r lk wfk hk, of "Some ''b''"]
      by (simp add: target_unit_def convertSize_b)
  qed
  have "map (\<lambda>k. getStorageSize n e fm fs (child_path k) (Some ''b'')) ks
      = map (\<lambda>b. Some (Some (of_nat b))) (map total_bytes ks)"
    using kid by simp
  moreover have "getStorageSize n e fm fs path (Some ''b'')
      = Some (Some (of_nat (sum_list (map total_bytes ks))))"
    using dir[of "Some ''b''"] by (simp add: target_unit_def convertSize_b)
  ultimately show ?thesis using dir by blast
qed

theorem getStorageSize_additive_in_bytes_witness:
  "getStorageSize 5 unix_env (sandbox ''/base'') small_tree ''.'' (Some ''b'') = Some (Some 12) \<and>
   map (\<lambda>c. getStorageSize 5 unix_env (sandbox ''/base'') small_tree c (Some ''b''))
     [''a.txt'', ''sub'', ''empty''] = [Some (Some 6), Some (Some 6), Some (Some 0)]"
proof -
  have 6: "\<forall>k \<in> set [RegularFile ''a.txt'' ''hello!'' 5,
           Directory ''sub'' 4096 3 [RegularFile ''b.txt'' ''world!'' 7],
           Directory ''empty'' 4096 4 []].
        resolvePath unix_env (sandbox ''/base'') (name k) = Inr (File2 ''/base'' (name k)) \<and>
        node_at unix_env small_tree (File2 ''/base'' (name k)) = Some k"
    by code_simp
  from getStorageSize_additive_in_bytes[OF unix_env_absolute small_tree_resolve(1)
      small_tree_lookup(1) small_tree_wf(1) small_tree_height(1) 6]
  obtain bs where
    a: "map (\<lambda>k. getStorageSize 5 unix_env (sandbox ''/base'') small_tree (name k) (Some ''b''))
         [RegularFile ''a.txt'' ''hello!'' 5,
           Directory ''sub'' 4096 3 [RegularFile ''b.txt'' ''world!'' 7],
           Directory ''empty'' 4096 4 []] = map (\<lambda>b. Some (Some (of_nat b))) bs"
    and b: "getStorageSize 5 unix_env (sandbox ''/base'') small_tree ''.'' (Some ''b'') = Some (Some (of_nat (sum_list bs)))"
    by blast
  show ?thesis using a b
    by (simp add: small_tree_sizes target_unit_def convertSize_examples)
qed

section \<open>\<open>getMetadata\<close> on a directory\<close>

text \<open>
  C10. For an existing directory \<open>getMetadata\<close> returns a record whose size is the
  directory node's own length (\<open>File.length()\<close>), while \<open>getStorageSize\<close> in unit \<open>b\<close>
  returns the sum of the file lengths below it; the two differ unless those numbers
  happen to coincide.
\<close>

theorem getMetadata_size_of_directory:
  assumes "isAbsolute (user_dir e)"
    and "resolvePath e fm path = Inr f"
    and "node_at e fs f = Some (Directory a l m ks)"
    and "wf_node (Directory a l m ks)"
    and "height (Directory a l m ks) < n"
  shows "(\<exists>md. getMetadata e fm fs path = Some md \<and> m_size md = l \<and> m_isDirectory md) \<and>
         getStorageSize n e fm fs path (Some ''b'')
           = Some (Some (of_nat (sum_list (map total_bytes ks))))"
proof -
  have "getStorageSize n e fm fs path (Some ''b'')
      = Some (Some (of_nat (sum_list (map total_bytes ks))))"
    using getStorageSize_total[OF assms, of "Some ''b''"]
    by (simp add: target_unit_def convertSize_b)
  moreover have "\<exists>md. getMetadata e fm fs path = Some md \<and> m_size md = l \<and> m_isDirectory md"
    using assms(2,3)
    by (simp add: getMetadata_def exists_def file_length_def node_length_def Let_def
        isDirectory_def is_dir_def)
  ultimately show ?thesis by simp
qed

theorem getMetadata_size_of_directory_witness:
  "(\<exists>md. getMetadata unix_env (sandbox ''/base'') small_tree ''sub'' = Some md \<and>
         m_size md = 4096 \<and> m_isDirectory md) \<and>
   getStorageSize 5 unix_env (sandbox ''/base'') small_tree ''sub'' (Some ''b'') = Some (Some 6)"
  using getMetadata_size_of_directory[OF unix_env_absolute small_tree_resolve(3)
      small_tree_lookup(3) small_tree_wf(3) small_tree_height(3)]
  by simp

section \<open>The first line of the tree\<close>

lemma unix_env_reads: "\<forall>g. \<not> isl (FileStream_read unix_env fs g)"
  by (simp add: unix_env_def)

lemma no_patterns:
  "compile unix_env (search_regex default_options) = NoPattern"
  "compile unix_env (search_contentRegex default_options) = NoPattern"
  "compile unix_env (search_regex zzz_options) = NoPattern"
  "compile unix_env (search_contentRegex zzz_options) = NoPattern"
  by (simp_all add: compile_def truthy_def default_options_def zzz_options_def)

lemma filter_items_subset: "filter_items keep xs = Inr ys \<Longrightarrow> set ys \<subseteq> set xs"
proof (induction xs arbitrary: ys)
  case Nil then show ?case by simp
next
  case (Cons x xs)
  then show ?case by (auto split: sum.splits if_splits)
qed

lemma level_items_subset:
  assumes "level_items e fs opts r1 r2 d = Inr ys" "node_at e fs d = Some (Directory a l m ks)"
  shows "set ys \<subseteq> (\<lambda>k. File2 d (name k)) ` set ks"
  using assms filter_items_subset[of "passes e fs opts r1 r2" "map (\<lambda>k. File2 d (name k)) ks"]
  by (auto simp: level_items_def listFiles_def set_sort_by_comparator split: sum.splits)

lemma render_items_returns:
  assumes "\<And>item. item \<in> set items \<Longrightarrow> isDirectory e fs item \<Longrightarrow> \<exists>r. rec item (depth + 1) = Some r"
  shows "\<exists>r. render_items rec e fm fs opts depth len i items = Some r"
  using assms
proof (induction items arbitrary: i)
  case Nil then show ?case by simp
next
  case (Cons item items)
  obtain r where later: "render_items rec e fm fs opts depth len (Suc i) items = Some r"
    using Cons.IH[of "Suc i"] Cons.prems by auto
  show ?case
  proof (cases "isDirectory e fs item")
    case True
    then obtain r' where "rec item (depth + 1) = Some r'"
      using Cons.prems[of item] by auto
    then show ?thesis using True later by (cases r'; cases r) (simp_all add: Let_def)
  next
    case False
    then show ?thesis using later by (cases r) (simp_all add: Let_def)
  qed
qed

lemma traverse_returns:
  assumes "node_at e fs d = Some t" "is_dir (Some t)" "wf_node t" "height t < n"
  shows "\<exists>r. traverse n e fm fs opts r1 r2 d depth = Some r"
  using assms
proof (induction n arbitrary: d t depth)
  case 0 then show ?case by simp
next
  case (Suc n)
  obtain a l m ks where t: "t = Directory a l m ks"
    using Suc.prems(2) by (cases t) (auto simp: is_dir_def)
  show ?case
  proof (cases "level_items e fs opts r1 r2 d")
    case (Inl x) then show ?thesis by simp
  next
    case (Inr ys)
    have sub: "set ys \<subseteq> (\<lambda>k. File2 d (name k)) ` set ks"
      by (rule level_items_subset[OF Inr Suc.prems(1)[unfolded t]])
    have rec: "\<exists>r. traverse n e fm fs opts r1 r2 item (depth + 1) = Some r"
      if item: "item \<in> set ys" and isd: "isDirectory e fs item" for item
    proof -
      obtain k where k: "k \<in> set ks" "item = File2 d (name k)" using item sub by auto
      have wfk: "wf_node k" "valid_name (name k)" "distinct (map name ks)"
        using Suc.prems(3) k t by auto
      have nk: "node_at e fs item = Some k"
        unfolding k(2) using Suc.prems(1)[unfolded t] wfk(3) k(1) wfk(2) by (rule node_at_child)
      have dk: "is_dir (Some k)" using isd nk by (simp add: isDirectory_def)
      have hk: "height k < n" using height_child[OF k(1)] Suc.prems(4) t by simp
      show ?thesis by (rule Suc.IH[OF nk dk wfk(1) hk])
    qed
    show ?thesis
      using render_items_returns[of ys e fs "traverse n e fm fs opts r1 r2" depth fm opts "length ys" 0, OF rec]
      by (simp add: Inr)
  qed
qed

lemma render_items_nothing:
  assumes "\<not> showEmptyFolders opts"
    and "\<And>item. item \<in> set items \<Longrightarrow> isDirectory e fs item \<and> rec item (depth + 1) = Some (Inr [])"
  shows "render_items rec e fm fs opts depth len i items = Some (Inr [])"
  using assms(2)
proof (induction items arbitrary: i)
  case Nil then show ?case by simp
next
  case (Cons item items)
  have "render_items rec e fm fs opts depth len (Suc i) items = Some (Inr [])"
    using Cons.IH[of "Suc i"] Cons.prems by auto
  then show ?case using Cons.prems[of item] assms(1) by (simp add: Let_def)
qed

lemma passes_directory: "isDirectory e fs item \<Longrightarrow> passes e fs opts r1 r2 item = Inr True"
  by (simp add: passes_def)

lemma filter_items_split:
  assumes "\<And>x. x \<in> set xs \<Longrightarrow> keep x = Inr (P x)"
  shows "filter_items keep xs = Inr (filter P xs)"
  using assms by (induction xs) auto

lemma files_below_child:
  "k \<in> set ks \<Longrightarrow> g \<in> set (files_below (File2 f (name k)) k) \<Longrightarrow>
   g \<in> set (files_below f (Directory a l m ks))"
  by auto

lemma traverse_nothing:
  assumes "\<not> showEmptyFolders opts"
    and "node_at e fs d = Some t" "is_dir (Some t)" "wf_node t" "height t < n"
    and "\<forall>g \<in> set (files_below d t). passes e fs opts r1 r2 g = Inr False"
  shows "traverse n e fm fs opts r1 r2 d depth = Some (Inr [])"
  using assms(2-)
proof (induction n arbitrary: d t depth)
  case 0 then show ?case by simp
next
  case (Suc n)
  obtain a l m ks where t: "t = Directory a l m ks"
    using Suc.prems(2) by (cases t) (auto simp: is_dir_def)
  note at = Suc.prems(1)[unfolded t]
  have wfk: "\<And>k. k \<in> set ks \<Longrightarrow> wf_node k \<and> valid_name (name k)" and dist: "distinct (map name ks)"
    using Suc.prems(3) t by auto
  have child: "node_at e fs (File2 d (name k)) = Some k" if "k \<in> set ks" for k
    using at dist that wfk[OF that] by (intro node_at_child) auto
  have keep: "passes e fs opts r1 r2 x = Inr (isDirectory e fs x)"
    if x: "x \<in> set (map (\<lambda>k. File2 d (name k)) ks)" for x
  proof -
    obtain k where k: "k \<in> set ks" "x = File2 d (name k)" using x by auto
    show ?thesis
    proof (cases k)
      case (RegularFile n' c m')
      then have "x \<in> set (files_below (File2 d (name k)) k)" using k by simp
      then have "x \<in> set (files_below d t)" unfolding t by (rule files_below_child[OF k(1)])
      moreover have "\<not> isDirectory e fs x"
        using child[OF k(1)] k(2) RegularFile by (simp add: isDirectory_def is_dir_def)
      ultimately show ?thesis using Suc.prems(5) by simp
    next
      case (Directory n' l' m' ks')
      then have "isDirectory e fs x"
        using child[OF k(1)] k(2) by (simp add: isDirectory_def is_dir_def)
      then show ?thesis by (simp add: passes_directory)
    qed
  qed
  let ?dirs = "filter (isDirectory e fs) (map (\<lambda>k. File2 d (name k)) ks)"
  have "filter_items (passes e fs opts r1 r2) (map (\<lambda>k. File2 d (name k)) ks) = Inr ?dirs"
    by (rule filter_items_split) (rule keep)
  then obtain ys where ys: "level_items e fs opts r1 r2 d = Inr ys" and set_ys: "set ys = set ?dirs"
    using at by (simp add: level_items_def listFiles_def set_sort_by_comparator)
  have rec: "isDirectory e fs item \<and> traverse n e fm fs opts r1 r2 item (depth + 1) = Some (Inr [])"
    if item: "item \<in> set ys" for item
  proof -
    obtain k where k: "k \<in> set ks" "item = File2 d (name k)" and isd: "isDirectory e fs item"
      using item set_ys by auto
    have nk: "node_at e fs item = Some k" using child[OF k(1)] k(2) by simp
    have dk: "is_dir (Some k)" using isd nk by (simp add: isDirectory_def)
    have hk: "height k < n" using height_child[OF k(1)] Suc.prems(4) t by simp
    have none: "\<forall>g \<in> set (files_below item k). passes e fs opts r1 r2 g = Inr False"
      using Suc.prems(5) files_below_child[OF k(1), of _ d a l m] unfolding t k(2) by blast
    show ?thesis using isd Suc.IH[OF nk dk _ hk none] wfk[OF k(1)] by simp
  qed
  show ?case
    using render_items_nothing[OF assms(1), of ys e fs "traverse n e fm fs opts r1 r2" depth fm "length ys" 0] rec
    by (simp add: ys)
qed

lemma traverse_no_entries:
  assumes "node_at e fs d = Some (Directory a l m ks)" "wf_node (Directory a l m ks)"
    and "\<forall>k \<in> set ks. \<not> is_dir (Some k)"
    and "\<forall>g \<in> set (files_below d (Directory a l m ks)). passes e fs opts r1 r2 g = Inr False"
  shows "traverse (Suc n) e fm fs opts r1 r2 d depth = Some (Inr [])"
proof -
  have "passes e fs opts r1 r2 (File2 d (name k)) = Inr False" if k: "k \<in> set ks" for k
  proof -
    obtain n' c m' where "k = RegularFile n' c m'"
      using assms(3) k by (cases k) (auto simp: is_dir_def)
    then have "File2 d (name k) \<in> set (files_below (File2 d (name k)) k)" by simp
    then have "File2 d (name k) \<in> set (files_below d (Directory a l m ks))"
      by (rule files_below_child[OF k])
    then show ?thesis using assms(4) by blast
  qed
  then have "level_items e fs opts r1 r2 d = Inr []"
    using level_items_none[OF assms(1)] by blast
  then show ?thesis by simp
qed

lemma dot_tree:
  "getDirectoryTree 5 unix_env (sandbox ''/base'') small_tree ''.'' default_options
     = Some (Some (''./'' @ newline # tee @ '' sub/'' @ newline # bar @ ''  '' @ corner @ '' b.txt'' @
                   newline # corner @ '' a.txt''))"
  by code_simp

lemma shown_tree:
  "getDirectoryTree 5 unix_env (sandbox ''/base'') small_tree ''/base'' shown_options
     = Some (Some (''base/'' @ newline # tee @ '' empty/'' @ newline # corner @ '' sub/''))"
  by code_simp

lemma small_tree_none_passes:
  "\<forall>g \<in> set (files_below ''/base'' (Directory ''base'' 4096 0
          [RegularFile ''a.txt'' ''hello!'' 5,
           Directory ''sub'' 4096 3 [RegularFile ''b.txt'' ''world!'' 7],
           Directory ''empty'' 4096 4 []])).
      passes unix_env small_tree zzz_options NoPattern NoPattern g = Inr False"
  "\<forall>g \<in> set (files_below ''/base'' (Directory ''base'' 4096 0
          [RegularFile ''a.txt'' ''hello!'' 5,
           Directory ''sub'' 4096 3 [RegularFile ''b.txt'' ''world!'' 7],
           Directory ''empty'' 4096 4 []])).
      passes unix_env small_tree shown_options NoPattern NoPattern g = Inr False"
  by code_simp+

text \<open>
  C9, as the claim states it: the first line of the tree is the root directory's own
  name followed by \<open>/\<close>, and the tree is that line alone when no descendant passes the
  filters, whatever \<open>showEmptyFolders\<close> is. The source prints \<open>file.getName()\<close>, the
  last name of the path as it was given: for the path \<open>.\<close> in the sandbox \<open>/base\<close> the
  first line is \<open>./\<close>, while the directory is \<open>base\<close>. And with \<open>showEmptyFolders\<close> on,
  the directories are printed although no file below \<open>/base\<close> passes the name filter.
\<close>

theorem getDirectoryTree_root_line_fails:
  "node_at unix_env small_tree ''/base'' = node_at unix_env small_tree ''/base/.'' \<and>
   getName ''/base'' = ''base'' \<and>
   getDirectoryTree 5 unix_env (sandbox ''/base'') small_tree ''.'' default_options
     = Some (Some (''./'' @ newline # tee @ '' sub/'' @ newline # bar @ ''  '' @ corner @ '' b.txt'' @
                   newline # corner @ '' a.txt'')) \<and>
   files_below ''/base'' (Directory ''base'' 4096 0
          [RegularFile ''a.txt'' ''hello!'' 5,
           Directory ''sub'' 4096 3 [RegularFile ''b.txt'' ''world!'' 7],
           Directory ''empty'' 4096 4 []]) = [''/base/a.txt'', ''/base/sub/b.txt''] \<and>
   passes unix_env small_tree shown_options NoPattern NoPattern ''/base/a.txt'' = Inr False \<and>
   passes unix_env small_tree shown_options NoPattern NoPattern ''/base/sub/b.txt'' = Inr False \<and>
   getDirectoryTree 5 unix_env (sandbox ''/base'') small_tree ''/base'' shown_options
     = Some (Some (''base/'' @ newline # tee @ '' empty/'' @ newline # corner @ '' sub/''))"
proof -
  have a: "node_at unix_env small_tree ''/base'' = node_at unix_env small_tree ''/base/.''"
    by code_simp
  have b: "getName ''/base'' = ''base''" by code_simp
  have f: "files_below ''/base'' (Directory ''base'' 4096 0
          [RegularFile ''a.txt'' ''hello!'' 5,
           Directory ''sub'' 4096 3 [RegularFile ''b.txt'' ''world!'' 7],
           Directory ''empty'' 4096 4 []]) = [''/base/a.txt'', ''/base/sub/b.txt'']"
    by code_simp
  have p: "passes unix_env small_tree shown_options NoPattern NoPattern ''/base/a.txt'' = Inr False"
    "passes unix_env small_tree shown_options NoPattern NoPattern ''/base/sub/b.txt'' = Inr False"
    by code_simp+
  show ?thesis using a b f p dot_tree shown_tree by simp
qed

text \<open>
  C9, amended. For an existing directory, options whose patterns compile and enough
  fuel, \<open>getDirectoryTree\<close> returns \<open>null\<close> or a string, and a string when the reads of
  the content filter return. Every string it returns begins with a first line that is
  \<open>File.getName()\<close> of the resolved path followed by \<open>/\<close>, whatever
  \<open>showEmptyFolders\<close> is; that name is the directory's own name whenever it is a proper
  entry name (not \<open>.\<close> or \<open>..\<close>). When no regular file below the directory passes the
  filters, the string is that line alone, provided \<open>showEmptyFolders\<close> is off or the
  directory holds no directory.
\<close>

theorem getDirectoryTree_root_line:
  assumes "resolvePath e fm path = Inr file"
    and "node_at e fs file = Some (Directory a l m ks)"
    and "wf_node (Directory a l m ks)" and "height (Directory a l m ks) < n"
    and "compile e (search_regex opts) \<noteq> BadPattern"
    and "compile e (search_contentRegex opts) \<noteq> BadPattern"
  shows "(\<exists>r. getDirectoryTree n e fm fs path opts = Some r) \<and>
     ((\<forall>g. \<not> isl (FileStream_read e fs g)) \<longrightarrow>
        (\<exists>out. getDirectoryTree n e fm fs path opts = Some (Some out))) \<and>
     (\<forall>out. getDirectoryTree n e fm fs path opts = Some (Some out) \<longrightarrow>
        (\<exists>rest. out = getName file @ ''/'' @ rest \<and> (rest = [] \<or> (\<exists>later. rest = newline # later)))) \<and>
     ((\<forall>g \<in> set (files_below file (Directory a l m ks)).
          passes e fs opts (compile e (search_regex opts)) (compile e (search_contentRegex opts)) g
            = Inr False) \<and>
      (\<not> showEmptyFolders opts \<or> (\<forall>k \<in> set ks. \<not> is_dir (Some k))) \<longrightarrow>
        getDirectoryTree n e fm fs path opts = Some (Some (getName file @ ''/''))) \<and>
     (valid_name (getName file) \<longrightarrow> getName file = a)"
proof -
  let ?r1 = "compile e (search_regex opts)" and ?r2 = "compile e (search_contentRegex opts)"
  let ?t = "Directory a l m ks"
  have isd: "is_dir (Some ?t)" by (simp add: is_dir_def)
  obtain r where r: "traverse n e fm fs opts ?r1 ?r2 file 1 = Some r"
    using traverse_returns[OF assms(2) isd assms(3,4)] by blast
  have res: "getDirectoryTree n e fm fs path opts
      = (case r of Inl x \<Rightarrow> Some None
         | Inr treeLines \<Rightarrow> Some (Some (join_lines ((getName file @ ''/'') # treeLines))))"
    using assms(1,2,5,6) r
    by (cases ?r1; cases ?r2)
       (simp_all add: getDirectoryTree_def exists_def isDirectory_def is_dir_def)
  have 1: "\<exists>r. getDirectoryTree n e fm fs path opts = Some r"
    using res by (cases r) simp_all
  have 2: "(\<forall>g. \<not> isl (FileStream_read e fs g)) \<longrightarrow>
        (\<exists>out. getDirectoryTree n e fm fs path opts = Some (Some out))"
  proof
    assume "\<forall>g. \<not> isl (FileStream_read e fs g)"
    then have rd: "\<And>g. \<not> isl (FileStream_read e fs g)" by simp
    from traverse_total[OF rd assms(2) isd assms(3,4), of fm opts ?r1 ?r2 1] r
    obtain ls where "r = Inr ls" by auto
    then show "\<exists>out. getDirectoryTree n e fm fs path opts = Some (Some out)" using res by simp
  qed
  have 3: "\<forall>out. getDirectoryTree n e fm fs path opts = Some (Some out) \<longrightarrow>
        (\<exists>rest. out = getName file @ ''/'' @ rest \<and> (rest = [] \<or> (\<exists>later. rest = newline # later)))"
  proof (intro allI impI)
    fix out assume out: "getDirectoryTree n e fm fs path opts = Some (Some out)"
    then obtain ls where ls: "r = Inr ls" "out = join_lines ((getName file @ ''/'') # ls)"
      using res by (cases r) auto
    let ?rest = "if ls = [] then [] else newline # join_lines ls"
    have "out = getName file @ ''/'' @ ?rest" using ls(2) by (simp add: join_lines_Cons)
    moreover have "?rest = [] \<or> (\<exists>later. ?rest = newline # later)" by simp
    ultimately show "\<exists>rest. out = getName file @ ''/'' @ rest \<and>
        (rest = [] \<or> (\<exists>later. rest = newline # later))" by blast
  qed
  have 4: "(\<forall>g \<in> set (files_below file ?t). passes e fs opts ?r1 ?r2 g = Inr False) \<and>
      (\<not> showEmptyFolders opts \<or> (\<forall>k \<in> set ks. \<not> is_dir (Some k))) \<longrightarrow>
        getDirectoryTree n e fm fs path opts = Some (Some (getName file @ ''/''))"
  proof
    assume h: "(\<forall>g \<in> set (files_below file ?t). passes e fs opts ?r1 ?r2 g = Inr False) \<and>
      (\<not> showEmptyFolders opts \<or> (\<forall>k \<in> set ks. \<not> is_dir (Some k)))"
    then have none: "\<forall>g \<in> set (files_below file ?t). passes e fs opts ?r1 ?r2 g = Inr False"
      by simp
    obtain n' where n': "n = Suc n'" using assms(4) by (cases n) auto
    have "traverse n e fm fs opts ?r1 ?r2 file 1 = Some (Inr [])"
    proof (cases "showEmptyFolders opts")
      case False
      show ?thesis by (rule traverse_nothing[OF False assms(2) isd assms(3,4) none])
    next
      case True
      then have "\<forall>k \<in> set ks. \<not> is_dir (Some k)" using h by simp
      then show ?thesis unfolding n' by (rule traverse_no_entries[OF assms(2,3) _ none])
    qed
    then have "r = Inr []" using r by simp
    then show "getDirectoryTree n e fm fs path opts = Some (Some (getName file @ ''/''))"
      using res by (simp add: join_lines_def)
  qed
  have 5: "valid_name (getName file) \<longrightarrow> getName file = a"
    using node_at_name[OF assms(2)] by auto
  show ?thesis using 1 2 3 4 5 by blast
qed

theorem getDirectoryTree_root_line_witness:
  "getDirectoryTree 5 unix_env (sandbox ''/base'') small_tree ''/base'' zzz_options
     = Some (Some ''base/'')"
proof -
  have p: "compile unix_env (search_regex zzz_options) \<noteq> BadPattern"
    "compile unix_env (search_contentRegex zzz_options) \<noteq> BadPattern"
    by (simp_all add: no_patterns)
  have r: "resolvePath unix_env (sandbox ''/base'') ''/base'' = Inr ''/base''" by code_simp
  have nm: "getName ''/base'' = ''base''" by code_simp
  have off: "\<not> showEmptyFolders zzz_options" by (simp add: zzz_options_def default_options_def)
  have at: "node_at unix_env small_tree ''/base'' = Some (Directory ''base'' 4096 0
          [RegularFile ''a.txt'' ''hello!'' 5,
           Directory ''sub'' 4096 3 [RegularFile ''b.txt'' ''world!'' 7],
           Directory ''empty'' 4096 4 []])"
    by code_simp
  from getDirectoryTree_root_line[OF r at small_tree_wf(1) small_tree_height(1) p]
  show ?thesis using small_tree_none_passes(1) off by (simp add: no_patterns nm)
qed

section \<open>The order of a directory level\<close>

lemma insert_by_sorted:
  assumes tr: "\<And>x y z. x \<in> S \<Longrightarrow> y \<in> S \<Longrightarrow> z \<in> S \<Longrightarrow> c x y \<le> 0 \<Longrightarrow> c y z \<le> 0 \<Longrightarrow> c x z \<le> 0"
    and as: "\<And>x y. x \<in> S \<Longrightarrow> y \<in> S \<Longrightarrow> 0 < c x y \<Longrightarrow> c y x \<le> 0"
    and "sorted_wrt (\<lambda>x y. c x y \<le> 0) ys" and "x \<in> S" and "set ys \<subseteq> S"
  shows "sorted_wrt (\<lambda>x y. c x y \<le> 0) (insert_by c x ys)"
  using assms(3,5)
proof (induction ys)
  case Nil then show ?case by simp
next
  case (Cons y ys)
  have mem: "y \<in> S" "set ys \<subseteq> S" using Cons.prems(2) by auto
  show ?case
  proof (cases "c x y \<le> 0")
    case True
    have "c x z \<le> 0" if "z \<in> set ys" for z
    proof -
      have "c y z \<le> 0" using Cons.prems(1) that by simp
      moreover have "z \<in> S" using mem(2) that by auto
      ultimately show ?thesis using tr[OF assms(4) mem(1) _ True] by blast
    qed
    then show ?thesis using True Cons.prems by simp
  next
    case False
    then have "c y x \<le> 0" using as[OF assms(4) mem(1)] by simp
    moreover have "sorted_wrt (\<lambda>x y. c x y \<le> 0) (insert_by c x ys)"
      using Cons mem by simp
    ultimately show ?thesis using False Cons.prems by (auto simp: set_insert_by)
  qed
qed

lemma sort_by_comparator_sorted:
  assumes "\<And>x y z. x \<in> S \<Longrightarrow> y \<in> S \<Longrightarrow> z \<in> S \<Longrightarrow> c x y \<le> 0 \<Longrightarrow> c y z \<le> 0 \<Longrightarrow> c x z \<le> 0"
    and "\<And>x y. x \<in> S \<Longrightarrow> y \<in> S \<Longrightarrow> 0 < c x y \<Longrightarrow> c y x \<le> 0"
    and "set xs \<subseteq> S"
  shows "sorted_wrt (\<lambda>x y. c x y \<le> 0) (sort_by_comparator c xs)"
  using assms(3)
proof (induction xs)
  case Nil then show ?case by (simp add: sort_by_comparator_def)
next
  case (Cons x xs)
  have ih: "sorted_wrt (\<lambda>x y. c x y \<le> 0) (sort_by_comparator c xs)"
    using Cons by simp
  have x: "x \<in> S" and sub: "set (sort_by_comparator c xs) \<subseteq> S"
    using Cons.prems by (simp_all add: set_sort_by_comparator)
  have "sorted_wrt (\<lambda>x y. c x y \<le> 0) (insert_by c x (sort_by_comparator c xs))"
    by (rule insert_by_sorted[of S c, OF assms(1) assms(2) ih x sub])
  then show ?case by (simp add: sort_by_comparator_def)
qed

lemma consistentD:
  assumes "consistent c"
  shows "c x y \<le> 0 \<Longrightarrow> c y z \<le> 0 \<Longrightarrow> c x z \<le> 0"
    and "0 \<le> c x y \<Longrightarrow> 0 \<le> c y z \<Longrightarrow> 0 \<le> c x z"
    and "0 < c x y \<Longrightarrow> c y x < 0"
    and "c x y < 0 \<Longrightarrow> 0 < c y x"
proof -
  have s: "sgn (c x y) = - sgn (c y x)" for x y
    using assms unfolding consistent_def by blast
  have t: "c x y \<le> 0 \<Longrightarrow> c y z \<le> 0 \<Longrightarrow> c x z \<le> 0" for x y z
    using assms unfolding consistent_def by blast
  have flip: "0 \<le> c x y \<longleftrightarrow> c y x \<le> 0" for x y
    using s[of x y] by (auto simp: sgn_if split: if_splits)
  show "c x y \<le> 0 \<Longrightarrow> c y z \<le> 0 \<Longrightarrow> c x z \<le> 0" by (rule t)
  show "0 \<le> c x y \<Longrightarrow> 0 \<le> c y z \<Longrightarrow> 0 \<le> c x z"
    using t[of z y x] flip by blast
  show "0 < c x y \<Longrightarrow> c y x < 0"
    using s[of x y] by (auto simp: sgn_if split: if_splits)
  show "c x y < 0 \<Longrightarrow> 0 < c y x"
    using s[of x y] by (auto simp: sgn_if split: if_splits)
qed




lemma compare_items_alt:
  "compare_items e fs by ord a b =
     (if isDirectory e fs a \<and> \<not> isDirectory e fs b then - 1
      else if \<not> isDirectory e fs a \<and> isDirectory e fs b then 1
      else if ord = ''desc'' then - key_compare e fs by a b else key_compare e fs by a b)"
  by (simp add: compare_items_def key_compare_def Let_def)

lemma key_compare_file_or_dir:
  assumes "consistent (localeCompare e)"
    and "isDirectory e fs x = isDirectory e fs y" "isDirectory e fs y = isDirectory e fs z"
    and "isDirectory e fs x \<or> isFile e fs x" "isDirectory e fs y \<or> isFile e fs y"
      "isDirectory e fs z \<or> isFile e fs z"
  shows "key_compare e fs by x y \<le> 0 \<Longrightarrow> key_compare e fs by y z \<le> 0 \<Longrightarrow> key_compare e fs by x z \<le> 0"
    and "0 \<le> key_compare e fs by x y \<Longrightarrow> 0 \<le> key_compare e fs by y z \<Longrightarrow> 0 \<le> key_compare e fs by x z"
    and "0 < key_compare e fs by x y \<Longrightarrow> key_compare e fs by y x < 0"
    and "key_compare e fs by x y < 0 \<Longrightarrow> 0 < key_compare e fs by y x"
proof -
  note c = consistentD[OF assms(1)]
  have fd: "\<not> (isDirectory e fs w \<and> isFile e fs w)" for w
    by (auto simp: isDirectory_def isFile_def is_dir_def is_file_def split: option.splits node.splits)
  show "key_compare e fs by x y \<le> 0 \<Longrightarrow> key_compare e fs by y z \<le> 0 \<Longrightarrow> key_compare e fs by x z \<le> 0"
    using assms(2-) fd c(1)[of "getName x" "getName y" "getName z"]
    by (auto simp: key_compare_def split: if_splits)
  show "0 \<le> key_compare e fs by x y \<Longrightarrow> 0 \<le> key_compare e fs by y z \<Longrightarrow> 0 \<le> key_compare e fs by x z"
    using assms(2-) fd c(2)[of "getName x" "getName y" "getName z"]
    by (auto simp: key_compare_def split: if_splits)
  show "0 < key_compare e fs by x y \<Longrightarrow> key_compare e fs by y x < 0"
    using assms(2-) fd c(3)[of "getName x" "getName y"]
    by (auto simp: key_compare_def split: if_splits)
  show "key_compare e fs by x y < 0 \<Longrightarrow> 0 < key_compare e fs by y x"
    using assms(2-) fd c(4)[of "getName x" "getName y"]
    by (auto simp: key_compare_def split: if_splits)
qed


lemma compare_items_consistent:
  assumes "consistent (localeCompare e)"
    and "isDirectory e fs x \<or> isFile e fs x" "isDirectory e fs y \<or> isFile e fs y"
      "isDirectory e fs z \<or> isFile e fs z"
  shows "compare_items e fs by ord x y \<le> 0 \<Longrightarrow> compare_items e fs by ord y z \<le> 0
           \<Longrightarrow> compare_items e fs by ord x z \<le> 0"
    and "0 < compare_items e fs by ord x y \<Longrightarrow> compare_items e fs by ord y x \<le> 0"
proof -
  show "compare_items e fs by ord x y \<le> 0 \<Longrightarrow> compare_items e fs by ord y z \<le> 0
           \<Longrightarrow> compare_items e fs by ord x z \<le> 0"
  proof -
    assume xy: "compare_items e fs by ord x y \<le> 0" and yz: "compare_items e fs by ord y z \<le> 0"
    show ?thesis
    proof (cases "isDirectory e fs x = isDirectory e fs y \<and> isDirectory e fs y = isDirectory e fs z")
      case True
      then have k: "isDirectory e fs x = isDirectory e fs y" "isDirectory e fs y = isDirectory e fs z"
        by simp_all
      note kc = key_compare_file_or_dir[OF assms(1) k assms(2,3,4), of "by"]
      show ?thesis
      proof (cases "ord = ''desc''")
        case True
        then show ?thesis using xy yz k kc(2) by (simp add: compare_items_alt)
      next
        case False
        then show ?thesis using xy yz k kc(1) by (simp add: compare_items_alt)
      qed
    next
      case False
      then show ?thesis using xy yz
        by (cases "isDirectory e fs x"; cases "isDirectory e fs y"; cases "isDirectory e fs z")
          (simp_all add: compare_items_alt)
    qed
  qed
  show "0 < compare_items e fs by ord x y \<Longrightarrow> compare_items e fs by ord y x \<le> 0"
  proof -
    assume xy: "0 < compare_items e fs by ord x y"
    show ?thesis
    proof (cases "isDirectory e fs x = isDirectory e fs y")
      case True
      note kc = key_compare_file_or_dir[OF assms(1) True True[symmetric] assms(2,3,2), of "by"]
      show ?thesis
      proof (cases "ord = ''desc''")
        case True
        then show ?thesis using xy \<open>isDirectory e fs x = isDirectory e fs y\<close> kc(4)
          by (simp add: compare_items_alt)
      next
        case False
        then show ?thesis using xy \<open>isDirectory e fs x = isDirectory e fs y\<close> kc(3)
          by (simp add: compare_items_alt)
      qed
    next
      case False
      then show ?thesis using xy
        by (cases "isDirectory e fs x"; cases "isDirectory e fs y") (simp_all add: compare_items_alt)
    qed
  qed
qed


lemma child_file_or_dir:
  assumes "node_at e fs d = Some (Directory a l m ks)" "distinct (map name ks)"
    and "\<forall>k \<in> set ks. valid_name (name k)" "k \<in> set ks"
  shows "isDirectory e fs (File2 d (name k)) \<or> isFile e fs (File2 d (name k))"
proof -
  have "node_at e fs (File2 d (name k)) = Some k"
    using assms by (intro node_at_child) auto
  then show ?thesis
    by (cases k) (simp_all add: isDirectory_def isFile_def is_dir_def is_file_def)
qed

lemma level_items_sorted:
  assumes "consistent (localeCompare e)"
    and "node_at e fs d = Some (Directory a l m ks)"
    and "distinct (map name ks)" and "\<forall>k \<in> set ks. valid_name (name k)"
    and "\<forall>g. \<not> isl (FileStream_read e fs g)"
  shows "\<exists>ys. level_items e fs opts r1 r2 d = Inr ys \<and>
           sorted_wrt (\<lambda>x y. compare_items e fs (or_default (sort_by opts) ''name'')
                          (or_default (sort_order opts) ''asc'') x y \<le> 0) ys"
proof -
  let ?c = "compare_items e fs (or_default (sort_by opts) ''name'') (or_default (sort_order opts) ''asc'')"
  let ?S = "{x. isDirectory e fs x \<or> isFile e fs x}"
  let ?items = "map (\<lambda>k. File2 d (name k)) ks"
  let ?fl = "filter (\<lambda>x. passes e fs opts r1 r2 x = Inr True) ?items"
  have rd: "\<And>g. \<not> isl (FileStream_read e fs g)" using assms(5) by simp
  have "filter_items (passes e fs opts r1 r2) ?items = Inr ?fl"
    by (rule filter_items_total) (rule passes_total[OF rd])
  then have res: "level_items e fs opts r1 r2 d = Inr (sort_by_comparator ?c ?fl)"
    using assms(2) by (simp add: level_items_def listFiles_def)
  have sub: "set ?fl \<subseteq> ?S"
    using child_file_or_dir[OF assms(2,3,4)] by auto
  have "sorted_wrt (\<lambda>x y. ?c x y \<le> 0) (sort_by_comparator ?c ?fl)"
  proof (rule sort_by_comparator_sorted[where S = ?S])
    show "?c x y \<le> 0 \<Longrightarrow> ?c y z \<le> 0 \<Longrightarrow> ?c x z \<le> 0" if "x \<in> ?S" "y \<in> ?S" "z \<in> ?S" for x y z
      using compare_items_consistent(1)[OF assms(1), of fs x y z] that by simp
    show "0 < ?c x y \<Longrightarrow> ?c y x \<le> 0" if "x \<in> ?S" "y \<in> ?S" for x y
      using compare_items_consistent(2)[OF assms(1), of fs x y y] that by simp
    show "set ?fl \<subseteq> ?S" by (rule sub)
  qed
  then show ?thesis using res by simp
qed

lemma compare_strings_sgn: "sgn (compare_strings x y) = - sgn (compare_strings y x)"
proof (induction x y rule: compare_strings.induct)
  case (4 x xs y ys)
  show ?case
  proof (cases "(of_char x :: nat) < of_char y")
    case True
    then show ?thesis by simp
  next
    case False
    note nlt = False
    show ?thesis
    proof (cases "(of_char y :: nat) < of_char x")
      case True
      then show ?thesis using nlt by simp
    next
      case False
      then show ?thesis using nlt 4 by simp
    qed
  qed
qed simp_all


lemma compare_strings_trans:
  "compare_strings x y \<le> 0 \<Longrightarrow> compare_strings y z \<le> 0 \<Longrightarrow> compare_strings x z \<le> 0"
proof (induction x y arbitrary: z rule: compare_strings.induct)
  case 1 then show ?case by simp
next
  case (2 y ys) then show ?case by (cases z) simp_all
next
  case (3 x xs) then show ?case by simp
next
  case (4 x xs y ys)
  show ?case
  proof (cases z)
    case Nil
    then show ?thesis using "4.prems"(2) by simp
  next
    case (Cons c cs)
    let ?x = "of_char x :: nat" and ?y = "of_char y :: nat" and ?c = "of_char c :: nat"
    have xy: "?x \<le> ?y" using "4.prems"(1) by (simp split: if_splits)
    have yc: "?y \<le> ?c" using "4.prems"(2) Cons by (simp split: if_splits)
    show ?thesis
    proof (cases "?x < ?c")
      case True
      then show ?thesis using Cons by simp
    next
      case False
      have "?x = ?y" "?y = ?c" using False xy yc by linarith+
      then have eq: "x = y" "y = c" by simp_all
      have a: "compare_strings xs ys \<le> 0" using "4.prems"(1) eq by simp
      have b: "compare_strings ys cs \<le> 0" using "4.prems"(2) eq Cons by simp
      have "compare_strings xs cs \<le> 0"
        using "4.IH"[OF _ _ a b] eq by simp
      then show ?thesis using eq Cons by simp
    qed
  qed
qed

lemma compare_strings_consistent: "consistent compare_strings"
  unfolding consistent_def using compare_strings_sgn compare_strings_trans by blast

lemma unix_env_consistent: "consistent (localeCompare unix_env)"
  by (simp add: unix_env_def compare_strings_consistent)


lemma subseq_subset: "subseq xs ys \<Longrightarrow> set xs \<subseteq> set ys"
  using list_emb_set[of "(=)" xs ys] by auto

lemma sorted_wrt_subseq: "subseq xs ys \<Longrightarrow> sorted_wrt P ys \<Longrightarrow> sorted_wrt P xs"
proof (induction rule: list_emb.induct)
  case (list_emb_Nil ys) then show ?case by simp
next
  case (list_emb_Cons xs ys y) then show ?case by simp
next
  case (list_emb_Cons2 x y xs ys)
  then have "set xs \<subseteq> set ys" using subseq_subset by blast
  then show ?case using list_emb_Cons2 by auto
qed

lemma render_items_listing:
  assumes "\<And>it. it \<in> set items \<Longrightarrow> isDirectory e fs it \<Longrightarrow>
      \<exists>bs. rec it (depth + 1) = Some (Inr (concat (map lines_of bs))) \<and>
           level_ok e fs opts r1 r2 it (map entry_item bs) \<and>
           (\<forall>b \<in> set bs. entry_ok e fm fs opts r1 r2 (depth + 1) b)"
  shows "\<exists>es. render_items rec e fm fs opts depth len i items = Some (Inr (concat (map lines_of es))) \<and>
           subseq (map entry_item es) items \<and>
           (\<forall>y \<in> set items. \<not> isDirectory e fs y \<or> showEmptyFolders opts \<longrightarrow> y \<in> set (map entry_item es)) \<and>
           (\<forall>x \<in> set es. entry_ok e fm fs opts r1 r2 depth x)"
  using assms
proof (induction items arbitrary: i)
  case Nil
  have "render_items rec e fm fs opts depth len i [] = Some (Inr (concat (map lines_of [])))"
    by simp
  then show ?case by (intro exI[of _ "[]"]) simp
next
  case (Cons it items)
  obtain es where es: "render_items rec e fm fs opts depth len (Suc i) items
        = Some (Inr (concat (map lines_of es)))"
      "subseq (map entry_item es) items" "\<forall>x \<in> set es. entry_ok e fm fs opts r1 r2 depth x"
    and all: "\<forall>y \<in> set items. \<not> isDirectory e fs y \<or> showEmptyFolders opts \<longrightarrow> y \<in> set (map entry_item es)"
    using Cons.IH[of "Suc i"] Cons.prems by auto
  define mk where "mk = (if i = len - 1 then corner else tee)"
  define pfx where "pfx = indent depth @ mk @ '' ''"
  have pfx: "concat (replicate (depth - 1) (bar @ ''  '')) @
        (if i = len - 1 then corner @ '' '' else tee @ '' '') = pfx"
    by (simp add: indent_def pfx_def mk_def)
  have mark: "mk \<in> set [tee, corner]" by (simp add: mk_def)
  show ?case
  proof (cases "isDirectory e fs it")
    case False
    let ?E = "Entry it (file_line e fm fs opts pfx it) []"
    have r: "render_items rec e fm fs opts depth len i (it # items)
        = Some (Inr (concat (map lines_of (?E # es))))"
      unfolding render_items.simps Let_def pfx using False es(1) by simp
    have s: "subseq (map entry_item (?E # es)) (it # items)" using es(2) by simp
    have o: "entry_ok e fm fs opts r1 r2 depth ?E"
    proof -
      have "\<exists>mark \<in> set [tee, corner].
          file_line e fm fs opts pfx it = file_line e fm fs opts (indent depth @ mark @ '' '') it"
        by (rule bexI[OF _ mark]) (simp add: pfx_def)
      then show ?thesis using False by (simp del: set_simps)
    qed
    show ?thesis
    proof (intro exI[of _ "?E # es"] conjI)
      show "render_items rec e fm fs opts depth len i (it # items)
        = Some (Inr (concat (map lines_of (?E # es))))" by (rule r)
      show "subseq (map entry_item (?E # es)) (it # items)" by (rule s)
      show "\<forall>y \<in> set (it # items). \<not> isDirectory e fs y \<or> showEmptyFolders opts
              \<longrightarrow> y \<in> set (map entry_item (?E # es))"
        using all by auto
      show "\<forall>x \<in> set (?E # es). entry_ok e fm fs opts r1 r2 depth x"
      proof
        fix x assume "x \<in> set (?E # es)"
        then consider "x = ?E" | "x \<in> set es" by auto
        then show "entry_ok e fm fs opts r1 r2 depth x"
        proof cases
          case 1 then show ?thesis using o by (simp only:)
        next
          case 2 then show ?thesis using es(3) by blast
        qed
      qed
    qed
  next
    case True
    obtain bs where bs: "rec it (depth + 1) = Some (Inr (concat (map lines_of bs)))"
        "level_ok e fs opts r1 r2 it (map entry_item bs)"
        "\<forall>b \<in> set bs. entry_ok e fm fs opts r1 r2 (depth + 1) b"
      using Cons.prems[of it] True by auto
    show ?thesis
    proof (cases "concat (map lines_of bs) \<noteq> [] \<or> showEmptyFolders opts")
      case False
      have "render_items rec e fm fs opts depth len i (it # items)
          = Some (Inr (concat (map lines_of es)))"
        using True False es(1) bs(1) by (simp add: Let_def)
      moreover have "subseq (map entry_item es) (it # items)" using es(2) by (rule list_emb_Cons)
      moreover have "\<forall>y \<in> set (it # items). \<not> isDirectory e fs y \<or> showEmptyFolders opts
              \<longrightarrow> y \<in> set (map entry_item es)"
        using all True False by auto
      ultimately show ?thesis using es(3) by blast
    next
      case shown: True
      let ?E = "Entry it (pfx @ getName it @ ''/'') bs"
      have r: "render_items rec e fm fs opts depth len i (it # items)
          = Some (Inr (concat (map lines_of (?E # es))))"
        unfolding render_items.simps Let_def pfx using True shown es(1) bs(1) by simp
      have s: "subseq (map entry_item (?E # es)) (it # items)" using es(2) by simp
      have o: "entry_ok e fm fs opts r1 r2 depth ?E"
      proof -
        have "\<exists>mark \<in> set [tee, corner].
            pfx @ getName it @ ''/'' = indent depth @ mark @ '' '' @ getName it @ ''/''"
          by (rule bexI[OF _ mark]) (simp add: pfx_def)
        moreover have "bs \<noteq> [] \<or> showEmptyFolders opts" using shown by auto
        ultimately show ?thesis using True bs(2,3) by (simp del: set_simps)
      qed
      show ?thesis
      proof (intro exI[of _ "?E # es"] conjI)
        show "render_items rec e fm fs opts depth len i (it # items)
          = Some (Inr (concat (map lines_of (?E # es))))" by (rule r)
        show "subseq (map entry_item (?E # es)) (it # items)" by (rule s)
        show "\<forall>y \<in> set (it # items). \<not> isDirectory e fs y \<or> showEmptyFolders opts
                \<longrightarrow> y \<in> set (map entry_item (?E # es))"
          using all by auto
        show "\<forall>x \<in> set (?E # es). entry_ok e fm fs opts r1 r2 depth x"
        proof
          fix x assume "x \<in> set (?E # es)"
          then consider "x = ?E" | "x \<in> set es" by auto
          then show "entry_ok e fm fs opts r1 r2 depth x"
          proof cases
            case 1 then show ?thesis using o by (simp only:)
          next
            case 2 then show ?thesis using es(3) by blast
          qed
        qed
      qed
    qed
  qed
qed

lemma compare_items_in_order:
  "compare_items e fs (or_default (sort_by opts) ''name'') (or_default (sort_order opts) ''asc'') x y \<le> 0
   \<Longrightarrow> in_order e fs opts x y"
  by (cases "isDirectory e fs x"; cases "isDirectory e fs y")
     (simp_all add: in_order_def compare_items_alt split: if_splits)

lemma level_items_children:
  assumes "level_items e fs opts r1 r2 d = Inr ys" "node_at e fs d = Some (Directory a l m ks)"
  shows "set ys \<subseteq> (\<lambda>k. File2 d (name k)) ` set ks"
proof -
  have "filter_items keep xs = Inr zs \<Longrightarrow> set zs \<subseteq> set xs" for keep and xs zs :: "string list"
    by (induction xs arbitrary: zs) (auto split: sum.splits if_splits)
  from this[of "passes e fs opts r1 r2" "map (\<lambda>k. File2 d (name k)) ks"] show ?thesis
    using assms by (auto simp: level_items_def listFiles_def set_sort_by_comparator split: sum.splits)
qed

lemma traverse_listing:
  assumes "consistent (localeCompare e)" and "\<forall>g. \<not> isl (FileStream_read e fs g)"
    and "node_at e fs d = Some t" "is_dir (Some t)" "wf_node t" "height t < n"
  shows "\<exists>es. traverse n e fm fs opts r1 r2 d depth = Some (Inr (concat (map lines_of es))) \<and>
           level_ok e fs opts r1 r2 d (map entry_item es) \<and>
           (\<forall>x \<in> set es. entry_ok e fm fs opts r1 r2 depth x)"
  using assms(3-)
proof (induction n arbitrary: d t depth)
  case 0 then show ?case by simp
next
  case (Suc n)
  obtain a l m ks where t: "t = Directory a l m ks"
    using Suc.prems(2) by (cases t) (auto simp: is_dir_def)
  note at = Suc.prems(1)[unfolded t]
  have wfk: "\<And>k. k \<in> set ks \<Longrightarrow> wf_node k \<and> valid_name (name k)" and dist: "distinct (map name ks)"
    using Suc.prems(3) t by auto
  have vn: "\<forall>k \<in> set ks. valid_name (name k)" using wfk by blast
  let ?c = "compare_items e fs (or_default (sort_by opts) ''name'') (or_default (sort_order opts) ''asc'')"
  obtain ys where ys: "level_items e fs opts r1 r2 d = Inr ys"
    and srt: "sorted_wrt (\<lambda>x y. ?c x y \<le> 0) ys"
    using level_items_sorted[OF assms(1) at dist vn assms(2)] by blast
  have sub: "set ys \<subseteq> (\<lambda>k. File2 d (name k)) ` set ks"
    by (rule level_items_children[OF ys at])
  have rec: "\<exists>bs. traverse n e fm fs opts r1 r2 it (depth + 1) = Some (Inr (concat (map lines_of bs))) \<and>
           level_ok e fs opts r1 r2 it (map entry_item bs) \<and>
           (\<forall>b \<in> set bs. entry_ok e fm fs opts r1 r2 (depth + 1) b)"
    if it: "it \<in> set ys" and isd: "isDirectory e fs it" for it
  proof -
    obtain k where k: "k \<in> set ks" "it = File2 d (name k)" using it sub by auto
    have nk: "node_at e fs it = Some k"
      unfolding k(2) using at dist k(1) wfk[OF k(1)] by (intro node_at_child) auto
    have dk: "is_dir (Some k)" using isd nk by (simp add: isDirectory_def)
    have hk: "height k < n" using height_child[OF k(1)] Suc.prems(4) t by simp
    show ?thesis using Suc.IH[OF nk dk _ hk] wfk[OF k(1)] by simp
  qed
  obtain es where es: "render_items (traverse n e fm fs opts r1 r2) e fm fs opts depth (length ys) 0 ys
        = Some (Inr (concat (map lines_of es)))"
      "subseq (map entry_item es) ys" "\<forall>x \<in> set es. entry_ok e fm fs opts r1 r2 depth x"
      "\<forall>y \<in> set ys. \<not> isDirectory e fs y \<or> showEmptyFolders opts \<longrightarrow> y \<in> set (map entry_item es)"
    using render_items_listing[of ys e fs "traverse n e fm fs opts r1 r2" depth opts r1 r2 fm
        "length ys" 0, OF rec] by blast
  have "sorted_wrt (\<lambda>x y. ?c x y \<le> 0) (map entry_item es)"
    by (rule sorted_wrt_subseq[OF es(2) srt])
  then have "sorted_wrt (in_order e fs opts) (map entry_item es)"
    by (rule sorted_wrt_mono_rel[rotated]) (rule compare_items_in_order)
  then have "level_ok e fs opts r1 r2 d (map entry_item es)"
    using ys es(2,4) by (simp add: level_ok_def)
  moreover have "traverse (Suc n) e fm fs opts r1 r2 d depth = Some (Inr (concat (map lines_of es)))"
    using ys es(1) by simp
  ultimately show ?case using es(3) by blast
qed

text \<open>
  Claim C8. For an existing directory of a well-formed tree, options whose patterns
  compile, a consistent \<open>localeCompare\<close> and reads of the content filter that return,
  \<open>getDirectoryTree\<close> returns the root line followed by the lines of a forest of
  entries: at every level, the root's and that below every directory printed, the entries
  are filtered items of that directory in their order, among them every filtered file
  (and every directory when \<open>showEmptyFolders\<close> is on), no file stands before a
  directory whatever the sort key and order are, and two entries of the same kind stand
  in the order of the requested key (\<open>name\<close>: \<open>localeCompare\<close>, \<open>date\<close>: the
  last-modified time, \<open>size\<close>: the byte length, directories never compared by size),
  reversed when the order is \<open>desc\<close>.
\<close>

theorem getDirectoryTree_directories_first:
  assumes "consistent (localeCompare e)" and "\<forall>g. \<not> isl (FileStream_read e fs g)"
    and "resolvePath e fm path = Inr file"
    and "node_at e fs file = Some (Directory a l m ks)"
    and "wf_node (Directory a l m ks)" and "height (Directory a l m ks) < n"
    and "compile e (search_regex opts) \<noteq> BadPattern"
    and "compile e (search_contentRegex opts) \<noteq> BadPattern"
  shows "\<exists>es. getDirectoryTree n e fm fs path opts
                 = Some (Some (join_lines ((getName file @ ''/'') # concat (map lines_of es)))) \<and>
     level_ok e fs opts (compile e (search_regex opts)) (compile e (search_contentRegex opts))
       file (map entry_item es) \<and>
     (\<forall>x \<in> set es. entry_ok e fm fs opts (compile e (search_regex opts))
                      (compile e (search_contentRegex opts)) 1 x)"
proof -
  let ?r1 = "compile e (search_regex opts)" and ?r2 = "compile e (search_contentRegex opts)"
  have isd: "is_dir (Some (Directory a l m ks))" by (simp add: is_dir_def)
  obtain es where es: "traverse n e fm fs opts ?r1 ?r2 file 1 = Some (Inr (concat (map lines_of es)))"
      "level_ok e fs opts ?r1 ?r2 file (map entry_item es)"
      "\<forall>x \<in> set es. entry_ok e fm fs opts ?r1 ?r2 1 x"
    using traverse_listing[OF assms(1,2,4) isd assms(5,6), of fm opts ?r1 ?r2 1] by blast
  have "getDirectoryTree n e fm fs path opts
      = Some (Some (join_lines ((getName file @ ''/'') # concat (map lines_of es))))"
    using assms(3,4,7,8) es(1)
    by (cases ?r1; cases ?r2)
       (simp_all add: getDirectoryTree_def exists_def isDirectory_def is_dir_def)
  then show ?thesis using es(2,3) by blast
qed

lemma sort_tree_output:
  "getDirectoryTree 5 unix_env (sandbox ''/base'') sort_tree ''/base'' desc_shown_options
     = Some (Some (''base/'' @ newline # tee @ '' Z/'' @ newline # tee @ '' b.txt'' @
                   newline # corner @ '' a.txt''))"
  by code_simp

theorem getDirectoryTree_directories_first_witness:
  "(\<exists>es. getDirectoryTree 5 unix_env (sandbox ''/base'') sort_tree ''/base'' desc_shown_options
            = Some (Some (join_lines (''base/'' # concat (map lines_of es)))) \<and>
         level_ok unix_env sort_tree desc_shown_options NoPattern NoPattern ''/base'' (map entry_item es) \<and>
         (\<forall>x \<in> set es. entry_ok unix_env (sandbox ''/base'') sort_tree desc_shown_options
                          NoPattern NoPattern 1 x)) \<and>
   getDirectoryTree 5 unix_env (sandbox ''/base'') sort_tree ''/base'' desc_shown_options
     = Some (Some (''base/'' @ newline # tee @ '' Z/'' @ newline # tee @ '' b.txt'' @
                   newline # corner @ '' a.txt''))"
proof -
  have r: "resolvePath unix_env (sandbox ''/base'') ''/base'' = Inr ''/base''" by code_simp
  have n: "node_at unix_env sort_tree ''/base'' = Some (Directory ''base'' 4096 0
          [RegularFile ''a.txt'' ''hello!'' 5, Directory ''Z'' 4096 3 [],
           RegularFile ''b.txt'' ''hi'' 7])"
    by code_simp
  have w: "wf_node (Directory ''base'' 4096 0
          [RegularFile ''a.txt'' ''hello!'' 5, Directory ''Z'' 4096 3 [],
           RegularFile ''b.txt'' ''hi'' 7])"
    "height (Directory ''base'' 4096 0
          [RegularFile ''a.txt'' ''hello!'' 5, Directory ''Z'' 4096 3 [],
           RegularFile ''b.txt'' ''hi'' 7]) < 5"
    by code_simp+
  have c: "compile unix_env (search_regex desc_shown_options) = NoPattern"
    "compile unix_env (search_contentRegex desc_shown_options) = NoPattern"
    by (simp_all add: compile_def truthy_def default_options_def desc_options_def
        desc_shown_options_def)
  have p: "compile unix_env (search_regex desc_shown_options) \<noteq> BadPattern"
    "compile unix_env (search_contentRegex desc_shown_options) \<noteq> BadPattern"
    by (simp_all add: c)
  have nm: "getName ''/base'' = ''base''" by code_simp
  from getDirectoryTree_directories_first[OF unix_env_consistent unix_env_reads r n w p]
  show ?thesis unfolding c nm using sort_tree_output by simp
qed

section \<open>Lemmas on changing the tree\<close>

lemma lookup_opt_simps [simp]:
  "lookup_opt None p = None"
  "lookup_opt (Some n) p = lookup n p"
  "lookup_opt x [] = x"
  by (simp_all add: lookup_opt_def split: option.splits)

lemma alter_append: "alter g (p @ q) x = alter (alter g q) p x"
  by (induction p arbitrary: x) (auto split: option.splits node.splits)

lemma alter_at:
  "lookup_opt x p = y \<Longrightarrow> alter h p x = alter (\<lambda>_. h y) p x"
proof (induction p arbitrary: x)
  case Nil then show ?case by simp
next
  case (Cons s p)
  show ?case
  proof (cases x)
    case None then show ?thesis by simp
  next
    case (Some n)
    show ?thesis
    proof (cases n)
      case (RegularFile a c m)
      then show ?thesis using Some by simp
    next
      case (Directory a l m ks)
      have "lookup_opt (find (\<lambda>k. name k = s) ks) p = y"
        using Cons.prems Some Directory by (simp add: lookup_opt_def split: option.splits)
      from Cons.IH[OF this] show ?thesis using Some Directory by simp
    qed
  qed
qed

lemma find_set_child:
  assumes "\<And>n. r = Some n \<Longrightarrow> name n = s" "r \<noteq> None"
  shows "find (\<lambda>k. name k = s) (set_child s r ks) = r"
  using assms by (induction ks) (auto split: option.splits)

lemma set_child_twice:
  assumes "name n = s"
  shows "set_child s r (set_child s (Some n) ks) = set_child s r ks"
  using assms by (induction ks) (auto split: option.splits)

lemma alter_Some: "p \<noteq> [] \<Longrightarrow> alter g p (Some n) \<noteq> None"
  by (cases p) (auto split: node.splits)

lemma alter_None: "p \<noteq> [] \<Longrightarrow> alter g p None = None"
  by (cases p) auto

lemma name_alter: "p \<noteq> [] \<Longrightarrow> alter g p (Some n) = Some n' \<Longrightarrow> name n' = name n"
  by (cases p) (auto split: node.splits)

text \<open>A node put where a node of that name stood can be looked up there.\<close>

lemma lookup_alter_same:
  assumes "lookup_opt x p \<noteq> None" "p = [] \<or> name t = last p"
  shows "lookup_opt (alter (\<lambda>_. Some t) p x) p = Some t"
  using assms
proof (induction p arbitrary: x)
  case Nil then show ?case by simp
next
  case (Cons s p)
  then obtain a l m ks where x: "x = Some (Directory a l m ks)"
    by (cases x; cases "the x") (auto simp: lookup_opt_def)
  let ?c = "find (\<lambda>k. name k = s) ks"
  have c: "lookup_opt ?c p \<noteq> None"
    using Cons.prems(1) x by (auto simp: lookup_opt_def split: option.splits)
  then obtain k where k: "?c = Some k" by (cases ?c) auto
  have nk: "name k = s" using k by (auto simp: find_Some_iff)
  let ?r = "alter (\<lambda>_. Some t) p ?c"
  have ih: "lookup_opt ?r p = Some t"
  proof (cases "p = []")
    case True then show ?thesis by simp
  next
    case False
    then show ?thesis using Cons.IH[OF c] Cons.prems(2) by simp
  qed
  have nm: "\<And>n. ?r = Some n \<Longrightarrow> name n = s"
  proof -
    fix n assume r: "?r = Some n"
    show "name n = s"
    proof (cases "p = []")
      case True then show ?thesis using r Cons.prems(2) by simp
    next
      case False then show ?thesis using name_alter[OF False r[unfolded k]] nk by simp
    qed
  qed
  have ne: "?r \<noteq> None" using ih by (cases ?r) simp_all
  have "find (\<lambda>k. name k = s) (set_child s ?r ks) = ?r"
    by (rule find_set_child[OF nm ne])
  then show ?case using x ih by (simp add: lookup_opt_def split: option.splits)
qed

lemma alter_twice:
  assumes "lookup_opt x p \<noteq> None" "p = [] \<or> name t = last p"
  shows "alter (\<lambda>_. r) p (alter (\<lambda>_. Some t) p x) = alter (\<lambda>_. r) p x"
  using assms
proof (induction p arbitrary: x)
  case Nil then show ?case by simp
next
  case (Cons s p)
  then obtain a l m ks where x: "x = Some (Directory a l m ks)"
    by (cases x; cases "the x") (auto simp: lookup_opt_def)
  let ?c = "find (\<lambda>k. name k = s) ks"
  have c: "lookup_opt ?c p \<noteq> None"
    using Cons.prems(1) x by (auto simp: lookup_opt_def split: option.splits)
  then obtain k where k: "?c = Some k" by (cases ?c) auto
  have nk: "name k = s" using k by (auto simp: find_Some_iff)
  let ?m = "alter (\<lambda>_. Some t) p ?c"
  obtain n where n: "?m = Some n" and nn: "name n = s"
  proof (cases "p = []")
    case True
    then show ?thesis using that Cons.prems(2) by simp
  next
    case False
    obtain n where "?m = Some n" using alter_Some[OF False, of "\<lambda>_. Some t" k] k by auto
    then show ?thesis using that name_alter[OF False, of "\<lambda>_. Some t" k n] k nk by simp
  qed
  have f: "find (\<lambda>k. name k = s) (set_child s ?m ks) = ?m"
    by (rule find_set_child) (use n nn in auto)
  have inner: "alter (\<lambda>_. r) p ?m = alter (\<lambda>_. r) p ?c"
  proof (cases "p = []")
    case True then show ?thesis by simp
  next
    case False then show ?thesis using Cons.IH[OF c] Cons.prems(2) by simp
  qed
  show ?case
    using x f inner n nn by (simp add: set_child_twice)
qed

lemma set_child_self: "set_child s (find (\<lambda>k. name k = s) ks) ks = ks"
  by (induction ks) (auto split: option.splits)

lemma alter_id: "alter (\<lambda>y. y) p x = x"
  by (induction p arbitrary: x) (auto simp: set_child_self split: option.splits node.splits)

lemma put_same: "lookup fs p = Some t \<Longrightarrow> put fs p (Some t) = fs"
proof -
  assume l: "lookup fs p = Some t"
  have "alter (\<lambda>y. y) p (Some fs) = alter (\<lambda>_. Some t) p (Some fs)"
    by (rule alter_at) (simp add: l)
  then show ?thesis by (simp add: put_def alter_id)
qed

lemma lookup_put:
  assumes "lookup fs p \<noteq> None" "p = [] \<or> name t = last p"
  shows "lookup (put fs p (Some t)) p = Some t"
proof -
  have l: "lookup_opt (alter (\<lambda>_. Some t) p (Some fs)) p = Some t"
    by (rule lookup_alter_same) (use assms in simp_all)
  then show ?thesis by (cases "alter (\<lambda>_. Some t) p (Some fs)") (simp_all add: put_def)
qed

lemma put_put:
  assumes "lookup fs p \<noteq> None" "p = [] \<or> name t = last p" "p \<noteq> [] \<or> r \<noteq> None"
  shows "put (put fs p (Some t)) p r = put fs p r"
proof (cases "p = []")
  case True then show ?thesis using assms(3) by (cases r) (simp_all add: put_def)
next
  case False
  obtain fs1 where fs1: "alter (\<lambda>_. Some t) p (Some fs) = Some fs1"
    using alter_Some[OF False, of "\<lambda>_. Some t" fs] by auto
  have "alter (\<lambda>_. r) p (alter (\<lambda>_. Some t) p (Some fs)) = alter (\<lambda>_. r) p (Some fs)"
    by (rule alter_twice) (use assms(1,2) in simp_all)
  moreover obtain fs2 where "alter (\<lambda>_. r) p (Some fs) = Some fs2"
    using alter_Some[OF False, of "\<lambda>_. r" fs] by auto
  ultimately show ?thesis using fs1 by (simp add: put_def)
qed

lemma put_child:
  assumes "lookup fs p = Some (Directory a l m ks)"
  shows "put fs (p @ [s]) r = put fs p (Some (Directory a l m (set_child s r ks)))"
proof -
  have "alter (\<lambda>_. r) (p @ [s]) (Some fs) = alter (alter (\<lambda>_. r) [s]) p (Some fs)"
    by (rule alter_append)
  also have "\<dots> = alter (\<lambda>_. alter (\<lambda>_. r) [s] (Some (Directory a l m ks))) p (Some fs)"
    by (rule alter_at) (simp add: assms)
  finally show ?thesis by (simp add: put_def)
qed

lemma set_child_middle:
  assumes "name k \<notin> name ` set A"
  shows "set_child (name k) r (A @ k # B) = A @ (case r of None \<Rightarrow> [] | Some n \<Rightarrow> [n]) @ B"
  using assms by (induction A) (auto split: option.splits)

lemma find_middle:
  assumes "name k \<notin> name ` set A"
  shows "find (\<lambda>k'. name k' = name k) (A @ k # B) = Some k"
  using assms by (induction A) auto

lemma residual_Directory:
  "residual e f (Directory a l m ks) =
     (if residuals e f ks = [] \<and> locate e f \<noteq> [] \<and> deletable e (locate e f) then None
      else Some (Directory a l m (residuals e f ks)))"
  by (simp add: residuals_def Let_def)

lemma residuals_simps:
  "residuals e f [] = []"
  "residuals e f (k # ks) =
     (case residual e (File2 f (name k)) k of None \<Rightarrow> [] | Some k' \<Rightarrow> [k']) @ residuals e f ks"
  "residuals e f (A @ B) = residuals e f A @ residuals e f B"
  by (simp_all add: residuals_def)

lemma name_residual: "residual e f t = Some t' \<Longrightarrow> name t' = name t"
  by (cases t) (auto simp: Let_def split: if_splits)

lemma names_residuals: "name ` set (residuals e f ks) \<subseteq> name ` set ks"
proof (induction ks)
  case Nil then show ?case by (simp add: residuals_simps)
next
  case (Cons k ks)
  show ?case
  proof (cases "residual e (File2 f (name k)) k")
    case None
    then show ?thesis using Cons by (auto simp: residuals_simps)
  next
    case (Some k')
    then have "name k' = name k" by (rule name_residual)
    then show ?thesis using Cons Some by (auto simp: residuals_simps)
  qed
qed

lemma map_fst_attempts: "map fst (attempts e f t) = postorder f t"
proof (induction f t rule: postorder.induct)
  case (1 f a c m) then show ?case by simp
next
  case (2 f a l m ks)
  have "map (\<lambda>k. map fst (attempts e (File2 f (name k)) k)) ks
      = map (\<lambda>k. postorder (File2 f (name k)) k) ks"
    by (rule map_cong[OF refl]) (erule "2.IH")
  then have "concat (map (\<lambda>k. map fst (attempts e (File2 f (name k)) k)) ks)
      = concat (map (\<lambda>k. postorder (File2 f (name k)) k) ks)"
    by (rule arg_cong)
  then show ?case by (simp add: map_concat comp_def)
qed

lemma record_attempts_simps:
  "record_attempts ctx [] = ctx"
  "record_attempts (record_attempts ctx as) bs = record_attempts ctx (as @ bs)"
  by (simp_all add: record_attempts_def)

lemma find_set_child_None:
  "length (filter (\<lambda>k. name k = s) ks) = 1 \<Longrightarrow> find (\<lambda>k. name k = s) (set_child s None ks) = None"
proof (induction ks)
  case Nil then show ?case by simp
next
  case (Cons k ks)
  show ?case
  proof (cases "name k = s")
    case True
    then have "filter (\<lambda>k. name k = s) ks = []" using Cons.prems by simp
    then have "find (\<lambda>k. name k = s) ks = None"
      by (simp add: find_None_iff filter_empty_conv)
    then show ?thesis using True by simp
  next
    case False
    then show ?thesis using Cons by simp
  qed
qed

lemma lookup_put_None:
  assumes "sole fs p" "p \<noteq> []"
  shows "lookup (put fs p None) p = None"
proof -
  let ?q = "butlast p" and ?s = "last p"
  have p: "p = ?q @ [?s]" using assms(2) by simp
  obtain a l m ks where q: "lookup fs ?q = Some (Directory a l m ks)"
    and one: "length (filter (\<lambda>k. name k = ?s) ks) = 1"
    using assms by (auto simp: sole_def split: option.splits node.splits)
  have a: "?q = [] \<or> name (Directory a l m (set_child ?s None ks)) = last ?q"
    using lookup_snoc_name[of fs "butlast ?q" "last ?q"] q by (cases "?q = []") auto
  have "put fs p None = put fs ?q (Some (Directory a l m (set_child ?s None ks)))"
    using put_child[OF q, of ?s None] p by simp
  moreover have "lookup (put fs ?q (Some (Directory a l m (set_child ?s None ks)))) ?q
      = Some (Directory a l m (set_child ?s None ks))"
    by (rule lookup_put) (use q a in simp_all)
  ultimately have "lookup (put fs p None) (?q @ [?s]) = find (\<lambda>k. name k = ?s) (set_child ?s None ks)"
    by (simp add: lookup_append split: option.splits)
  then show ?thesis using find_set_child_None[OF one] p by simp
qed

lemma filter_name_distinct:
  "distinct (map name ks) \<Longrightarrow> k \<in> set ks \<Longrightarrow> length (filter (\<lambda>k'. name k' = name k) ks) = 1"
proof (induction ks)
  case Nil then show ?case by simp
next
  case (Cons x xs)
  show ?case
  proof (cases "name x = name k")
    case True
    then have "name k \<notin> name ` set xs" using Cons.prems(1) by simp
    then have "filter (\<lambda>k'. name k' = name k) xs = []"
      by (auto simp: filter_empty_conv image_iff)
    then show ?thesis using True by simp
  next
    case False
    then show ?thesis using Cons by auto
  qed
qed

lemma delete_visit_node:
  assumes "node_at e fs f = Some t"
  shows "delete_visit e f (ctx, fs) =
     (let ok = (locate e f \<noteq> [] \<and> deletable e (locate e f) \<and>
                (case t of Directory _ _ _ ks \<Rightarrow> ks = [] | _ \<Rightarrow> True))
      in Normal (record_attempts ctx [(f, ok)], if ok then put fs (locate e f) None else fs))"
proof -
  have f: "f \<noteq> []" by (rule node_at_nonempty[OF assms])
  have l: "lookup fs (locate e f) = Some t" using assms f by (simp add: node_at_def)
  show ?thesis
    by (cases t) (simp_all add: delete_visit_def File_delete_def Let_def f l record_attempts_def)
qed

lemma delete_loop:
  assumes step: "\<And>k ctx fs. k \<in> set todo \<Longrightarrow> node_at e fs (File2 f (name k)) = Some k \<Longrightarrow>
        sole fs (locate e (File2 f (name k))) \<Longrightarrow>
        body (File2 f (name k)) (ctx, fs) =
          Some (Normal (record_attempts ctx (attempts e (File2 f (name k)) k),
                        put fs (locate e (File2 f (name k))) (residual e (File2 f (name k)) k)))"
    and f: "f \<noteq> []" and p: "lookup fs0 (locate e f) \<noteq> None"
    and a: "locate e f = [] \<or> a = last (locate e f)"
    and valid: "\<forall>k \<in> set todo. valid_name (name k)"
    and dist: "distinct (map name (R @ todo))"
  shows "for_each body (map (\<lambda>k. File2 f (name k)) todo)
           (ctx, put fs0 (locate e f) (Some (Directory a l m (R @ todo)))) =
         Some (Normal (record_attempts ctx (concat (map (\<lambda>k. attempts e (File2 f (name k)) k) todo)),
                       put fs0 (locate e f) (Some (Directory a l m (R @ residuals e f todo)))))"
  using step valid dist
proof (induction todo arbitrary: R ctx)
  case Nil
  then show ?case by (simp add: residuals_simps record_attempts_simps)
next
  case (Cons k todo)
  let ?p = "locate e f"
  let ?fk = "File2 f (name k)"
  let ?fs = "put fs0 ?p (Some (Directory a l m (R @ k # todo)))"
  have vk: "valid_name (name k)" using Cons.prems(2) by simp
  have nk: "name k \<notin> name ` set R" using Cons.prems(3) by auto
  have lp: "lookup ?fs ?p = Some (Directory a l m (R @ k # todo))"
    by (rule lookup_put) (use p a in simp_all)
  have loc: "locate e ?fk = ?p @ [name k]" by (rule locate_File2[OF f vk])
  have nat: "node_at e ?fs ?fk = Some k"
    by (simp add: node_at_def File2_nonempty[OF vk] loc lookup_append lp find_middle[OF nk])
  have so: "sole ?fs (locate e ?fk)"
    using filter_name_distinct[OF Cons.prems(3), of k]
    by (simp add: sole_def loc lp)
  let ?r = "residual e ?fk k"
  let ?o = "case ?r of None \<Rightarrow> [] | Some n \<Rightarrow> [n]"
  have "put ?fs (locate e ?fk) ?r = put ?fs ?p (Some (Directory a l m (set_child (name k) ?r (R @ k # todo))))"
    unfolding loc by (rule put_child[OF lp])
  also have "\<dots> = put ?fs ?p (Some (Directory a l m ((R @ ?o) @ todo)))"
    by (simp add: set_child_middle[OF nk])
  also have "\<dots> = put fs0 ?p (Some (Directory a l m ((R @ ?o) @ todo)))"
    by (rule put_put) (use p a in simp_all)
  finally have fs1: "put ?fs (locate e ?fk) ?r = put fs0 ?p (Some (Directory a l m ((R @ ?o) @ todo)))" .
  have st: "body ?fk (ctx, ?fs) =
      Some (Normal (record_attempts ctx (attempts e ?fk k),
                    put fs0 ?p (Some (Directory a l m ((R @ ?o) @ todo)))))"
    using Cons.prems(1)[OF _ nat so, of ctx] fs1 by simp
  have dist': "distinct (map name ((R @ ?o) @ todo))"
  proof (cases ?r)
    case None
    then show ?thesis using Cons.prems(3) by simp
  next
    case (Some n)
    then have "name n = name k" by (rule name_residual)
    then show ?thesis using Cons.prems(3) Some by simp
  qed
  have ih: "for_each body (map (\<lambda>k. File2 f (name k)) todo)
      (record_attempts ctx (attempts e ?fk k), put fs0 ?p (Some (Directory a l m ((R @ ?o) @ todo)))) =
      Some (Normal (record_attempts (record_attempts ctx (attempts e ?fk k))
                      (concat (map (\<lambda>k. attempts e (File2 f (name k)) k) todo)),
                    put fs0 ?p (Some (Directory a l m ((R @ ?o) @ residuals e f todo)))))"
    by (rule Cons.IH) (use Cons.prems dist' in auto)
  show ?case
    using st ih by (simp add: then_do_def residuals_simps record_attempts_simps)
qed

lemma walk_delete:
  assumes "wf_node t" "node_at e fs f = Some t" "sole fs (locate e f)" "height t < n"
  shows "walk n e (delete_visit e) (delete_visit e) PostOrder f (ctx, fs) =
           Some (Normal (record_attempts ctx (attempts e f t),
                         put fs (locate e f) (residual e f t)))"
  using assms
proof (induction n arbitrary: t f ctx fs)
  case 0 then show ?case by simp
next
  case (Suc n)
  let ?p = "locate e f"
  have f: "f \<noteq> []" by (rule node_at_nonempty[OF Suc.prems(2)])
  have l: "lookup fs ?p = Some t" using Suc.prems(2) f by (simp add: node_at_def)
  show ?case
  proof (cases t)
    case (RegularFile a c m)
    let ?ok = "?p \<noteq> [] \<and> deletable e ?p"
    have v: "delete_visit e f (ctx, fs) =
        Normal (record_attempts ctx [(f, ?ok)], if ?ok then put fs ?p None else fs)"
      using delete_visit_node[OF Suc.prems(2), of ctx] RegularFile by (simp add: Let_def)
    have after: "\<not> isDirectory e (if ?ok then put fs ?p None else fs) f"
      using lookup_put_None[OF Suc.prems(3)] l RegularFile f
      by (auto simp: isDirectory_def node_at_def is_dir_def)
    have fin: "(if ?ok then put fs ?p None else fs) = put fs ?p (residual e f t)"
    proof (cases ?ok)
      case True
      then show ?thesis using RegularFile by simp
    next
      case False
      then have "residual e f t = Some t" using RegularFile by auto
      moreover have "(if ?ok then put fs ?p None else fs) = fs" using False by auto
      ultimately show ?thesis using put_same[OF l] by simp
    qed
    have att: "attempts e f t = [(f, ?ok)]" using RegularFile by simp
    have isf: "isFile e fs f" "\<not> isDirectory e fs f"
      using Suc.prems(2) RegularFile by (simp_all add: isFile_def isDirectory_def is_file_def is_dir_def)
    show ?thesis
      unfolding att fin[symmetric]
      using isf v after by (simp add: then_do_def)
  next
    case (Directory a l m ks)
    have wfk: "distinct (map name ks)" "\<forall>k \<in> set ks. valid_name (name k)"
      "\<forall>k \<in> set ks. wf_node k"
      using Suc.prems(1) Directory by auto
    have a: "?p = [] \<or> a = last ?p"
      using lookup_snoc_name[of fs "butlast ?p" "last ?p"] l Directory by (cases "?p = []") auto
    have step: "walk n e (delete_visit e) (delete_visit e) PostOrder (File2 f (name k)) (ctx, fs) =
          Some (Normal (record_attempts ctx (attempts e (File2 f (name k)) k),
                        put fs (locate e (File2 f (name k))) (residual e (File2 f (name k)) k)))"
      if "k \<in> set ks" "node_at e fs (File2 f (name k)) = Some k"
        "sole fs (locate e (File2 f (name k)))" for k ctx fs
    proof -
      have hk: "height k < n" using height_child[OF that(1)] Suc.prems(4) Directory by simp
      show ?thesis by (rule Suc.IH) (use that wfk hk in auto)
    qed
    have start: "fs = put fs ?p (Some (Directory a l m ([] @ ks)))"
      using put_same[OF l] Directory by simp
    have loop: "for_each (walk n e (delete_visit e) (delete_visit e) PostOrder)
          (map (\<lambda>k. File2 f (name k)) ks) (ctx, put fs ?p (Some (Directory a l m ([] @ ks)))) =
        Some (Normal (record_attempts ctx (concat (map (\<lambda>k. attempts e (File2 f (name k)) k) ks)),
                      put fs ?p (Some (Directory a l m ([] @ residuals e f ks)))))"
      by (rule delete_loop[where ?R = "[]"]) (use step f l a wfk in auto)
    let ?R = "residuals e f ks"
    let ?fs1 = "put fs ?p (Some (Directory a l m ?R))"
    let ?ctx1 = "record_attempts ctx (concat (map (\<lambda>k. attempts e (File2 f (name k)) k) ks))"
    have loop': "for_each (walk n e (delete_visit e) (delete_visit e) PostOrder)
          (map (\<lambda>k. File2 f (name k)) ks) (ctx, fs) = Some (Normal (?ctx1, ?fs1))"
      using loop start by simp
    have l1: "lookup ?fs1 ?p = Some (Directory a l m ?R)"
      by (rule lookup_put) (use l a in simp_all)
    have n1: "node_at e ?fs1 f = Some (Directory a l m ?R)"
      using l1 f by (simp add: node_at_def)
    let ?ok = "?p \<noteq> [] \<and> deletable e ?p \<and> ?R = []"
    have v: "delete_visit e f (?ctx1, ?fs1) =
        Normal (record_attempts ?ctx1 [(f, ?ok)], if ?ok then put ?fs1 ?p None else ?fs1)"
      using delete_visit_node[OF n1, of ?ctx1] by (simp add: Let_def)
    have rt: "residual e f t = (if ?ok then None else Some (Directory a l m ?R))"
      unfolding Directory residual_Directory by auto
    have fin: "(if ?ok then put ?fs1 ?p None else ?fs1) = put fs ?p (residual e f t)"
    proof (cases ?ok)
      case True
      have "put ?fs1 ?p None = put fs ?p None"
        by (rule put_put) (use l a True in simp_all)
      then show ?thesis unfolding rt using True by simp
    next
      case False
      then show ?thesis unfolding rt by auto
    qed
    have "attempts e f t
        = concat (map (\<lambda>k. attempts e (File2 f (name k)) k) ks) @ [(f, residual e f t = None)]"
      unfolding Directory by (rule attempts.simps(2))
    moreover have "(residual e f t = None) = ?ok" unfolding rt by simp
    ultimately have att: "attempts e f t
        = concat (map (\<lambda>k. attempts e (File2 f (name k)) k) ks) @ [(f, ?ok)]"
      by simp
    show ?thesis
      using Suc.prems(2) Directory loop' n1 v fin
      by (simp add: then_do_def isDirectory_def isFile_def is_dir_def is_file_def listFiles_def
          att[unfolded Directory] record_attempts_simps del: attempts.simps residual.simps)
  qed
qed

lemma wf_lookup: "wf_node fs \<Longrightarrow> lookup fs p = Some t \<Longrightarrow> wf_node t"
proof (induction p arbitrary: fs)
  case Nil then show ?case by simp
next
  case (Cons s p)
  then obtain a l m ks k where fs: "fs = Directory a l m ks"
    and k: "find (\<lambda>k. name k = s) ks = Some k" and t: "lookup k p = Some t"
    by (cases fs) (auto split: option.splits)
  have "k \<in> set ks" using k by (auto simp: find_Some_iff)
  then have "wf_node k" using Cons.prems(1) fs by simp
  then show ?case using Cons.IH t by blast
qed

lemma wf_sole: "wf_node fs \<Longrightarrow> lookup fs p = Some t \<Longrightarrow> sole fs p"
proof (cases "p = []")
  case True then show ?thesis by (simp add: sole_def)
next
  case False
  assume wf: "wf_node fs" and l: "lookup fs p = Some t"
  have p: "p = butlast p @ [last p]" using False by simp
  have "lookup fs (butlast p @ [last p]) = Some t" using l p by simp
  then obtain d where d: "lookup fs (butlast p) = Some d" and dt: "lookup d [last p] = Some t"
    unfolding lookup_append by (cases "lookup fs (butlast p)") auto
  obtain a l' m ks where dd: "d = Directory a l' m ks" and f: "find (\<lambda>k. name k = last p) ks = Some t"
    using dt by (cases d) (auto split: option.splits)
  have "wf_node d" by (rule wf_lookup[OF wf d])
  then have dist: "distinct (map name ks)" using dd by simp
  have mem: "t \<in> set ks" "name t = last p" using f by (auto simp: find_Some_iff)
  have "length (filter (\<lambda>k. name k = last p) ks) = 1"
    using filter_name_distinct[OF dist mem(1)] mem(2) by simp
  then show ?thesis using d dd by (simp add: sole_def)
qed


section \<open>\<open>deleteDirectory\<close>\<close>

text \<open>
  C7. For an existing directory of a well-formed file system, and fuel above the height
  of the directory, \<open>deleteDirectory\<close> calls \<open>File.delete()\<close> once on every node of the
  subtree, in post-order (the entries of a directory, each with all below it, before the
  directory itself), also after a call has failed; it returns true exactly when every
  one of these calls succeeded. What remains is \<open>residual\<close>: every node the host lets go
  whose content is gone is gone.
\<close>

theorem deleteDirectory_post_order_best_effort:
  assumes "isAbsolute (user_dir e)"
    and "resolvePath e fm path = Inr file"
    and "wf_node fs"
    and "node_at e fs file = Some (Directory a l m ks)"
    and "height (Directory a l m ks) < n"
  shows "\<exists>ctx fs'. delete_walk n e fs file = Some (Normal (ctx, fs')) \<and>
           deleteDirectory n e fm fs path = Some (success ctx, fs') \<and>
           map fst (attempted ctx) = postorder (File (getAbsolutePath e file)) (Directory a l m ks) \<and>
           success ctx = list_all snd (attempted ctx) \<and>
           attempted ctx = attempts e (File (getAbsolutePath e file)) (Directory a l m ks) \<and>
           fs' = put fs (locate e file) (residual e (File (getAbsolutePath e file)) (Directory a l m ks))"
proof -
  let ?t = "Directory a l m ks"
  let ?F = "File (getAbsolutePath e file)"
  let ?ctx0 = "\<lparr> success = True, attempted = [] \<rparr>"
  have fne: "file \<noteq> []" by (rule node_at_nonempty[OF assms(4)])
  have l: "lookup fs (locate e file) = Some ?t" using assms(4) fne by (simp add: node_at_def)
  have wft: "wf_node ?t" by (rule wf_lookup[OF assms(3) l])
  have nF: "node_at e fs ?F = Some ?t" by (rule node_at_root_file[OF assms(1,4)])
  have locF: "locate e ?F = locate e file" by (rule root_file(2)[OF assms(1)])
  have so: "sole fs (locate e ?F)" unfolding locF by (rule wf_sole[OF assms(3) l])
  have w: "walk n e (delete_visit e) (delete_visit e) PostOrder ?F (?ctx0, fs) =
      Some (Normal (record_attempts ?ctx0 (attempts e ?F ?t), put fs (locate e ?F) (residual e ?F ?t)))"
    by (rule walk_delete[OF wft nF so assms(5)])
  let ?ctx = "record_attempts ?ctx0 (attempts e ?F ?t)"
  let ?fs' = "put fs (locate e file) (residual e ?F ?t)"
  have dw: "delete_walk n e fs file = Some (Normal (?ctx, ?fs'))"
    using w nF locF by (simp add: delete_walk_def traverseDirectory_def Let_def exists_def)
  have dd: "deleteDirectory n e fm fs path = Some (success ?ctx, ?fs')"
    using assms(2,4) dw by (simp add: deleteDirectory_def exists_def isDirectory_def is_dir_def)
  have at: "attempted ?ctx = attempts e ?F ?t" "success ?ctx = list_all snd (attempted ?ctx)"
    by (simp_all add: record_attempts_def)
  have po: "map fst (attempted ?ctx) = postorder ?F ?t"
    unfolding at(1) by (rule map_fst_attempts)
  show ?thesis using dw dd at po by blast
qed

lemma locked_env_absolute: "isAbsolute (user_dir locked_env)"
  by code_simp

lemma small_tree_wf_all: "wf_node small_tree"
  by code_simp

lemma locked_base:
  "resolvePath locked_env (sandbox ''/base'') ''/base'' = Inr ''/base''"
  "node_at locked_env small_tree ''/base'' = Some (Directory ''base'' 4096 0
          [RegularFile ''a.txt'' ''hello!'' 5,
           Directory ''sub'' 4096 3 [RegularFile ''b.txt'' ''world!'' 7],
           Directory ''empty'' 4096 4 []])"
  "File (getAbsolutePath locked_env ''/base'') = ''/base''"
  "locate locked_env ''/base'' = [''base'']"
  by code_simp+

lemma locked_attempts:
  "attempts locked_env ''/base'' (Directory ''base'' 4096 0
          [RegularFile ''a.txt'' ''hello!'' 5,
           Directory ''sub'' 4096 3 [RegularFile ''b.txt'' ''world!'' 7],
           Directory ''empty'' 4096 4 []])
   = [(''/base/a.txt'', True), (''/base/sub/b.txt'', False), (''/base/sub'', False),
      (''/base/empty'', True), (''/base'', False)]"
  by code_simp

lemma locked_residual:
  "put small_tree [''base''] (residual locked_env ''/base'' (Directory ''base'' 4096 0
          [RegularFile ''a.txt'' ''hello!'' 5,
           Directory ''sub'' 4096 3 [RegularFile ''b.txt'' ''world!'' 7],
           Directory ''empty'' 4096 4 []]))
   = Directory [] 4096 0
       [Directory ''base'' 4096 0
          [Directory ''sub'' 4096 3 [RegularFile ''b.txt'' ''world!'' 7]]]"
  by code_simp

theorem deleteDirectory_post_order_best_effort_witness:
  "deleteDirectory 5 locked_env (sandbox ''/base'') small_tree ''/base''
     = Some (False,
         Directory [] 4096 0
           [Directory ''base'' 4096 0
              [Directory ''sub'' 4096 3 [RegularFile ''b.txt'' ''world!'' 7]]]) \<and>
   (\<exists>ctx fs'. delete_walk 5 locked_env small_tree ''/base'' = Some (Normal (ctx, fs')) \<and>
      attempted ctx
        = [(''/base/a.txt'', True), (''/base/sub/b.txt'', False), (''/base/sub'', False),
           (''/base/empty'', True), (''/base'', False)])"
proof -
  have h: "height (Directory ''base'' 4096 0
          [RegularFile ''a.txt'' ''hello!'' 5,
           Directory ''sub'' 4096 3 [RegularFile ''b.txt'' ''world!'' 7],
           Directory ''empty'' 4096 4 []]) < 5"
    by (rule small_tree_height(1))
  from deleteDirectory_post_order_best_effort[OF locked_env_absolute locked_base(1)
      small_tree_wf_all locked_base(2) h]
  show ?thesis
    unfolding locked_base(3,4) locked_attempts locked_residual by auto
qed

section \<open>Frames of the operations on the tree\<close>

lemma find_set_child_other:
  assumes "s' \<noteq> s" "\<And>n. r = Some n \<Longrightarrow> name n = s"
  shows "find (\<lambda>k. name k = s') (set_child s r ks) = find (\<lambda>k. name k = s') ks"
  using assms by (induction ks) (auto split: option.splits)

text \<open>Putting a node named as its path ends leaves every path alone that is neither
  below nor above that path.\<close>

lemma lookup_alter_other:
  assumes "\<not> prefix p q" "\<not> prefix q p" "p \<noteq> []" "name n = last p"
  shows "lookup_opt (alter (\<lambda>_. Some n) p x) q = lookup_opt x q"
  using assms
proof (induction p arbitrary: q x)
  case Nil then show ?case by simp
next
  case (Cons s p)
  obtain s' q' where q: "q = s' # q'" using Cons.prems(2) by (cases q) auto
  show ?case
  proof (cases x)
    case None then show ?thesis by simp
  next
    case (Some t)
    show ?thesis
    proof (cases t)
      case (RegularFile a c m)
      then show ?thesis using Some by simp
    next
      case (Directory a l m ks)
      let ?c = "find (\<lambda>k. name k = s) ks"
      let ?X = "alter (\<lambda>_. Some n) p ?c"
      have nX: "\<And>n'. ?X = Some n' \<Longrightarrow> name n' = s"
      proof -
        fix n' assume X: "?X = Some n'"
        show "name n' = s"
        proof (cases "p = []")
          case True then show ?thesis using X Cons.prems(4) by simp
        next
          case False
          then obtain k where k: "?c = Some k" using X alter_None[OF False] by (cases ?c) auto
          then have "name k = s" by (auto simp: find_Some_iff)
          then show ?thesis using name_alter[OF False X[unfolded k]] by simp
        qed
      qed
      show ?thesis
      proof (cases "s' = s")
        case False
        then show ?thesis
          using Some Directory q find_set_child_other[OF False nX] by (simp add: lookup_opt_def)
      next
        case True
        then have np: "\<not> prefix p q'" "\<not> prefix q' p" using Cons.prems(1,2) q by auto
        then have pne: "p \<noteq> []" by auto
        have ih: "lookup_opt ?X q' = lookup_opt ?c q'"
          using Cons.IH[OF np pne] Cons.prems(4) pne by simp
        show ?thesis
        proof (cases ?c)
          case None
          then have "?X = None" using alter_None[OF pne] by simp
          then show ?thesis using Some Directory q True None set_child_self[of s ks]
            by (simp add: lookup_opt_def)
        next
          case (Some k)
          then obtain k' where k': "?X = Some k'" using alter_Some[OF pne, of _ k] by auto
          have "find (\<lambda>k. name k = s) (set_child s ?X ks) = ?X"
            by (rule find_set_child) (use nX k' in auto)
          then show ?thesis using \<open>x = Some t\<close> Directory q True ih Some k'
            by (simp add: lookup_opt_def)
        qed
      qed
    qed
  qed
qed

lemma lookup_put_other:
  assumes "\<not> prefix p q" "\<not> prefix q p" "name n = last p"
  shows "lookup (put fs p (Some n)) q = lookup fs q"
proof -
  have p: "p \<noteq> []" using assms(1) by auto
  obtain fs' where fs': "alter (\<lambda>_. Some n) p (Some fs) = Some fs'"
    using alter_Some[OF p, of _ fs] by auto
  have "lookup_opt (alter (\<lambda>_. Some n) p (Some fs)) q = lookup_opt (Some fs) q"
    by (rule lookup_alter_other[OF assms(1,2) p assms(3)])
  then show ?thesis using fs' by (simp add: put_def)
qed

text \<open>A node put into an existing directory stands at its path.\<close>

lemma lookup_put_new:
  assumes "is_dir (lookup fs (butlast p))" "p \<noteq> []" "name n = last p"
  shows "lookup (put fs p (Some n)) p = Some n"
proof -
  let ?q = "butlast p" and ?s = "last p"
  obtain a l m ks where q: "lookup fs ?q = Some (Directory a l m ks)"
    using assms(1) by (auto simp: is_dir_def split: option.splits node.splits)
  have a: "?q = [] \<or> name (Directory a l m (set_child ?s (Some n) ks)) = last ?q"
    using lookup_snoc_name[of fs "butlast ?q" "last ?q"] q by (cases "?q = []") auto
  have "put fs (?q @ [?s]) (Some n) = put fs ?q (Some (Directory a l m (set_child ?s (Some n) ks)))"
    by (rule put_child[OF q])
  moreover have "lookup (put fs ?q (Some (Directory a l m (set_child ?s (Some n) ks)))) ?q
      = Some (Directory a l m (set_child ?s (Some n) ks))"
    by (rule lookup_put) (use q a in simp_all)
  moreover have "find (\<lambda>k. name k = ?s) (set_child ?s (Some n) ks) = Some n"
    by (rule find_set_child) (use assms(3) in auto)
  ultimately have "lookup (put fs (?q @ [?s]) (Some n)) (?q @ [?s]) = Some n"
    by (simp add: lookup_append)
  then show ?thesis using assms(2) by simp
qed

lemma lookup_put_below:
  assumes "is_dir (lookup fs (butlast p))" "p \<noteq> []" "name n = last p"
  shows "lookup (put fs p (Some n)) (p @ r) = lookup n r"
  by (simp add: lookup_append lookup_put_new[OF assms])

text \<open>The directories above a path stay directories.\<close>

lemma is_dir_above:
  "lookup fs (q @ r) \<noteq> None \<Longrightarrow> r \<noteq> [] \<Longrightarrow> is_dir (lookup fs q)"
proof -
  assume l: "lookup fs (q @ r) \<noteq> None" and r: "r \<noteq> []"
  obtain t where t: "lookup fs q = Some t" using l by (auto simp: lookup_append split: option.splits)
  obtain s r' where "r = s # r'" using r by (cases r) auto
  then have "lookup t (s # r') \<noteq> None" using l t by (simp add: lookup_append)
  then show ?thesis using t by (cases t) (auto simp: is_dir_def)
qed

lemma is_dir_put_above:
  assumes "lookup fs q \<noteq> None" "r \<noteq> []"
  shows "is_dir (lookup (put fs (q @ r) x) q) = is_dir (lookup fs q)"
proof -
  obtain t where t: "lookup fs q = Some t" using assms(1) by auto
  have "alter (\<lambda>_. x) (q @ r) (Some fs) = alter (alter (\<lambda>_. x) r) q (Some fs)"
    by (rule alter_append)
  also have "\<dots> = alter (\<lambda>_. alter (\<lambda>_. x) r (Some t)) q (Some fs)"
    by (rule alter_at) (simp add: t)
  finally have eq: "alter (\<lambda>_. x) (q @ r) (Some fs) = alter (\<lambda>_. alter (\<lambda>_. x) r (Some t)) q (Some fs)" .
  obtain t' where t': "alter (\<lambda>_. x) r (Some t) = Some t'"
    using alter_Some[OF assms(2), of _ t] by auto
  have nt: "name t' = name t" by (rule name_alter[OF assms(2) t'])
  have kind: "is_dir (Some t') = is_dir (Some t)"
    using t' assms(2) by (cases r; cases t) (auto simp: is_dir_def)
  have qn: "q = [] \<or> name t' = last q"
    using lookup_snoc_name[of fs "butlast q" "last q"] t nt by (cases "q = []") auto
  have "put fs (q @ r) x = put fs q (Some t')"
    using eq t' by (simp add: put_def)
  moreover have "lookup (put fs q (Some t')) q = Some t'"
    by (rule lookup_put) (use t qn in simp_all)
  ultimately show ?thesis using kind t by simp
qed

text \<open>Canonical names are entry names.\<close>

lemma canon_step_valid:
  "\<forall>s \<in> set st. valid_name s \<Longrightarrow> sep \<notin> set x \<Longrightarrow> \<forall>s \<in> set (canon_step st x). valid_name s"
  by (cases st) (auto simp: canon_step_def valid_name_def)

lemma foldl_canon_valid:
  "\<forall>s \<in> set st. valid_name s \<Longrightarrow> \<forall>x \<in> set xs. sep \<notin> set x \<Longrightarrow>
   \<forall>s \<in> set (foldl canon_step st xs). valid_name s"
proof (induction xs arbitrary: st)
  case Nil then show ?case by simp
next
  case (Cons x xs)
  have "\<forall>s \<in> set (canon_step st x). valid_name s"
    by (rule canon_step_valid) (use Cons.prems in auto)
  then show ?case using Cons by simp
qed

lemma canon_names_valid: "\<forall>s \<in> set (canon_names f). valid_name s"
proof -
  have "\<forall>x \<in> set (splitOn sep f). sep \<notin> set x" by (auto dest: splitOn_parts_free)
  then have "\<forall>s \<in> set (foldl canon_step [] (splitOn sep f)). valid_name s"
    by (intro foldl_canon_valid) auto
  then show ?thesis by (simp add: canon_names_def)
qed

lemma locate_valid: "\<forall>s \<in> set (locate e f). valid_name s"
  by (simp add: locate_def canon_names_valid)

lemma path_string_slashed: "p \<noteq> [] \<Longrightarrow> path_string p = slashed p"
proof -
  have "xs \<noteq> [] \<Longrightarrow> sep # joinWith sep xs = concat (map (\<lambda>s. sep # s) xs)" for xs :: "string list"
    by (induction sep xs rule: joinWith.induct) auto
  then show "p \<noteq> [] \<Longrightarrow> path_string p = slashed p"
    by (simp add: path_string_def slashed_def)
qed

lemma prefix_free_segment:
  assumes "sep \<notin> set s" "sep \<notin> set t" "prefix (s @ sep # X) (t @ Y)" "Y = [] \<or> hd Y = sep"
  shows "s = t \<and> prefix (sep # X) Y"
  using assms
proof (induction s arbitrary: t)
  case Nil
  show ?case
  proof (cases t)
    case Nil then show ?thesis using Nil.prems by simp
  next
    case (Cons c cs)
    then have "c = sep" using Nil.prems(3) by simp
    then show ?thesis using Nil.prems(2) Cons by simp
  qed
next
  case (Cons c s)
  show ?case
  proof (cases t)
    case Nil
    then have "prefix (c # s @ sep # X) Y" using Cons.prems(3) by simp
    then have "Y \<noteq> [] \<and> hd Y = c" by (cases Y) auto
    then have "c = sep" using Cons.prems(4) by auto
    then show ?thesis using Cons.prems(1) by simp
  next
    case (Cons c' t')
    then have "c = c'" "prefix (s @ sep # X) (t' @ Y)" using Cons.prems(3) by simp_all
    moreover have "sep \<notin> set s" "sep \<notin> set t'" using Cons.prems(1,2) \<open>t = c' # t'\<close> by simp_all
    ultimately show ?thesis using Cons.IH[of t'] Cons.prems(4) \<open>t = c' # t'\<close> by simp
  qed
qed

lemma slashed_head: "slashed p = [] \<or> hd (slashed p) = sep"
  by (cases p) (simp_all add: slashed_def)

lemma prefix_slashed:
  assumes "\<forall>s \<in> set d. sep \<notin> set s" "\<forall>s \<in> set p. sep \<notin> set s"
    and "prefix (slashed d @ [sep]) (slashed p)"
  shows "prefix d p"
  using assms
proof (induction d arbitrary: p)
  case Nil then show ?case by simp
next
  case (Cons s d)
  obtain t p' where p: "p = t # p'"
    using Cons.prems(3) by (cases p) (auto simp: slashed_def)
  have "prefix (s @ sep # tl (slashed d @ [sep])) (t @ slashed p')"
    using Cons.prems(3) p slashed_head[of d]
    by (cases "slashed d") (auto simp: slashed_def)
  then have st: "s = t \<and> prefix (sep # tl (slashed d @ [sep])) (slashed p')"
    by (rule prefix_free_segment[rotated 2]) (use Cons.prems(1,2) p slashed_head[of p'] in auto)
  have "sep # tl (slashed d @ [sep]) = slashed d @ [sep]"
    using slashed_head[of d] by (cases "slashed d") auto
  then have "prefix (slashed d @ [sep]) (slashed p')" using st by simp
  then have "prefix d p'" using Cons.IH[of p'] Cons.prems(1,2) p by simp
  then show ?case using st p by simp
qed

lemma with_separator_path_string:
  assumes "\<forall>s \<in> set d. valid_name s"
  shows "with_separator (path_string d) = (if d = [] then [sep] else slashed d @ [sep])"
proof (cases "d = []")
  case True
  then show ?thesis by (simp add: with_separator_def path_string_def endsWith_def)
next
  case False
  then have "last d \<in> set d" by simp
  then have v: "last d \<noteq> []" "sep \<notin> set (last d)" using assms by (auto simp: valid_name_def)
  have "slashed d = slashed (butlast d) @ sep # last d"
    using False by (metis (no_types, lifting) append_butlast_last_id concat.simps(1) concat.simps(2)
        concat_append list.simps(8) list.simps(9) map_append self_append_conv slashed_def)
  then have "last (slashed d) = last (last d)" using v(1) by simp
  then have "last (slashed d) \<noteq> sep" using v by (metis last_in_set)
  moreover have "slashed d \<noteq> []" using False by (cases d) (simp_all add: slashed_def)
  ultimately have "\<not> endsWith (slashed d) [sep]"
    by (auto simp: endsWith_def suffix_def)
  then show ?thesis using False by (simp add: with_separator_def path_string_slashed)
qed

lemma startsWith_canonical:
  assumes "startsWith (getCanonicalPath e f) (with_separator (getCanonicalPath e g))"
  shows "prefix (locate e g) (locate e f)"
proof (cases "locate e g = []")
  case True then show ?thesis by simp
next
  case False
  have vg: "\<forall>s \<in> set (locate e g). valid_name s" and vf: "\<forall>s \<in> set (locate e f). valid_name s"
    by (rule locate_valid)+
  have pre: "prefix (slashed (locate e g) @ [sep]) (path_string (locate e f))"
    using assms False with_separator_path_string[OF vg]
    by (simp add: startsWith_def getCanonicalPath_def)
  have fne: "locate e f \<noteq> []"
  proof
    assume "locate e f = []"
    then have "prefix (slashed (locate e g) @ [sep]) [sep]" using pre by (simp add: path_string_def)
    then show False using False by (cases "locate e g") (auto simp: slashed_def)
  qed
  show ?thesis
    by (rule prefix_slashed) (use vg vf pre fne in \<open>auto simp: valid_name_def path_string_slashed\<close>)
qed

lemma no_new_file_refl: "no_new_file fs fs"
  by (simp add: no_new_file_def)

lemma no_new_file_trans: "no_new_file a b \<Longrightarrow> no_new_file b c \<Longrightarrow> no_new_file a c"
  unfolding no_new_file_def by metis

lemma no_new_file_outside_refl: "no_new_file_outside d fs fs"
  by (simp add: no_new_file_outside_def)

lemma no_new_file_outside_trans:
  "no_new_file_outside d a b \<Longrightarrow> no_new_file_outside d b c \<Longrightarrow> no_new_file_outside d a c"
  unfolding no_new_file_outside_def by metis

lemma no_new_file_outsideI: "no_new_file fs fs' \<Longrightarrow> no_new_file_outside d fs fs'"
  by (simp add: no_new_file_def no_new_file_outside_def)

lemma not_file_dir: "is_dir x \<Longrightarrow> \<not> is_file x"
  by (auto simp: is_dir_def is_file_def split: option.splits node.splits)

lemma prefix_cases:
  obtains (below) r where "q = p @ r" | (above) r where "p = q @ r" "r \<noteq> []"
  | (apart) "\<not> prefix p q" "\<not> prefix q p"
  by (metis prefix_def append_Nil2)

lemma put_frame:
  assumes d: "is_dir (lookup fs (butlast p))" and p: "p \<noteq> []" and n: "name n = last p"
    and q: "\<not> prefix p q" and f: "is_file (lookup (put fs p (Some n)) q)"
  shows "lookup (put fs p (Some n)) q = lookup fs q"
proof (cases "prefix q p")
  case False
  show ?thesis by (rule lookup_put_other[OF q False n])
next
  case True
  then obtain r where r: "p = q @ r" by (auto simp: prefix_def)
  have rne: "r \<noteq> []" using q r by auto
  have bp: "butlast p = q @ butlast r" using r rne by (simp add: butlast_append)
  obtain t where t: "lookup fs (q @ butlast r) = Some t"
    using d bp by (cases "lookup fs (butlast p)") (simp_all add: is_dir_def)
  have ex: "lookup fs q \<noteq> None"
    using t by (cases "lookup fs q") (simp_all add: lookup_append)
  have "is_dir (lookup fs q)"
  proof (cases "butlast r = []")
    case True
    then show ?thesis using d bp by simp
  next
    case False
    show ?thesis by (rule is_dir_above[of fs q "butlast r"]) (simp_all add: t False)
  qed
  then have "is_dir (lookup (put fs (q @ r) (Some n)) q)"
    using is_dir_put_above[OF ex rne, of "Some n"] by simp
  then have "\<not> is_file (lookup (put fs p (Some n)) q)"
    using r not_file_dir by simp
  then show ?thesis using f by simp
qed

lemma put_empty_dir_no_new_file:
  assumes d: "is_dir (lookup fs (butlast p))" and p: "p \<noteq> []"
  shows "no_new_file fs (put fs p (Some (Directory (last p) l m [])))"
  unfolding no_new_file_def
proof (intro allI impI)
  fix q
  let ?n = "Directory (last p) l m []"
  assume f: "is_file (lookup (put fs p (Some ?n)) q)"
  show "lookup (put fs p (Some ?n)) q = lookup fs q"
  proof (cases "prefix p q")
    case False
    show ?thesis by (rule put_frame[OF d p _ False f]) simp
  next
    case True
    then obtain r where r: "q = p @ r" by (auto simp: prefix_def)
    have "lookup (put fs p (Some ?n)) (p @ r) = lookup ?n r"
      by (rule lookup_put_below[OF d p]) simp
    then have "\<not> is_file (lookup (put fs p (Some ?n)) q)"
      unfolding r by (cases r) (simp_all add: is_file_def)
    then show ?thesis using f by simp
  qed
qed

lemma mkdir_at_no_new_file: "no_new_file fs (snd (mkdir_at e fs p))"
  by (simp add: mkdir_at_def no_new_file_refl put_empty_dir_no_new_file)


lemma mkdirs_at_no_new_file: "no_new_file fs (snd (mkdirs_at e fs p))"
proof (induction e fs p rule: mkdirs_at.induct)
  case (1 e fs p)
  show ?case
  proof (cases "lookup fs p \<noteq> None \<or> fst (mkdir_at e fs p) \<or> p = []")
    case True
    then show ?thesis
      using mkdir_at_no_new_file[of fs e p]
      by (subst mkdirs_at.simps) (auto simp: no_new_file_refl)
  next
    case False
    obtain b fs1 where r: "mkdirs_at e fs (butlast p) = (b, fs1)" by (cases "mkdirs_at e fs (butlast p)")
    have ih: "no_new_file fs fs1" using "1.IH" False r by auto
    have "no_new_file fs1 (snd (mkdir_at e fs1 p))" by (rule mkdir_at_no_new_file)
    then have "no_new_file fs (snd (mkdir_at e fs1 p))" using ih no_new_file_trans by blast
    then show ?thesis
      using False r ih by (subst mkdirs_at.simps) (auto simp: no_new_file_refl)
  qed
qed

lemma mkdirs_no_new_file: "no_new_file fs (snd (mkdirs e fs f))"
  by (simp add: mkdirs_def no_new_file_refl mkdirs_at_no_new_file)

text \<open>Opening and writing a file below \<open>d\<close> leaves the regular files outside \<open>d\<close>.\<close>

lemma FileOutputStream_frame:
  assumes "FileOutputStream e fs f = Inr fs'" "prefix d (locate e f)"
  shows "no_new_file_outside d fs fs'"
proof -
  let ?p = "locate e f"
  have c: "?p \<noteq> []" "is_dir (lookup fs (butlast ?p))"
    and fs': "fs' = put fs ?p (Some (RegularFile (last ?p) [] (clock e)))"
    using assms(1) by (auto simp: FileOutputStream_def Let_def split: if_splits)
  show ?thesis
    unfolding no_new_file_outside_def fs'
  proof (intro allI impI)
    fix q
    assume "\<not> prefix d q"
    then have np: "\<not> prefix ?p q" using assms(2) by (meson prefix_order.trans)
    assume "is_file (lookup (put fs ?p (Some (RegularFile (last ?p) [] (clock e)))) q)"
    then show "lookup (put fs ?p (Some (RegularFile (last ?p) [] (clock e)))) q = lookup fs q"
      by (intro put_frame[OF c(2) c(1) _ np]) simp_all
  qed
qed

lemma FileOutputStream_is_file:
  assumes "FileOutputStream e fs f = Inr fs'"
  shows "is_dir (lookup fs' (butlast (locate e f)))" "locate e f \<noteq> []"
    "lookup fs' (locate e f) = Some (RegularFile (last (locate e f)) [] (clock e))"
proof -
  let ?p = "locate e f"
  have c: "?p \<noteq> []" "is_dir (lookup fs (butlast ?p))"
    and fs': "fs' = put fs ?p (Some (RegularFile (last ?p) [] (clock e)))"
    using assms(1) by (auto simp: FileOutputStream_def Let_def split: if_splits)
  show "?p \<noteq> []" by (rule c)
  show "lookup fs' ?p = Some (RegularFile (last ?p) [] (clock e))"
    unfolding fs' by (rule lookup_put_new[OF c(2) c(1)]) simp
  then have "lookup fs' (butlast ?p @ [last ?p]) \<noteq> None" using c(1) by simp
  then show "is_dir (lookup fs' (butlast ?p))" by (rule is_dir_above) simp
qed

lemma write_bytes_frame:
  assumes "is_dir (lookup fs (butlast (locate e f)))" "locate e f \<noteq> []" "prefix d (locate e f)"
  shows "no_new_file_outside d fs (write_bytes e fs f bytes)"
  unfolding no_new_file_outside_def write_bytes_def Let_def
proof (intro allI impI)
  let ?p = "locate e f"
  fix q
  assume "\<not> prefix d q"
  then have np: "\<not> prefix ?p q" using assms(3) by (meson prefix_order.trans)
  assume "is_file (lookup (put fs ?p (Some (RegularFile (last ?p) bytes (clock e)))) q)"
  then show "lookup (put fs ?p (Some (RegularFile (last ?p) bytes (clock e)))) q = lookup fs q"
    by (intro put_frame[OF assms(1) assms(2) _ np]) simp_all
qed

section \<open>\<open>unzip\<close> and the entries that leave the destination\<close>

lemma mkdirs_frame: "mkdirs e fs f = (b, fs') \<Longrightarrow> no_new_file_outside d fs fs'"
  using mkdirs_no_new_file[of fs e f] by (simp add: no_new_file_outsideI)

lemma unzip_entry_frame:
  "no_new_file_outside (locate e dest) fs
     (state_of (unzip_entry e dest (with_separator (getCanonicalPath e dest)) z fs))"
proof (cases "startsWith (getCanonicalPath e (File2 dest (fst z))) (with_separator (getCanonicalPath e dest))")
  case False
  then show ?thesis by (simp add: unzip_entry_def Let_def no_new_file_outside_refl)
next
  case True
  let ?d = "locate e dest" and ?f = "File2 dest (fst z)"
  have under: "prefix ?d (locate e ?f)" by (rule startsWith_canonical[OF True])
  show ?thesis
  proof (cases "endsWith (fst z) ''/''")
    case isdir: True
    show ?thesis
    proof (cases "isDirectory e fs ?f")
      case True
      then show ?thesis using \<open>startsWith _ _\<close> isdir
        by (simp add: unzip_entry_def Let_def no_new_file_outside_refl)
    next
      case False
      obtain b fs' where m: "mkdirs e fs ?f = (b, fs')" by (cases "mkdirs e fs ?f")
      have "no_new_file_outside ?d fs fs'" by (rule mkdirs_frame[OF m])
      then show ?thesis using \<open>startsWith _ _\<close> isdir False m
        by (cases b) (simp_all add: unzip_entry_def Let_def)
    qed
  next
    case isfile: False
    show ?thesis
    proof (cases "getParentFile ?f")
      case None
      then show ?thesis using \<open>startsWith _ _\<close> isfile
        by (simp add: unzip_entry_def Let_def no_new_file_outside_refl)
    next
      case (Some parent)
      obtain b fs' where m: "(if \<not> isDirectory e fs parent then mkdirs e fs parent else (True, fs)) = (b, fs')"
        by (cases "if \<not> isDirectory e fs parent then mkdirs e fs parent else (True, fs)")
      have f1: "no_new_file_outside ?d fs fs'"
        using m mkdirs_frame[of e fs parent b fs' ?d]
        by (auto simp: no_new_file_outside_refl split: if_splits)
      show ?thesis
      proof (cases b)
        case False
        then show ?thesis using \<open>startsWith _ _\<close> isfile Some m f1
          by (simp add: unzip_entry_def Let_def)
      next
        case True
        show ?thesis
        proof (cases "FileOutputStream e fs' ?f")
          case (Inl x)
          then show ?thesis using \<open>startsWith _ _\<close> isfile Some m f1 True
            by (simp add: unzip_entry_def Let_def)
        next
          case (Inr fs'')
          have f2: "no_new_file_outside ?d fs' fs''"
            by (rule FileOutputStream_frame[OF Inr under])
          have f3: "no_new_file_outside ?d fs'' (write_bytes e fs'' ?f (snd z))"
            by (rule write_bytes_frame[OF FileOutputStream_is_file(1,2)[OF Inr] under])
          have "no_new_file_outside ?d fs (write_bytes e fs'' ?f (snd z))"
            using f1 f2 f3 no_new_file_outside_trans by blast
          then show ?thesis using \<open>startsWith _ _\<close> isfile Some m True Inr
            by (simp add: unzip_entry_def Let_def)
        qed
      qed
    qed
  qed
qed

lemma unzip_entries_frame:
  "no_new_file_outside (locate e dest) fs
     (state_of (unzip_entries e dest (with_separator (getCanonicalPath e dest)) zs fs))"
proof (induction zs arbitrary: fs)
  case Nil
  show ?case by (simp add: no_new_file_outside_refl)
next
  case (Cons z zs)
  let ?p = "with_separator (getCanonicalPath e dest)"
  have one: "no_new_file_outside (locate e dest) fs (state_of (unzip_entry e dest ?p z fs))"
    by (rule unzip_entry_frame)
  show ?case
  proof (cases "unzip_entry e dest ?p z fs")
    case (Abrupt x s)
    then show ?thesis using one by simp
  next
    case (Normal s)
    then have "no_new_file_outside (locate e dest) fs s" using one by simp
    then show ?thesis using Cons[of s] Normal no_new_file_outside_trans by auto
  qed
qed

text \<open>The loop stops at the first entry that fails the test.\<close>

lemma unzip_entries_append:
  "unzip_entries e dest p (xs @ ys) fs =
     (case unzip_entries e dest p xs fs of
        Abrupt x s \<Rightarrow> Abrupt x s
      | Normal s \<Rightarrow> unzip_entries e dest p ys s)"
  by (induction xs arbitrary: fs) (auto split: outcome.splits)

lemma unzip_entries_slip:
  assumes "\<not> startsWith (getCanonicalPath e (File2 dest (fst bad))) p"
  shows "\<exists>x. unzip_entries e dest p (before @ bad # after) fs
           = Abrupt x (state_of (unzip_entries e dest p before fs))"
  using assms
  by (cases "unzip_entries e dest p before fs")
     (simp_all add: unzip_entries_append unzip_entry_def Let_def)


lemma made_destination_frame: "no_new_file_outside d fs (made_destination e fs dest)"
  by (simp add: made_destination_def no_new_file_outside_refl no_new_file_outsideI
      mkdirs_no_new_file)

lemma unzip_reaches_loop:
  assumes "resolvePath e fm zipFilePath = Inr zipFile"
    and "exists e fs zipFile" and "\<not> isDirectory e fs zipFile"
    and "unzip_destination e fm zipFile resultFolderPath = Some dest"
    and "FileInputStream e (made_destination e fs dest) zipFile = Inr bytes"
    and "unzip_bytes codec bytes = Some entries"
  shows "unzip e codec fm fs zipFilePath resultFolderPath =
     (case unzip_entries e dest (with_separator (getCanonicalPath e dest)) entries
             (made_destination e fs dest) of
        Abrupt x fs2 \<Rightarrow> (None, fs2)
      | Normal fs2 \<Rightarrow> (Some (getAbsolutePath e dest), fs2))"
  using assms by (simp add: unzip_def Let_def)

text \<open>
  Claim C2. When the archive that \<open>unzip\<close> reads holds an entry whose output path (the
  destination joined with the entry's name, made canonical) fails the test of \<open>unzip\<close>
  (it does not start with the canonical destination followed by the separator), then
  \<open>unzip\<close> returns \<open>null\<close>, no regular file outside the destination is created or
  changed, and the run stops at the first such entry: the file tree is the one left by
  the entries before it, and no later entry is looked at.
\<close>

theorem unzip_aborts_on_zip_slip:
  assumes "resolvePath e fm zipFilePath = Inr zipFile"
    and "exists e fs zipFile" and "\<not> isDirectory e fs zipFile"
    and "unzip_destination e fm zipFile resultFolderPath = Some dest"
    and "FileInputStream e (made_destination e fs dest) zipFile = Inr bytes"
    and "unzip_bytes codec bytes = Some entries"
    and "bad \<in> set entries"
    and "\<not> startsWith (getCanonicalPath e (File2 dest (fst bad)))
             (with_separator (getCanonicalPath e dest))"
  shows "fst (unzip e codec fm fs zipFilePath resultFolderPath) = None \<and>
     no_new_file_outside (locate e dest) fs
       (snd (unzip e codec fm fs zipFilePath resultFolderPath)) \<and>
     (\<exists>before first after.
        entries = before @ first # after \<and>
        (\<forall>z \<in> set before.
           startsWith (getCanonicalPath e (File2 dest (fst z)))
             (with_separator (getCanonicalPath e dest))) \<and>
        \<not> startsWith (getCanonicalPath e (File2 dest (fst first)))
             (with_separator (getCanonicalPath e dest)) \<and>
        snd (unzip e codec fm fs zipFilePath resultFolderPath)
          = state_of (unzip_entries e dest (with_separator (getCanonicalPath e dest)) before
                        (made_destination e fs dest)))"
proof -
  let ?p = "with_separator (getCanonicalPath e dest)"
  let ?fs1 = "made_destination e fs dest"
  let ?ok = "\<lambda>z. startsWith (getCanonicalPath e (File2 dest (fst z))) ?p"
  have "\<exists>z \<in> set entries. \<not> ?ok z" using assms(7,8) by blast
  then obtain before first after
    where sp: "entries = before @ first # after" and f: "\<not> ?ok first"
      and b: "\<forall>z \<in> set before. \<not> \<not> ?ok z"
    using split_list_first_prop[of entries "\<lambda>z. \<not> ?ok z"] by blast
  obtain x where run: "unzip_entries e dest ?p entries ?fs1
      = Abrupt x (state_of (unzip_entries e dest ?p before ?fs1))"
    using unzip_entries_slip[OF f, of before after ?fs1] sp by auto
  have u: "unzip e codec fm fs zipFilePath resultFolderPath
      = (None, state_of (unzip_entries e dest ?p before ?fs1))"
    by (simp add: unzip_reaches_loop[OF assms(1-6)] run)
  have "no_new_file_outside (locate e dest) ?fs1 (state_of (unzip_entries e dest ?p before ?fs1))"
    by (rule unzip_entries_frame)
  then have fr: "no_new_file_outside (locate e dest) fs (state_of (unzip_entries e dest ?p before ?fs1))"
    using made_destination_frame[of "locate e dest" fs e dest] no_new_file_outside_trans by blast
  have "\<exists>before first after.
        entries = before @ first # after \<and> (\<forall>z \<in> set before. ?ok z) \<and> \<not> ?ok first \<and>
        snd (unzip e codec fm fs zipFilePath resultFolderPath)
          = state_of (unzip_entries e dest ?p before ?fs1)"
    using sp f b u by (intro exI[of _ before] exI[of _ first] exI[of _ after]) simp
  then show ?thesis
    using fr u by simp
qed

lemma evil_archive:
  "resolvePath unix_env (sandbox ''/base'') ''evil.zip'' = Inr ''/base/evil.zip''"
  "exists unix_env evil ''/base/evil.zip''"
  "\<not> isDirectory unix_env evil ''/base/evil.zip''"
  "unzip_destination unix_env (sandbox ''/base'') ''/base/evil.zip'' None = Some ''/base/evil''"
  "FileInputStream unix_env (made_destination unix_env evil ''/base/evil'') ''/base/evil.zip''
     = Inr (zip_bytes plain_codec evil_entries)"
  "unzip_bytes plain_codec (zip_bytes plain_codec evil_entries) = Some evil_entries"
  "\<not> startsWith (getCanonicalPath unix_env (File2 ''/base/evil'' (fst (''../evil.txt'', ''bad''))))
       (with_separator (getCanonicalPath unix_env ''/base/evil''))"
  "startsWith (getCanonicalPath unix_env (File2 ''/base/evil'' (fst (''ok.txt'', ''fine''))))
       (with_separator (getCanonicalPath unix_env ''/base/evil''))"
  "locate unix_env ''/base/evil'' = [''base'', ''evil'']"
  by code_simp+

lemma evil_first_entry:
  "state_of (unzip_entries unix_env ''/base/evil''
       (with_separator (getCanonicalPath unix_env ''/base/evil'')) [(''ok.txt'', ''fine'')]
       (made_destination unix_env evil ''/base/evil''))
   = Directory [] 4096 0
       [Directory ''base'' 4096 0
          [RegularFile ''evil.zip'' (zip_bytes plain_codec evil_entries) 1,
           Directory ''evil'' 4096 0 [RegularFile ''ok.txt'' ''fine'' 0]]]"
  by code_simp

theorem unzip_aborts_on_zip_slip_witness:
  "fst (unzip unix_env plain_codec (sandbox ''/base'') evil ''evil.zip'' None) = None \<and>
   no_new_file_outside [''base'', ''evil''] evil
     (snd (unzip unix_env plain_codec (sandbox ''/base'') evil ''evil.zip'' None)) \<and>
   snd (unzip unix_env plain_codec (sandbox ''/base'') evil ''evil.zip'' None)
     = Directory [] 4096 0
         [Directory ''base'' 4096 0
            [RegularFile ''evil.zip'' (zip_bytes plain_codec evil_entries) 1,
             Directory ''evil'' 4096 0 [RegularFile ''ok.txt'' ''fine'' 0]]]"
proof -
  let ?ok = "\<lambda>z. startsWith (getCanonicalPath unix_env (File2 ''/base/evil'' (fst z)))
       (with_separator (getCanonicalPath unix_env ''/base/evil''))"
  let ?u = "unzip unix_env plain_codec (sandbox ''/base'') evil ''evil.zip'' None"
  have bad: "(''../evil.txt'', ''bad'') \<in> set evil_entries" by (simp add: evil_entries_def)
  from unzip_aborts_on_zip_slip[OF evil_archive(1-6) bad evil_archive(7)]
  have a: "fst ?u = None" and b: "no_new_file_outside [''base'', ''evil''] evil (snd ?u)"
    and c: "\<exists>before first after.
        evil_entries = before @ first # after \<and> (\<forall>z \<in> set before. ?ok z) \<and> \<not> ?ok first \<and>
        snd ?u = state_of (unzip_entries unix_env ''/base/evil''
                   (with_separator (getCanonicalPath unix_env ''/base/evil'')) before
                   (made_destination unix_env evil ''/base/evil''))"
    unfolding evil_archive(9) by blast+
  from c obtain before first after
    where sp: "evil_entries = before @ first # after" and ok: "\<forall>z \<in> set before. ?ok z"
      and no: "\<not> ?ok first"
      and st: "snd ?u = state_of (unzip_entries unix_env ''/base/evil''
                   (with_separator (getCanonicalPath unix_env ''/base/evil'')) before
                   (made_destination unix_env evil ''/base/evil''))"
    by blast
  have "before = [(''ok.txt'', ''fine'')]"
  proof (cases before)
    case Nil
    then have "first = (''ok.txt'', ''fine'')" using sp by (simp add: evil_entries_def)
    then show ?thesis using no evil_archive(8) by simp
  next
    case (Cons x xs)
    then have x: "x = (''ok.txt'', ''fine'')"
      and r: "[(''../evil.txt'', ''bad''), (''late.txt'', ''late'')] = xs @ first # after"
      using sp by (simp_all add: evil_entries_def)
    show ?thesis
    proof (cases xs)
      case Nil
      then show ?thesis using Cons x by simp
    next
      case (Cons y ys)
      then have "y = (''../evil.txt'', ''bad'')" using r by simp
      then have "\<not> ?ok y" using evil_archive(7) by simp
      moreover have "y \<in> set before" using Cons \<open>before = x # xs\<close> by simp
      ultimately show ?thesis using ok by blast
    qed
  qed
  then show ?thesis using a b st evil_first_entry by simp
qed

section \<open>\<open>move\<close> below the source\<close>

lemma renameTo_below_itself:
  "renameTo unreadable_env small_tree ''/base/sub'' ''/base/sub/new'' = (False, small_tree)"
  by code_simp

text \<open>
  Claim C3, at a failing input. \<open>move('sub', 'sub/new')\<close> on the example tree, on a host
  where \<open>b.txt\<close> cannot be read: the rename of a directory below itself fails, \<open>copy\<close>
  makes the destination \<open>sub/new\<close> inside the source and then throws on \<open>b.txt\<close>, and
  \<open>move\<close> returns \<open>false\<close> with nothing deleted, but the source directory \<open>sub\<close> now
  holds the new directory: it is not left as it was.
\<close>

theorem move_below_source_changes_source:
  "lookup small_tree [''base'', ''sub'']
     = Some (Directory ''sub'' 4096 3 [RegularFile ''b.txt'' ''world!'' 7]) \<and>
   move 5 unreadable_env (sandbox ''/base'') small_tree ''sub'' ''sub/new''
     = Some (False,
         Directory [] 4096 0
           [Directory ''base'' 4096 0
              [RegularFile ''a.txt'' ''hello!'' 5,
               Directory ''sub'' 4096 3
                 [RegularFile ''b.txt'' ''world!'' 7, Directory ''new'' 4096 0 []],
               Directory ''empty'' 4096 4 []]])"
  by code_simp

section \<open>Canonical path strings\<close>

lemma splitOn_Cons_sep: "splitOn c (c # s) = [] # splitOn c s"
  by simp

lemma filter_splitOn_join:
  assumes "\<forall>s \<in> set r. valid_name s"
  shows "filter (\<lambda>s. s \<noteq> []) (splitOn sep (joinWith sep r)) = r"
proof (cases "r = []")
  case True then show ?thesis by simp
next
  case False
  have "splitOn sep (joinWith sep r) = r"
    by (rule splitOn_joinWith[OF False]) (use assms in \<open>auto simp: valid_name_def\<close>)
  moreover have "filter (\<lambda>s. s \<noteq> []) r = r"
    using assms by (auto simp: valid_name_def filter_id_conv)
  ultimately show ?thesis by simp
qed

lemma filter_splitOn_path_string:
  assumes "\<forall>s \<in> set p. valid_name s"
  shows "filter (\<lambda>s. s \<noteq> []) (splitOn sep (path_string p)) = p"
  using filter_splitOn_join[OF assms] by (simp add: path_string_def)

lemma normalizePath_absolute:
  "isAbsolute s \<Longrightarrow> normalizePath s = path_string (filter (\<lambda>s. s \<noteq> []) (splitOn sep s))"
  by (simp add: normalizePath_def path_string_def Let_def)

lemma isAbsolute_path_string: "isAbsolute (path_string p)"
  by (simp add: isAbsolute_def path_string_def)

lemma normalizePath_path_string:
  assumes "\<forall>s \<in> set p. valid_name s"
  shows "normalizePath (path_string p) = path_string p"
  by (simp add: normalizePath_absolute isAbsolute_path_string filter_splitOn_path_string[OF assms])

lemma getAbsolutePath_path_string: "getAbsolutePath e (path_string p) = path_string p"
  by (simp add: getAbsolutePath_def isAbsolute_path_string)

lemma foldl_canon_valid_names:
  "\<forall>s \<in> set r. valid_name s \<Longrightarrow> foldl canon_step st r = rev r @ st"
  by (induction r arbitrary: st) (auto simp: canon_step_def valid_name_def)

lemma canon_names_path_string:
  assumes "\<forall>s \<in> set p. valid_name s"
  shows "canon_names (path_string p) = p"
proof -
  have "foldl canon_step [] (splitOn sep (path_string p))
      = foldl canon_step [] (filter (\<lambda>s. s \<noteq> []) (splitOn sep (path_string p)))"
    by (simp add: foldl_canon_step_filter)
  also have "\<dots> = rev p"
    by (simp add: filter_splitOn_path_string[OF assms] foldl_canon_valid_names[OF assms])
  finally show ?thesis by (simp add: canon_names_def)
qed

lemma locate_path_string:
  "\<forall>s \<in> set p. valid_name s \<Longrightarrow> locate e (path_string p) = p"
  by (simp add: locate_def getAbsolutePath_path_string canon_names_path_string)

lemma getCanonicalPath_path_string:
  "\<forall>s \<in> set p. valid_name s \<Longrightarrow> getCanonicalPath e (path_string p) = path_string p"
  by (simp add: getCanonicalPath_def locate_path_string)

lemma path_string_nonempty: "path_string p \<noteq> []"
  by (simp add: path_string_def)

text \<open>A file below a directory, by a relative name with or without a closing separator.\<close>

lemma File2_path_string:
  assumes "\<forall>s \<in> set p. valid_name s" "\<forall>s \<in> set r. valid_name s"
  shows "File2 (path_string p) (joinWith sep r) = path_string (p @ r)"
    and "File2 (path_string p) (joinWith sep r @ [sep]) = path_string (p @ r)"
proof -
  have a: "isAbsolute (path_string p @ sep # x)" for x
    by (simp add: isAbsolute_def path_string_def)
  have "filter (\<lambda>s. s \<noteq> []) (splitOn sep (path_string p @ sep # joinWith sep r)) = p @ r"
    by (simp add: splitOn_append filter_splitOn_path_string[OF assms(1)]
        filter_splitOn_join[OF assms(2)])
  then show "File2 (path_string p) (joinWith sep r) = path_string (p @ r)"
    by (simp add: File2_def normalizePath_absolute[OF a])
  have "splitOn sep (joinWith sep r @ [sep]) = splitOn sep (joinWith sep r) @ [[]]"
    using splitOn_append[of sep "joinWith sep r" "[]"] by simp
  then have "filter (\<lambda>s. s \<noteq> []) (splitOn sep (path_string p @ sep # joinWith sep r @ [sep])) = p @ r"
    by (simp add: splitOn_append filter_splitOn_path_string[OF assms(1)]
        filter_splitOn_join[OF assms(2)])
  then show "File2 (path_string p) (joinWith sep r @ [sep]) = path_string (p @ r)"
    by (simp add: File2_def normalizePath_absolute[OF a])
qed

lemma joinWith_snoc: "r \<noteq> [] \<Longrightarrow> joinWith c (r @ [n]) = joinWith c r @ c # n"
  by (induction c r rule: joinWith.induct) auto

lemma joinWith_append:
  "p \<noteq> [] \<Longrightarrow> r \<noteq> [] \<Longrightarrow> joinWith c (p @ r) = joinWith c p @ c # joinWith c r"
proof (induction c p rule: joinWith.induct)
  case (2 c x) then show ?case by (cases r) auto
qed auto

lemma path_string_below:
  assumes "\<forall>s \<in> set p. valid_name s" "r \<noteq> []"
  shows "path_string (p @ r) = with_separator (path_string p) @ joinWith sep r"
proof (cases "p = []")
  case True
  then show ?thesis using with_separator_path_string[OF assms(1)] by (simp add: path_string_def)
next
  case False
  have "joinWith sep (p @ r) = joinWith sep p @ sep # joinWith sep r"
    by (rule joinWith_append[OF False assms(2)])
  then show ?thesis
    using False with_separator_path_string[OF assms(1)] path_string_slashed[OF False]
    by (simp add: path_string_def)
qed

lemma relative_path_below:
  assumes "\<forall>s \<in> set p. valid_name s" "r \<noteq> []"
  shows "drop (length (with_separator (path_string p))) (path_string (p @ r)) = joinWith sep r"
  by (simp add: path_string_below[OF assms])

lemma relative_path_self:
  assumes "\<forall>s \<in> set p. valid_name s"
  shows "drop (length (with_separator (path_string p))) (path_string p) = []"
  using with_separator_path_string[OF assms] path_string_slashed[of p]
  by (cases "p = []") (simp_all add: path_string_def)

lemma startsWith_below:
  assumes "\<forall>s \<in> set p. valid_name s" "r \<noteq> []"
  shows "startsWith (path_string (p @ r)) (with_separator (path_string p))"
  by (simp add: path_string_below[OF assms] startsWith_def)

lemma lastIndexOf_append_free:
  "c \<notin> set n \<Longrightarrow> lastIndexOf (s @ c # n) c = Some (length s)"
  by (induction s) (auto simp: lastIndexOf_None split: option.splits)

lemma getParent_path_string:
  assumes "\<forall>s \<in> set p. valid_name s" "valid_name n"
  shows "getParent (path_string (p @ [n])) = Some (path_string p)"
proof (cases "p = []")
  case True
  have "lastIndexOf (sep # n) sep = Some 0"
    using lastIndexOf_append_free[of sep n "[]"] assms(2) by (simp add: valid_name_def)
  then show ?thesis using True assms(2)
    by (simp add: getParent_def path_string_def valid_name_def)
next
  case False
  have s: "path_string (p @ [n]) = path_string p @ sep # n"
    using False by (simp add: path_string_def joinWith_snoc)
  have "lastIndexOf (path_string p @ sep # n) sep = Some (length (path_string p))"
    by (rule lastIndexOf_append_free) (use assms(2) in \<open>simp add: valid_name_def\<close>)
  moreover have "length (path_string p) \<noteq> 0" by (simp add: path_string_def)
  ultimately show ?thesis unfolding s by (simp add: getParent_def)
qed

lemma getName_path_string:
  assumes "valid_name n"
  shows "getName (path_string (p @ [n])) = n"
proof -
  have s: "path_string (p @ [n]) = (if p = [] then [] else path_string p) @ sep # n"
    by (cases "p = []") (simp_all add: path_string_def joinWith_snoc)
  have "lastIndexOf ((if p = [] then [] else path_string p) @ sep # n) sep
      = Some (length (if p = [] then [] else path_string p))"
    by (rule lastIndexOf_append_free) (use assms in \<open>simp add: valid_name_def\<close>)
  then show ?thesis unfolding s by (simp add: getName_def)
qed

lemma for_each_append:
  assumes "\<And>k acc. k \<in> set ks \<Longrightarrow> body (g k) (acc, fs) = Some (Normal (acc @ w k, fs))"
  shows "for_each body (map g ks) (acc, fs) = Some (Normal (acc @ concat (map w ks), fs))"
  using assms
proof (induction ks arbitrary: acc)
  case Nil then show ?case by simp
next
  case (Cons k ks)
  then show ?case by (simp add: then_do_def)
qed

lemma node_at_path_string:
  "\<forall>s \<in> set q. valid_name s \<Longrightarrow> node_at e fs (path_string q) = lookup fs q"
  by (simp add: node_at_def path_string_nonempty locate_path_string)

lemma joinWith_valid_nonempty:
  assumes "\<forall>s \<in> set r. valid_name s" "r \<noteq> []"
  shows "joinWith sep r \<noteq> []"
proof -
  have "hd r \<in> set r" using assms(2) by simp
  then have "hd r \<noteq> []" using assms(1) by (auto simp: valid_name_def)
  then show ?thesis using joinWith_first[OF assms(2), of sep] by simp
qed

lemma walk_zip:
  assumes "wf_node t" "lookup fs (p @ r) = Some t" "height t < n"
    and "\<forall>s \<in> set p. valid_name s" "\<forall>s \<in> set r. valid_name s" "\<forall>q. readable e q"
  shows "walk n e (zip_onFile e (with_separator (path_string p)))
           (zip_onDir e (with_separator (path_string p))) PreOrder (path_string (p @ r)) (zos, fs)
         = Some (Normal (zos @ entries_of r t, fs))"
  using assms(1,2,3,5)
proof (induction n arbitrary: t r zos)
  case 0 then show ?case by simp
next
  case (Suc n)
  let ?root = "with_separator (path_string p)"
  have v: "\<forall>s \<in> set (p @ r). valid_name s" using assms(4) Suc.prems(4) by auto
  have at: "node_at e fs (path_string (p @ r)) = Some t"
    using Suc.prems(2) by (simp add: node_at_path_string[OF v])
  have rel: "drop (length ?root) (getAbsolutePath e (path_string (p @ r)))
      = (if r = [] then [] else joinWith sep r)"
    using relative_path_below[OF assms(4), of r] relative_path_self[OF assms(4)]
    by (simp add: getAbsolutePath_path_string)
  show ?case
  proof (cases t)
    case (RegularFile a c m)
    have rne: "r \<noteq> [] \<or> r = []" by simp
    have rd: "FileInputStream e fs (path_string (p @ r)) = Inr c"
      using at RegularFile assms(6) by (simp add: FileInputStream_def)
    have "zip_onFile e ?root (path_string (p @ r)) (zos, fs)
        = Normal (zos @ [(if r = [] then [] else joinWith sep r, c)], fs)"
      using rd rel by (simp add: zip_onFile_def Let_def)
    then show ?thesis using at RegularFile
      by (simp add: then_do_def isDirectory_def isFile_def is_dir_def is_file_def)
  next
    case (Directory a l m ks)
    have kids: "\<And>k acc. k \<in> set ks \<Longrightarrow>
        walk n e (zip_onFile e ?root) (zip_onDir e ?root) PreOrder
          (File2 (path_string (p @ r)) (name k)) (acc, fs)
          = Some (Normal (acc @ entries_of (r @ [name k]) k, fs))"
    proof -
      fix k acc assume k: "k \<in> set ks"
      have wfk: "wf_node k" "valid_name (name k)" "distinct (map name ks)"
        using Suc.prems(1) k Directory by auto
      have f2: "File2 (path_string (p @ r)) (name k) = path_string (p @ r @ [name k])"
        using File2_path_string(1)[OF v, of "[name k]"] wfk(2) by simp
      have lk: "lookup fs (p @ r @ [name k]) = Some k"
        using lookup_child[of fs "p @ r" a l m ks k] Suc.prems(2) wfk(3) k Directory by simp
      have hk: "height k < n"
        using height_child[OF k] Suc.prems(3) Directory by simp
      have vr: "\<forall>s \<in> set (r @ [name k]). valid_name s" using Suc.prems(4) wfk(2) by simp
      show "walk n e (zip_onFile e ?root) (zip_onDir e ?root) PreOrder
          (File2 (path_string (p @ r)) (name k)) (acc, fs)
          = Some (Normal (acc @ entries_of (r @ [name k]) k, fs))"
        unfolding f2 by (rule Suc.IH[OF wfk(1) lk hk vr])
    qed
    have loop: "for_each (walk n e (zip_onFile e ?root) (zip_onDir e ?root) PreOrder)
          (map (\<lambda>k. File2 (path_string (p @ r)) (name k)) ks) (acc, fs)
        = Some (Normal (acc @ concat (map (\<lambda>k. entries_of (r @ [name k]) k) ks), fs))" for acc
      by (rule for_each_append) (rule kids)
    have ls: "listFiles e fs (path_string (p @ r))
        = Some (map (\<lambda>k. File2 (path_string (p @ r)) (name k)) ks)"
      using at Directory by (simp add: listFiles_def)
    have len: "r \<noteq> [] \<Longrightarrow> 1 < length (joinWith sep r @ ''/'')"
      using joinWith_valid_nonempty[OF Suc.prems(4)] by (cases "joinWith sep r") simp_all
    have dir: "zip_onDir e ?root (path_string (p @ r)) (zos, fs)
        = Normal (zos @ (if ks = [] then (if r = [] then [] else [(joinWith sep r @ [sep], [])])
                         else []), fs)"
      unfolding zip_onDir_def Let_def snd_conv fst_conv ls rel
      using len by (cases "r = []") (simp_all add: sep_def)
    show ?thesis
    proof (cases "ks = []")
      case True
      then show ?thesis using at Directory dir ls
        by (simp add: then_do_def isDirectory_def isFile_def is_dir_def is_file_def)
    next
      case False
      then show ?thesis using at Directory dir ls loop[of zos]
        by (simp add: then_do_def isDirectory_def isFile_def is_dir_def is_file_def)
    qed
  qed
qed

lemma name_rebuilt [simp]: "name (rebuilt e k) = name k"
  by (cases k) simp_all

lemma set_child_new: "s \<notin> name ` set ks \<Longrightarrow> set_child s (Some n) ks = ks @ [n]"
  by (induction ks) auto

lemma find_new: "s \<notin> name ` set ks \<Longrightarrow> find (\<lambda>k. name k = s) ks = None"
  by (induction ks) auto

lemma lookup_new_child:
  "lookup fs q = Some (Directory a l m ks) \<Longrightarrow> s \<notin> name ` set ks \<Longrightarrow> lookup fs (q @ [s]) = None"
  by (simp add: lookup_append find_new)

lemma dir_name:
  assumes "lookup fs q = Some t"
  shows "q = [] \<or> name t = last q"
proof (cases "q = []")
  case True then show ?thesis by simp
next
  case False
  then have "lookup fs (butlast q @ [last q]) = Some t" using assms by simp
  then show ?thesis by (auto dest: lookup_snoc_name)
qed

text \<open>Putting a new child, and putting again where a new child was put.\<close>

lemma put_new_child:
  assumes "lookup fs q = Some (Directory a l m ks)" "s \<notin> name ` set ks"
  shows "put fs (q @ [s]) (Some x) = put fs q (Some (Directory a l m (ks @ [x])))"
  by (simp add: put_child[OF assms(1)] set_child_new[OF assms(2)])

lemma lookup_put_dir:
  assumes "lookup fs q = Some (Directory a l m ks)"
  shows "lookup (put fs q (Some (Directory a l' m' ks'))) q = Some (Directory a l' m' ks')"
  by (rule lookup_put) (use assms dir_name[OF assms] in auto)

lemma put_put_dir:
  assumes "lookup fs q = Some (Directory a l m ks)"
  shows "put (put fs q (Some (Directory a l' m' ks'))) q (Some t) = put fs q (Some t)"
  by (rule put_put) (use assms dir_name[OF assms] in auto)

lemma put_replace_child:
  assumes "lookup fs q = Some (Directory a l m ks)" "s \<notin> name ` set ks" "name x = s"
  shows "put (put fs q (Some (Directory a l m (ks @ [x])))) (q @ [s]) (Some y)
       = put fs q (Some (Directory a l m (ks @ [y])))"
proof -
  let ?fs1 = "put fs q (Some (Directory a l m (ks @ [x])))"
  have l1: "lookup ?fs1 q = Some (Directory a l m (ks @ [x]))"
    by (rule lookup_put_dir[OF assms(1)])
  have "set_child s (Some y) (ks @ [x]) = ks @ [y]"
    using set_child_middle[of x ks "Some y" "[]"] assms(2,3) by simp
  then have "put ?fs1 (q @ [s]) (Some y) = put ?fs1 q (Some (Directory a l m (ks @ [y])))"
    by (simp add: put_child[OF l1])
  also have "\<dots> = put fs q (Some (Directory a l m (ks @ [y])))"
    by (rule put_put_dir[OF assms(1)])
  finally show ?thesis .
qed

text \<open>\<open>mkdirs\<close> makes nothing below the directory it is asked for, and says so when it
  has made it.\<close>

lemma mkdir_at_child_None:
  "lookup fs (t @ [s]) = None \<Longrightarrow> lookup (snd (mkdir_at e fs t)) (t @ [s]) = None"
proof (cases "fst (mkdir_at e fs t)")
  case False
  assume "lookup fs (t @ [s]) = None"
  then show ?thesis using False by (auto simp: mkdir_at_def split: if_splits)
next
  case True
  then have c: "t \<noteq> []" "is_dir (lookup fs (butlast t))"
    and r: "snd (mkdir_at e fs t) = put fs t (Some (Directory (last t) (new_dir_length e) (clock e) []))"
    by (auto simp: mkdir_at_def split: if_splits)
  have "lookup (put fs t (Some (Directory (last t) (new_dir_length e) (clock e) []))) (t @ [s])
      = lookup (Directory (last t) (new_dir_length e) (clock e) []) [s]"
    by (rule lookup_put_below[OF c(2) c(1)]) simp
  then show ?thesis unfolding r by simp
qed

lemma mkdirs_at_child_None:
  "lookup fs (t @ [s]) = None \<Longrightarrow> lookup (snd (mkdirs_at e fs t)) (t @ [s]) = None"
proof (induction e fs t arbitrary: s rule: mkdirs_at.induct)
  case (1 e fs p)
  show ?case
  proof (cases "lookup fs p \<noteq> None")
    case True
    then show ?thesis using "1.prems" by (subst mkdirs_at.simps) simp
  next
    case ex: False
    show ?thesis
    proof (cases "fst (mkdir_at e fs p)")
      case True
      then show ?thesis using ex mkdir_at_child_None[OF "1.prems", of e]
        by (subst mkdirs_at.simps) simp
    next
      case mk: False
      show ?thesis
      proof (cases "p = []")
        case True
        then show ?thesis using ex by simp
      next
        case False
        obtain b fs1 where r: "mkdirs_at e fs (butlast p) = (b, fs1)"
          by (cases "mkdirs_at e fs (butlast p)")
        have "lookup fs (butlast p @ [last p]) = None" using ex False by simp
        then have "lookup (snd (mkdirs_at e fs (butlast p))) (butlast p @ [last p]) = None"
          using "1.IH"[of "last p"] ex mk False by blast
        then have l1: "lookup fs1 p = None" using r False by simp
        then have l2: "lookup fs1 (p @ [s]) = None" by (simp add: lookup_append)
        have "lookup (snd (mkdir_at e fs1 p)) (p @ [s]) = None"
          by (rule mkdir_at_child_None[OF l2])
        then show ?thesis using ex mk False r l2
          by (subst mkdirs_at.simps) simp
      qed
    qed
  qed
qed

lemma mkdirs_at_made:
  assumes "lookup fs t = None" "lookup (snd (mkdirs_at e fs t)) t \<noteq> None"
  shows "fst (mkdirs_at e fs t)"
proof (cases "fst (mkdir_at e fs t)")
  case True
  then show ?thesis using assms(1) by (subst mkdirs_at.simps) simp
next
  case mk: False
  have t: "t \<noteq> []" using assms(1) by auto
  obtain b fs1 where r: "mkdirs_at e fs (butlast t) = (b, fs1)"
    by (cases "mkdirs_at e fs (butlast t)")
  have "lookup fs (butlast t @ [last t]) = None" using assms(1) t by simp
  then have "lookup (snd (mkdirs_at e fs (butlast t))) (butlast t @ [last t]) = None"
    by (rule mkdirs_at_child_None)
  then have l1: "lookup fs1 t = None" using r t by simp
  have u: "mkdirs_at e fs t
      = (if b \<or> lookup fs1 (butlast t) \<noteq> None then mkdir_at e fs1 t else (False, fs1))"
    using assms(1) mk t r by (subst mkdirs_at.simps) simp
  show ?thesis
  proof (cases "b \<or> lookup fs1 (butlast t) \<noteq> None")
    case False
    then show ?thesis using assms(2) l1 u by simp
  next
    case True
    then have "lookup (snd (mkdir_at e fs1 t)) t \<noteq> None" using assms(2) u by simp
    then have "fst (mkdir_at e fs1 t)" using l1 by (auto simp: mkdir_at_def split: if_splits)
    then show ?thesis using True u by simp
  qed
qed

lemma with_directory_cases:
  assumes "lookup (with_directory e fs q) q = Some (Directory a l m ks0)"
  shows "(is_dir (lookup fs q) \<and> with_directory e fs q = fs) \<or>
         (\<not> is_dir (lookup fs q) \<and> lookup fs q = None \<and>
          mkdirs_at e fs q = (True, with_directory e fs q))"
proof (cases "is_dir (lookup fs q)")
  case True
  then show ?thesis by (simp add: with_directory_def)
next
  case False
  then have w: "with_directory e fs q = snd (mkdirs_at e fs q)" by (simp add: with_directory_def)
  have n: "lookup fs q = None"
  proof (rule ccontr)
    assume "lookup fs q \<noteq> None"
    then have "mkdirs_at e fs q = (False, fs)" by (subst mkdirs_at.simps) simp
    then have "lookup fs q = Some (Directory a l m ks0)" using assms w by simp
    then show False using False by (simp add: is_dir_def)
  qed
  have "fst (mkdirs_at e fs q)"
    by (rule mkdirs_at_made[OF n]) (use assms w in simp)
  then have "mkdirs_at e fs q = (True, with_directory e fs q)"
    using w by (cases "mkdirs_at e fs q") simp
  then show ?thesis using False n by simp
qed

lemma mkdirs_at_new_child:
  assumes g: "lookup (with_directory e fs q) q = Some (Directory a l m ks0)"
    and s: "s \<notin> name ` set ks0" and w: "\<forall>p. writable e p"
  shows "mkdirs_at e fs (q @ [s])
       = (True, put (with_directory e fs q) (q @ [s])
                  (Some (Directory s (new_dir_length e) (clock e) [])))"
proof -
  let ?fs0 = "with_directory e fs q"
  let ?new = "Directory s (new_dir_length e) (clock e) []"
  have n0: "lookup ?fs0 (q @ [s]) = None" by (rule lookup_new_child[OF g s])
  have d0: "is_dir (lookup ?fs0 q)" using g by (simp add: is_dir_def)
  have mk0: "mkdir_at e ?fs0 (q @ [s]) = (True, put ?fs0 (q @ [s]) (Some ?new))"
    using n0 d0 w by (simp add: mkdir_at_def)
  from with_directory_cases[OF g] show ?thesis
  proof
    assume "is_dir (lookup fs q) \<and> ?fs0 = fs"
    then have same: "?fs0 = fs" by simp
    show ?thesis using mk0 n0 unfolding same by (subst mkdirs_at.simps) simp
  next
    assume c: "\<not> is_dir (lookup fs q) \<and> lookup fs q = None \<and> mkdirs_at e fs q = (True, ?fs0)"
    then have n: "lookup fs (q @ [s]) = None" by (simp add: lookup_append)
    have "mkdir_at e fs (q @ [s]) = (False, fs)" using c by (simp add: mkdir_at_def is_dir_def)
    then show ?thesis using n c mk0 by (subst mkdirs_at.simps) simp
  qed
qed

lemma joinWith_last:
  "r \<noteq> [] \<Longrightarrow> last r \<noteq> [] \<Longrightarrow> joinWith c r \<noteq> [] \<and> last (joinWith c r) = last (last r)"
  by (induction c r rule: joinWith.induct) auto

lemma file_entry_name:
  assumes "valid_name n"
  shows "\<not> endsWith (joinWith sep (r @ [n])) ''/''"
proof
  assume "endsWith (joinWith sep (r @ [n])) ''/''"
  then obtain x where x: "joinWith sep (r @ [n]) = x @ [sep]"
    by (auto simp: endsWith_def suffix_def sep_def)
  have "n \<noteq> []" using assms by (simp add: valid_name_def)
  then have "last (joinWith sep (r @ [n])) = last n"
    using joinWith_last[of "r @ [n]" sep] by simp
  then have "last n = sep" using x by simp
  then show False using assms \<open>n \<noteq> []\<close> last_in_set[of n] by (auto simp: valid_name_def)
qed

lemma mkdirs_path_string:
  "\<forall>s \<in> set q. valid_name s \<Longrightarrow> mkdirs e fs (path_string q) = mkdirs_at e fs q"
  by (simp add: mkdirs_def path_string_nonempty locate_path_string)

lemma isDirectory_path_string:
  "\<forall>s \<in> set q. valid_name s \<Longrightarrow> isDirectory e fs (path_string q) = is_dir (lookup fs q)"
  by (simp add: isDirectory_def node_at_path_string)

lemma unzip_entry_file:
  assumes vd: "\<forall>s \<in> set d. valid_name s" and vr: "\<forall>s \<in> set r. valid_name s" and vn: "valid_name n"
    and g: "lookup (with_directory e fs (d @ r)) (d @ r) = Some (Directory a l m ks0)"
    and s: "n \<notin> name ` set ks0" and w: "\<forall>p. writable e p"
  shows "unzip_entry e (path_string d) (with_separator (getCanonicalPath e (path_string d)))
           (joinWith sep (r @ [n]), c) fs
       = Normal (put (with_directory e fs (d @ r)) (d @ r)
                  (Some (Directory a l m (ks0 @ [RegularFile n c (clock e)]))))"
proof -
  let ?fs0 = "with_directory e fs (d @ r)"
  let ?q = "d @ r"
  have vq: "\<forall>s \<in> set ?q. valid_name s" using vd vr by auto
  have vrn: "\<forall>s \<in> set (r @ [n]). valid_name s" using vr vn by auto
  have vqn: "\<forall>s \<in> set (?q @ [n]). valid_name s" using vq vn by auto
  have nf: "File2 (path_string d) (joinWith sep (r @ [n])) = path_string (?q @ [n])"
    using File2_path_string(1)[OF vd vrn] by simp
  have test: "startsWith (getCanonicalPath e (path_string (?q @ [n])))
       (with_separator (getCanonicalPath e (path_string d)))"
    using startsWith_below[OF vd, of "r @ [n]"] getCanonicalPath_path_string[OF vqn, of e]
    by (simp add: getCanonicalPath_path_string[OF vd])
  have par: "getParentFile (path_string (?q @ [n])) = Some (path_string ?q)"
    unfolding getParentFile_def by (rule getParent_path_string[OF vq vn])
  have made: "(if \<not> isDirectory e fs (path_string ?q) then mkdirs e fs (path_string ?q) else (True, fs))
      = (True, ?fs0)"
    using with_directory_cases[OF g]
    by (auto simp: isDirectory_path_string[OF vq] mkdirs_path_string[OF vq])
  have n0: "lookup ?fs0 (?q @ [n]) = None" by (rule lookup_new_child[OF g s])
  have d0: "is_dir (lookup ?fs0 ?q)" using g by (simp add: is_dir_def)
  have out: "FileOutputStream e ?fs0 (path_string (?q @ [n]))
      = Inr (put ?fs0 (?q @ [n]) (Some (RegularFile n [] (clock e))))"
    using n0 g w locate_path_string[OF vqn, of e]
    by (simp add: FileOutputStream_def Let_def path_string_nonempty is_dir_def butlast_append)
  have wr: "write_bytes e fs2 (path_string (?q @ [n])) c
      = put fs2 (?q @ [n]) (Some (RegularFile n c (clock e)))" for fs2
    using locate_path_string[OF vqn, of e] by (simp add: write_bytes_def Let_def)
  have "put (put ?fs0 (?q @ [n]) (Some (RegularFile n [] (clock e)))) (?q @ [n])
          (Some (RegularFile n c (clock e)))
      = put ?fs0 ?q (Some (Directory a l m (ks0 @ [RegularFile n c (clock e)])))"
    unfolding put_new_child[OF g s]
    by (rule put_replace_child[OF g s]) simp
  then show ?thesis
    using test file_entry_name[OF vn, of r] par made out wr
    by (simp add: unzip_entry_def Let_def nf)
qed

lemma unzip_entry_dir:
  assumes vd: "\<forall>s \<in> set d. valid_name s" and vr: "\<forall>s \<in> set r. valid_name s" and vn: "valid_name n"
    and g: "lookup (with_directory e fs (d @ r)) (d @ r) = Some (Directory a l m ks0)"
    and s: "n \<notin> name ` set ks0" and w: "\<forall>p. writable e p"
  shows "unzip_entry e (path_string d) (with_separator (getCanonicalPath e (path_string d)))
           (joinWith sep (r @ [n]) @ [sep], []) fs
       = Normal (put (with_directory e fs (d @ r)) (d @ r)
                  (Some (Directory a l m
                     (ks0 @ [Directory n (new_dir_length e) (clock e) []]))))"
proof -
  let ?fs0 = "with_directory e fs (d @ r)"
  let ?q = "d @ r"
  have vq: "\<forall>s \<in> set ?q. valid_name s" using vd vr by auto
  have vrn: "\<forall>s \<in> set (r @ [n]). valid_name s" using vr vn by auto
  have vqn: "\<forall>s \<in> set (?q @ [n]). valid_name s" using vq vn by auto
  have nf: "File2 (path_string d) (joinWith sep (r @ [n]) @ [sep]) = path_string (?q @ [n])"
    using File2_path_string(2)[OF vd vrn] by simp
  have test: "startsWith (getCanonicalPath e (path_string (?q @ [n])))
       (with_separator (getCanonicalPath e (path_string d)))"
    using startsWith_below[OF vd, of "r @ [n]"] getCanonicalPath_path_string[OF vqn, of e]
    by (simp add: getCanonicalPath_path_string[OF vd])
  have isdir: "endsWith (joinWith sep (r @ [n]) @ [sep]) ''/''"
    by (simp add: endsWith_def sep_def)
  have mk: "mkdirs_at e fs (?q @ [n])
      = (True, put ?fs0 (?q @ [n]) (Some (Directory n (new_dir_length e) (clock e) [])))"
    by (rule mkdirs_at_new_child[OF g s w])
  have nd: "\<not> is_dir (lookup fs (?q @ [n]))"
  proof
    assume a: "is_dir (lookup fs (?q @ [n]))"
    then have "lookup fs (?q @ [n]) \<noteq> None" by (auto simp: is_dir_def split: option.splits)
    then have "mkdirs_at e fs (?q @ [n]) = (False, fs)" by (subst mkdirs_at.simps) simp
    then show False using mk by simp
  qed
  have "unzip_entry e (path_string d) (with_separator (getCanonicalPath e (path_string d)))
           (joinWith sep (r @ [n]) @ [sep], []) fs
       = Normal (put ?fs0 (?q @ [n]) (Some (Directory n (new_dir_length e) (clock e) [])))"
    using test isdir nd mk isDirectory_path_string[OF vqn, of e fs] mkdirs_path_string[OF vqn, of e fs]
    by (simp add: unzip_entry_def Let_def nf)
  then show ?thesis
    using put_new_child[OF g s, of "Directory n (new_dir_length e) (clock e) []"] by simp
qed

text \<open>The children of a directory, one after the other.\<close>

lemma build_forest:
  assumes step: "\<And>k fs a l m ks0. k \<in> set cs \<Longrightarrow> lookup fs q = Some (Directory a l m ks0) \<Longrightarrow>
        name k \<notin> name ` set ks0 \<Longrightarrow>
        unzip_entries e dest ddp (E k) fs
          = Normal (put fs q (Some (Directory a l m (ks0 @ [rebuilt e k]))))"
    and "distinct (map name cs)" "lookup fs q = Some (Directory a l m ks0)"
    and "name ` set cs \<inter> name ` set ks0 = {}"
  shows "unzip_entries e dest ddp (concat (map E cs)) fs
       = Normal (put fs q (Some (Directory a l m (ks0 @ map (rebuilt e) cs))))"
  using assms
proof (induction cs arbitrary: fs ks0)
  case Nil
  then show ?case by (simp add: put_same)
next
  case (Cons c cs)
  let ?fs1 = "put fs q (Some (Directory a l m (ks0 @ [rebuilt e c])))"
  have first: "unzip_entries e dest ddp (E c) fs = Normal ?fs1"
    by (rule Cons.prems(1)) (use Cons.prems in auto)
  have l1: "lookup ?fs1 q = Some (Directory a l m (ks0 @ [rebuilt e c]))"
    by (rule lookup_put_dir[OF Cons.prems(3)])
  have "unzip_entries e dest ddp (concat (map E cs)) ?fs1
      = Normal (put ?fs1 q (Some (Directory a l m ((ks0 @ [rebuilt e c]) @ map (rebuilt e) cs))))"
  proof (rule Cons.IH[OF _ _ l1])
    show "distinct (map name cs)" using Cons.prems(2) by simp
    show "name ` set cs \<inter> name ` set (ks0 @ [rebuilt e c]) = {}"
      using Cons.prems(2,4) by auto
    show "unzip_entries e dest ddp (E k) fs'
          = Normal (put fs' q (Some (Directory a' l' m' (ks' @ [rebuilt e k]))))"
      if "k \<in> set cs" "lookup fs' q = Some (Directory a' l' m' ks')" "name k \<notin> name ` set ks'"
      for k fs' a' l' m' ks'
      by (rule Cons.prems(1)) (use that in auto)
  qed
  also have "put ?fs1 q (Some (Directory a l m ((ks0 @ [rebuilt e c]) @ map (rebuilt e) cs)))
      = put fs q (Some (Directory a l m (ks0 @ map (rebuilt e) (c # cs))))"
    using put_put_dir[OF Cons.prems(3)] by simp
  finally show ?case using first by (simp add: unzip_entries_append)
qed

lemma lookup_last_child:
  assumes "lookup fs q = Some (Directory a l m (ks @ [x]))" "name x \<notin> name ` set ks"
  shows "lookup fs (q @ [name x]) = Some x"
  using assms find_middle[of x ks "[]"] lookup_append[of fs q "[name x]"] by simp

lemma with_directory_there: "is_dir (lookup fs q) \<Longrightarrow> with_directory e fs q = fs"
  by (simp add: with_directory_def)

lemma build_node:
  assumes vd: "\<forall>s \<in> set d. valid_name s" and w: "\<forall>p. writable e p"
  shows "wf_node k \<Longrightarrow> valid_name (name k) \<Longrightarrow> \<forall>s \<in> set r. valid_name s \<Longrightarrow>
     lookup (with_directory e fs (d @ r)) (d @ r) = Some (Directory a l m ks0) \<Longrightarrow>
     name k \<notin> name ` set ks0 \<Longrightarrow>
     unzip_entries e (path_string d) (with_separator (getCanonicalPath e (path_string d)))
         (entries_of (r @ [name k]) k) fs
       = Normal (put (with_directory e fs (d @ r)) (d @ r)
                  (Some (Directory a l m (ks0 @ [rebuilt e k]))))"
proof (induction k arbitrary: r fs a l m ks0)
  case (RegularFile n c t)
  then show ?case using unzip_entry_file[OF vd, of r n e fs a l m ks0 c] w by simp
next
  case (Directory n ll mm cs)
  let ?dest = "path_string d" and ?ddp = "with_separator (getCanonicalPath e (path_string d))"
  let ?q = "d @ r" and ?fs0 = "with_directory e fs (d @ r)"
  let ?nl = "new_dir_length e" and ?clk = "clock e"
  have vn: "valid_name n" using Directory.prems(2) by simp
  have s: "n \<notin> name ` set ks0" using Directory.prems(5) by simp
  note g = Directory.prems(4)
  show ?case
  proof (cases cs)
    case Nil
    then show ?thesis
      using unzip_entry_dir[OF vd Directory.prems(3) vn g s w] by simp
  next
    case (Cons c cs')
    let ?new = "Directory n ?nl ?clk []"
    let ?r' = "r @ [n]"
    have vr': "\<forall>s \<in> set ?r'. valid_name s" using Directory.prems(3) vn by simp
    have wfc: "\<And>k. k \<in> set cs \<Longrightarrow> wf_node k \<and> valid_name (name k)"
      and dist: "distinct (map name cs)"
      using Directory.prems(1) by auto
    have mk: "mkdirs_at e fs (?q @ [n]) = (True, put ?fs0 (?q @ [n]) (Some ?new))"
      by (rule mkdirs_at_new_child[OF g s w])
    have nd: "\<not> is_dir (lookup fs (?q @ [n]))"
    proof
      assume "is_dir (lookup fs (?q @ [n]))"
      then have "lookup fs (?q @ [n]) \<noteq> None" by (auto simp: is_dir_def split: option.splits)
      then have "mkdirs_at e fs (?q @ [n]) = (False, fs)" by (subst mkdirs_at.simps) simp
      then show False using mk by simp
    qed
    let ?fsN = "put ?fs0 ?q (Some (Directory a l m (ks0 @ [?new])))"
    have wd: "with_directory e fs (?q @ [n]) = ?fsN"
      using nd mk put_new_child[OF g s, of ?new] by (simp add: with_directory_def)
    have lN: "lookup ?fsN ?q = Some (Directory a l m (ks0 @ [?new]))"
      by (rule lookup_put_dir[OF g])
    have g': "lookup ?fsN (?q @ [n]) = Some ?new"
      using lookup_last_child[OF lN] s by simp
    have inner: "unzip_entries e ?dest ?ddp (entries_of (?r' @ [name k]) k) fs'
          = Normal (put (with_directory e fs' (d @ ?r')) (d @ ?r')
                     (Some (Directory a' l' m' (ks' @ [rebuilt e k]))))"
      if "k \<in> set cs" "lookup (with_directory e fs' (d @ ?r')) (d @ ?r') = Some (Directory a' l' m' ks')"
        "name k \<notin> name ` set ks'" for k fs' a' l' m' ks'
      using Directory.IH[OF that(1) _ _ vr' that(2) that(3)] wfc[OF that(1)] by simp
    have c: "c \<in> set cs" using Cons by simp
    have "unzip_entries e ?dest ?ddp (entries_of (?r' @ [name c]) c) fs
        = Normal (put ?fsN (d @ ?r') (Some (Directory n ?nl ?clk ([] @ [rebuilt e c]))))"
      using inner[OF c, of fs n ?nl ?clk "[]"] wd g' by simp
    moreover have "put ?fsN (?q @ [n]) (Some (Directory n ?nl ?clk [rebuilt e c]))
        = put ?fs0 ?q (Some (Directory a l m (ks0 @ [Directory n ?nl ?clk [rebuilt e c]])))"
      by (rule put_replace_child[OF g s]) simp
    ultimately have first: "unzip_entries e ?dest ?ddp (entries_of (?r' @ [name c]) c) fs
        = Normal (put ?fs0 ?q (Some (Directory a l m (ks0 @ [Directory n ?nl ?clk [rebuilt e c]]))))"
      by simp
    let ?fs1 = "put ?fs0 ?q (Some (Directory a l m (ks0 @ [Directory n ?nl ?clk [rebuilt e c]])))"
    have l1: "lookup ?fs1 ?q = Some (Directory a l m (ks0 @ [Directory n ?nl ?clk [rebuilt e c]]))"
      by (rule lookup_put_dir[OF g])
    have l1': "lookup ?fs1 (?q @ [n]) = Some (Directory n ?nl ?clk [rebuilt e c])"
      using lookup_last_child[OF l1] s by simp
    have rest: "unzip_entries e ?dest ?ddp
          (concat (map (\<lambda>k. entries_of (?r' @ [name k]) k) cs')) ?fs1
        = Normal (put ?fs1 (?q @ [n])
            (Some (Directory n ?nl ?clk ([rebuilt e c] @ map (rebuilt e) cs'))))"
    proof (rule build_forest[OF _ _ l1'])
      show "distinct (map name cs')" using dist Cons by simp
      show "name ` set cs' \<inter> name ` set [rebuilt e c] = {}" using dist Cons by auto
      show "unzip_entries e ?dest ?ddp (entries_of (?r' @ [name k]) k) fs'
            = Normal (put fs' (?q @ [n]) (Some (Directory a' l' m' (ks' @ [rebuilt e k]))))"
        if "k \<in> set cs'" "lookup fs' (?q @ [n]) = Some (Directory a' l' m' ks')"
          "name k \<notin> name ` set ks'" for k fs' a' l' m' ks'
      proof -
        have k: "k \<in> set cs" using that(1) Cons by simp
        have th: "with_directory e fs' (d @ ?r') = fs'"
          by (rule with_directory_there) (use that(2) in \<open>simp add: is_dir_def\<close>)
        show ?thesis using inner[OF k, of fs' a' l' m' ks'] that(2,3) th by simp
      qed
    qed
    have "put ?fs1 (?q @ [n]) (Some (Directory n ?nl ?clk ([rebuilt e c] @ map (rebuilt e) cs')))
        = put ?fs0 ?q (Some (Directory a l m
            (ks0 @ [Directory n ?nl ?clk ([rebuilt e c] @ map (rebuilt e) cs')])))"
      by (rule put_replace_child[OF g s]) simp
    then show ?thesis
      using first rest Cons by (simp add: unzip_entries_append)
  qed
qed

section \<open>\<open>zip\<close> and \<open>unzip\<close> of a directory\<close>

lemma put_put_new:
  assumes "is_dir (lookup fs (butlast p))" "p \<noteq> []" "name x = last p"
  shows "put (put fs p (Some x)) p r = put fs p r"
proof -
  let ?q = "butlast p" and ?s = "last p"
  obtain a l m ks where q: "lookup fs ?q = Some (Directory a l m ks)"
    using assms(1) by (auto simp: is_dir_def split: option.splits node.splits)
  have p: "p = ?q @ [?s]" using assms(2) by simp
  let ?fs1 = "put fs ?q (Some (Directory a l m (set_child ?s (Some x) ks)))"
  have 1: "put fs (?q @ [?s]) (Some x) = ?fs1" by (rule put_child[OF q])
  have l1: "lookup ?fs1 ?q = Some (Directory a l m (set_child ?s (Some x) ks))"
    by (rule lookup_put_dir[OF q])
  have "put ?fs1 (?q @ [?s]) r
      = put ?fs1 ?q (Some (Directory a l m (set_child ?s r (set_child ?s (Some x) ks))))"
    by (rule put_child[OF l1])
  also have "\<dots> = put ?fs1 ?q (Some (Directory a l m (set_child ?s r ks)))"
    by (simp add: set_child_twice[OF assms(3)])
  also have "\<dots> = put fs ?q (Some (Directory a l m (set_child ?s r ks)))"
    by (rule put_put_dir[OF q])
  also have "\<dots> = put fs (?q @ [?s]) r" by (rule put_child[OF q, symmetric])
  finally have "put (put fs (?q @ [?s]) (Some x)) (?q @ [?s]) r = put fs (?q @ [?s]) r"
    unfolding 1 .
  then show ?thesis using p by simp
qed

lemma not_below_file:
  assumes "\<not> is_dir (lookup fs z)" "lookup fs x \<noteq> None" "prefix z x"
  shows "x = z"
proof (rule ccontr)
  assume "x \<noteq> z"
  then obtain r where r: "x = z @ r" "r \<noteq> []" using assms(3) by (auto simp: prefix_def)
  have "is_dir (lookup fs z)" by (rule is_dir_above[of fs z r]) (use assms(2) r in simp_all)
  then show False using assms(1) by simp
qed

lemma entries_of_root:
  "entries_of [] (Directory a l m cs) = concat (map (\<lambda>k. entries_of [name k] k) cs)"
  by simp

lemma zip_directory:
  assumes src: "resolvePath e fm sourcePath = Inr (path_string p)"
    and zf: "zipFilePath \<noteq> []" "resolvePath e fm zipFilePath = Inr (path_string z)"
    and vp: "\<forall>s \<in> set p. valid_name s" and vz: "\<forall>s \<in> set z. valid_name s"
    and t: "lookup fs p = Some t" "is_dir (Some t)" "wf_node t" "height t < n"
    and rd: "\<forall>q. readable e q" and wr: "\<forall>q. writable e q"
    and zloc: "z \<noteq> []" "is_dir (lookup fs (butlast z))" "\<not> is_dir (lookup fs z)" "\<not> prefix p z"
  shows "zip n e codec fm fs sourcePath (Some zipFilePath)
       = Some (Some (path_string z),
               put fs z (Some (RegularFile (last z) (zip_bytes codec (entries_of [] t)) (clock e))))"
proof -
  let ?fs1 = "put fs z (Some (RegularFile (last z) [] (clock e)))"
  have ex: "exists e fs (path_string p)"
    using t(1) by (simp add: exists_def node_at_path_string[OF vp])
  have out: "FileOutputStream e fs (path_string z) = Inr ?fs1"
    using zloc wr by (simp add: FileOutputStream_def Let_def path_string_nonempty
        locate_path_string[OF vz])
  have nzp: "\<not> prefix z p"
  proof
    assume "prefix z p"
    then have "p = z" using not_below_file[OF zloc(3), of p] t(1) by simp
    then show False using zloc(4) by simp
  qed
  have l1: "lookup ?fs1 p = Some t"
    using lookup_put_other[OF nzp zloc(4), of "RegularFile (last z) [] (clock e)" fs] t(1) by simp
  have isd: "isDirectory e ?fs1 (path_string p)"
    using l1 t(2) by (simp add: isDirectory_path_string[OF vp])
  have ex1: "exists e ?fs1 (path_string p)"
    using l1 by (simp add: exists_def node_at_path_string[OF vp])
  have "walk n e (zip_onFile e (with_separator (path_string p)))
           (zip_onDir e (with_separator (path_string p))) PreOrder (path_string (p @ [])) ([], ?fs1)
         = Some (Normal ([] @ entries_of [] t, ?fs1))"
    by (rule walk_zip[OF t(3) _ t(4) vp _ rd]) (use l1 in simp_all)
  then have tr: "traverseDirectory n e ?fs1 (path_string p)
        (zip_onFile e (with_separator (path_string p)))
        (zip_onDir e (with_separator (path_string p))) PreOrder []
      = Some (Normal (entries_of [] t, ?fs1))"
    using ex1 by (simp add: traverseDirectory_def Let_def File_def normalizePath_path_string[OF vp])
  have wb: "write_bytes e ?fs1 (path_string z) b
      = put fs z (Some (RegularFile (last z) b (clock e)))" for b
    using put_put_new[OF zloc(2) zloc(1), of "RegularFile (last z) [] (clock e)"]
    by (simp add: write_bytes_def Let_def locate_path_string[OF vz])
  show ?thesis
    using src zf ex out isd tr wb
    by (simp add: zip_def truthy_def getAbsolutePath_path_string)
qed

lemma find_None_names: "find (\<lambda>k. name k = s) ks = None \<Longrightarrow> s \<notin> name ` set ks"
  by (induction ks) (auto split: if_splits)

lemma new_name:
  assumes "lookup fs q = Some (Directory a l m ks)" "lookup fs (q @ [s]) = None"
  shows "s \<notin> name ` set ks"
  using assms by (auto simp: lookup_append dest!: find_None_names split: option.splits)

text \<open>The destination of \<open>unzip\<close>, made when it is not there.\<close>

lemma made_destination_empty:
  assumes vd: "\<forall>s \<in> set d. valid_name s" and wr: "\<forall>q. writable e q"
    and dloc: "d \<noteq> []" "is_dir (lookup fs (butlast d))"
      "lookup fs d = None \<or> (\<exists>a l m. lookup fs d = Some (Directory a l m []))"
  shows "\<exists>a l m. lookup (made_destination e fs (path_string d)) d = Some (Directory a l m []) \<and>
     (made_destination e fs (path_string d) = fs \<or>
      made_destination e fs (path_string d) = put fs d (Some (Directory a l m [])) \<and> name (Directory a l m []) = last d)"
proof (cases "lookup fs d = None")
  case False
  then obtain a l m where l: "lookup fs d = Some (Directory a l m [])" using dloc(3) by auto
  then have "made_destination e fs (path_string d) = fs"
    by (simp add: made_destination_def exists_def node_at_path_string[OF vd])
  then show ?thesis using l by simp
next
  case True
  let ?q = "butlast d" and ?s = "last d"
  let ?new = "Directory ?s (new_dir_length e) (clock e) []"
  obtain a l m ks where q: "lookup fs ?q = Some (Directory a l m ks)"
    using dloc(2) by (auto simp: is_dir_def split: option.splits node.splits)
  have d: "d = ?q @ [?s]" using dloc(1) by simp
  have th: "with_directory e fs ?q = fs" by (rule with_directory_there[OF dloc(2)])
  have s: "?s \<notin> name ` set ks"
    by (rule new_name[OF q]) (use True d in simp)
  have "mkdirs_at e fs (?q @ [?s]) = (True, put (with_directory e fs ?q) (?q @ [?s]) (Some ?new))"
    by (rule mkdirs_at_new_child[OF _ s wr]) (simp add: th q)
  then have mk: "mkdirs_at e fs d = (True, put fs d (Some ?new))" using d th by simp
  have md: "made_destination e fs (path_string d) = put fs d (Some ?new)"
    using True mk
    by (simp add: made_destination_def exists_def node_at_path_string[OF vd]
        mkdirs_path_string[OF vd])
  have "lookup (put fs d (Some ?new)) d = Some ?new"
    by (rule lookup_put_new[OF dloc(2) dloc(1)]) simp
  then show ?thesis using md by auto
qed

lemma unzip_archive:
  assumes arch: "resolvePath e fm archivePath = Inr (path_string z)"
    and dst: "resultFolderPath \<noteq> []" "resolvePath e fm resultFolderPath = Inr (path_string d)"
    and vz: "\<forall>s \<in> set z. valid_name s" and vd: "\<forall>s \<in> set d. valid_name s"
    and zfile: "lookup fs z = Some (RegularFile nz bytes mz)"
    and dec: "unzip_bytes codec bytes = Some (entries_of [] (Directory a0 l0 m0 cs))"
    and wf: "wf_node (Directory a0 l0 m0 cs)"
    and rd: "\<forall>q. readable e q" and wr: "\<forall>q. writable e q"
    and dloc: "d \<noteq> []" "is_dir (lookup fs (butlast d))"
      "lookup fs d = None \<or> (\<exists>a l m. lookup fs d = Some (Directory a l m []))"
  shows "fst (unzip e codec fm fs archivePath (Some resultFolderPath)) = Some (path_string d) \<and>
     (\<exists>a l m. lookup (snd (unzip e codec fm fs archivePath (Some resultFolderPath))) d
                = Some (Directory a l m (map (rebuilt e) cs)))"
proof -
  let ?dest = "path_string d"
  let ?fsD = "made_destination e fs ?dest"
  let ?ddp = "with_separator (getCanonicalPath e ?dest)"
  obtain a l m where lD: "lookup ?fsD d = Some (Directory a l m [])"
    and fsD: "?fsD = fs \<or> ?fsD = put fs d (Some (Directory a l m [])) \<and> name (Directory a l m []) = last d"
    using made_destination_empty[OF vd wr dloc] by blast
  have nf: "\<not> is_dir (lookup fs z)" using zfile by (simp add: is_dir_def)
  have ndz: "\<not> prefix d z"
  proof
    assume pre: "prefix d z"
    then obtain r where r: "z = d @ r" by (auto simp: prefix_def)
    show False
    proof (cases "r = []")
      case True
      then show ?thesis using dloc(3) zfile r by auto
    next
      case False
      from dloc(3) show ?thesis
      proof
        assume "lookup fs d = None"
        then show False using zfile r by (simp add: lookup_append)
      next
        assume "\<exists>a l m. lookup fs d = Some (Directory a l m [])"
        then show False using zfile r False by (cases r) (auto simp: lookup_append)
      qed
    qed
  qed
  have nzd: "\<not> prefix z d"
  proof
    assume pre: "prefix z d"
    have "z \<noteq> d" using ndz by auto
    then obtain r where r: "d = z @ r" "r \<noteq> []" using pre by (auto simp: prefix_def)
    then have "butlast d = z @ butlast r" by (simp add: butlast_append)
    then have "prefix z (butlast d)" by simp
    moreover have "lookup fs (butlast d) \<noteq> None"
      using dloc(2) by (auto simp: is_dir_def split: option.splits)
    ultimately have "butlast d = z" using not_below_file[OF nf] by blast
    then show False using dloc(2) nf by simp
  qed
  have lz: "lookup ?fsD z = Some (RegularFile nz bytes mz)"
    using fsD
  proof
    assume "?fsD = fs" then show ?thesis using zfile by simp
  next
    assume c: "?fsD = put fs d (Some (Directory a l m [])) \<and> name (Directory a l m []) = last d"
    have "lookup (put fs d (Some (Directory a l m []))) z = lookup fs z"
      by (rule lookup_put_other[OF ndz nzd]) (use c in simp)
    then show ?thesis using c zfile by simp
  qed
  have ex: "exists e fs (path_string z)" "\<not> isDirectory e fs (path_string z)"
    using zfile by (simp_all add: exists_def isDirectory_def node_at_path_string[OF vz] is_dir_def)
  have ud: "unzip_destination e fm (path_string z) (Some resultFolderPath) = Some ?dest"
    using dst by (simp add: unzip_destination_def truthy_def)
  have inp: "FileInputStream e ?fsD (path_string z) = Inr bytes"
    using lz rd by (simp add: FileInputStream_def node_at_path_string[OF vz])
  have run: "unzip_entries e ?dest ?ddp (concat (map (\<lambda>k. entries_of [name k] k) cs)) ?fsD
      = Normal (put ?fsD d (Some (Directory a l m ([] @ map (rebuilt e) cs))))"
  proof (rule build_forest[OF _ _ lD])
    show "distinct (map name cs)" using wf by simp
    show "name ` set cs \<inter> name ` set [] = {}" by simp
    show "unzip_entries e ?dest ?ddp (entries_of [name k] k) fs'
          = Normal (put fs' d (Some (Directory a' l' m' (ks' @ [rebuilt e k]))))"
      if "k \<in> set cs" "lookup fs' d = Some (Directory a' l' m' ks')" "name k \<notin> name ` set ks'"
      for k fs' a' l' m' ks'
    proof -
      have th: "with_directory e fs' d = fs'"
        by (rule with_directory_there) (use that(2) in \<open>simp add: is_dir_def\<close>)
      have k: "wf_node k" "valid_name (name k)" using wf that(1) by auto
      show ?thesis
        using build_node[OF vd wr k, of "[]" fs' a' l' m' ks'] that(2,3) th by simp
    qed
  qed
  have l2: "lookup (put ?fsD d (Some (Directory a l m (map (rebuilt e) cs)))) d
      = Some (Directory a l m (map (rebuilt e) cs))"
    by (rule lookup_put_dir[OF lD])
  have "unzip e codec fm fs archivePath (Some resultFolderPath)
      = (Some ?dest, put ?fsD d (Some (Directory a l m (map (rebuilt e) cs))))"
    using arch ex ud inp dec[unfolded entries_of_root] run
    by (simp add: unzip_def Let_def getAbsolutePath_path_string)
  then show ?thesis using l2 by auto
qed

lemma files_of_rebuilt: "files_of (rebuilt e k) = files_of k"
proof (induction k)
  case (RegularFile n c m) then show ?case by simp
next
  case (Directory n l m ks)
  have "map (\<lambda>k. map (\<lambda>(r, c). (name k # r, c)) (files_of k)) (map (rebuilt e) ks)
      = map (\<lambda>k. map (\<lambda>(r, c). (name k # r, c)) (files_of k)) ks"
    using Directory.IH by (simp cong: map_cong)
  then show ?case by (simp only: rebuilt.simps files_of.simps)
qed

lemma empty_dirs_of_rebuilt: "empty_dirs_of (rebuilt e k) = empty_dirs_of k"
proof (induction k)
  case (RegularFile n c m) then show ?case by simp
next
  case (Directory n l m ks)
  have "map (\<lambda>k. map ((#) (name k)) (empty_dirs_of k)) (map (rebuilt e) ks)
      = map (\<lambda>k. map ((#) (name k)) (empty_dirs_of k)) ks"
    using Directory.IH by (simp cong: map_cong)
  moreover have "(map (rebuilt e) ks = []) = (ks = [])" by simp
  ultimately show ?case by (simp only: rebuilt.simps empty_dirs_of.simps)
qed

lemma files_of_children:
  "files_of (Directory a l m (map (rebuilt e) cs)) = files_of (Directory a' l' m' cs)"
  using files_of_rebuilt[of e "Directory a' l' m' cs"] by simp

lemma empty_dirs_of_children:
  "empty_dirs_of (Directory a l m (map (rebuilt e) cs)) = empty_dirs_of (Directory a' l' m' cs)"
  using empty_dirs_of_rebuilt[of e "Directory a' l' m' cs"] by simp

text \<open>The entries of the archive are the files and the markers of the empty directories.\<close>

lemma filter_concat_map: "filter P (concat (map f xs)) = concat (map (\<lambda>x. filter P (f x)) xs)"
  by (induction xs) auto

lemma endsWith_marker: "endsWith (x @ [sep]) ''/''"
  by (simp add: endsWith_def sep_def)

lemma file_entry_name_path:
  assumes "\<forall>s \<in> set r. valid_name s"
  shows "\<not> endsWith (joinWith sep r) ''/''"
proof (cases "r = []")
  case True then show ?thesis by (simp add: endsWith_def)
next
  case False
  then have "valid_name (last r)" using assms by simp
  then show ?thesis using file_entry_name[of "last r" "butlast r"] False by simp
qed

lemma entries_of_files:
  "wf_node k \<Longrightarrow> \<forall>s \<in> set r. valid_name s \<Longrightarrow>
   filter (\<lambda>x. \<not> endsWith (fst x) ''/'') (entries_of r k)
     = map (\<lambda>(r', c). (joinWith sep (r @ r'), c)) (files_of k)"
proof (induction k arbitrary: r)
  case (RegularFile n c m)
  then show ?case using file_entry_name_path[of r] by simp
next
  case (Directory n l m ks)
  show ?case
  proof (cases "ks = []")
    case True
    then show ?thesis using endsWith_marker[of "joinWith sep r"] by simp
  next
    case False
    have each: "filter (\<lambda>x. \<not> endsWith (fst x) ''/'') (entries_of (r @ [name k]) k)
        = map (\<lambda>(r', c). (joinWith sep (r @ r'), c)) (map (\<lambda>(r, c). (name k # r, c)) (files_of k))"
      if "k \<in> set ks" for k
    proof -
      have "wf_node k" "\<forall>s \<in> set (r @ [name k]). valid_name s"
        using Directory.prems that by auto
      from Directory.IH[OF that this] show ?thesis by (simp add: case_prod_unfold comp_def)
    qed
    have "filter (\<lambda>x. \<not> endsWith (fst x) ''/'') (entries_of r (Directory n l m ks))
        = concat (map (\<lambda>k. filter (\<lambda>x. \<not> endsWith (fst x) ''/'') (entries_of (r @ [name k]) k)) ks)"
      using False by (simp add: filter_concat_map)
    also have "\<dots> = concat (map (\<lambda>k. map (\<lambda>(r', c). (joinWith sep (r @ r'), c))
                          (map (\<lambda>(r, c). (name k # r, c)) (files_of k))) ks)"
      using each by (simp cong: map_cong)
    also have "\<dots> = map (\<lambda>(r', c). (joinWith sep (r @ r'), c)) (files_of (Directory n l m ks))"
      by (simp add: map_concat comp_def)
    finally show ?thesis .
  qed
qed

lemma entries_of_markers:
  "wf_node k \<Longrightarrow> \<forall>s \<in> set r. valid_name s \<Longrightarrow>
   map fst (filter (\<lambda>x. endsWith (fst x) ''/'') (entries_of r k))
     = map (\<lambda>r'. joinWith sep (r @ r') @ ''/'') (filter (\<lambda>r'. r @ r' \<noteq> []) (empty_dirs_of k))"
proof (induction k arbitrary: r)
  case (RegularFile n c m)
  then show ?case using file_entry_name_path[of r] by simp
next
  case (Directory n l m ks)
  show ?case
  proof (cases "ks = []")
    case True
    then show ?thesis using endsWith_marker[of "joinWith sep r"] by (simp add: sep_def)
  next
    case False
    have each: "map fst (filter (\<lambda>x. endsWith (fst x) ''/'') (entries_of (r @ [name k]) k))
        = map (\<lambda>r'. joinWith sep (r @ r') @ ''/'')
            (filter (\<lambda>r'. r @ r' \<noteq> []) (map ((#) (name k)) (empty_dirs_of k)))"
      if "k \<in> set ks" for k
    proof -
      have "wf_node k" "\<forall>s \<in> set (r @ [name k]). valid_name s"
        using Directory.prems that by auto
      from Directory.IH[OF that this] show ?thesis by (simp add: filter_map comp_def)
    qed
    have "map fst (filter (\<lambda>x. endsWith (fst x) ''/'') (entries_of r (Directory n l m ks)))
        = concat (map (\<lambda>k. map fst (filter (\<lambda>x. endsWith (fst x) ''/'')
                     (entries_of (r @ [name k]) k))) ks)"
      using False by (simp add: filter_concat_map map_concat comp_def)
    also have "\<dots> = concat (map (\<lambda>k. map (\<lambda>r'. joinWith sep (r @ r') @ ''/'')
            (filter (\<lambda>r'. r @ r' \<noteq> []) (map ((#) (name k)) (empty_dirs_of k)))) ks)"
      using each by (simp cong: map_cong)
    also have "\<dots> = map (\<lambda>r'. joinWith sep (r @ r') @ ''/'')
            (filter (\<lambda>r'. r @ r' \<noteq> []) (empty_dirs_of (Directory n l m ks)))"
      using False by (simp add: filter_concat_map map_concat comp_def)
    finally show ?thesis .
  qed
qed

section \<open>The round trip\<close>

lemma put_file_keeps_dir:
  assumes "\<not> is_dir (lookup fs z)" "is_dir (lookup fs x)" "name f = last z"
  shows "is_dir (lookup (put fs z (Some f)) x)"
proof -
  have ex: "lookup fs x \<noteq> None" using assms(2) by (auto simp: is_dir_def split: option.splits)
  have nzx: "\<not> prefix z x"
  proof
    assume "prefix z x"
    then have "x = z" by (rule not_below_file[OF assms(1) ex])
    then show False using assms(1,2) by simp
  qed
  show ?thesis
  proof (cases "prefix x z")
    case False
    then show ?thesis using lookup_put_other[OF nzx False assms(3), of fs] assms(2) by simp
  next
    case True
    then obtain r where r: "z = x @ r" by (auto simp: prefix_def)
    then have "r \<noteq> []" using nzx by auto
    then show ?thesis using is_dir_put_above[OF ex, of r "Some f"] assms(2) r by simp
  qed
qed

lemma apart_from_file:
  assumes "\<not> is_dir (lookup fs z)" "is_dir (lookup fs (butlast d))" "\<not> prefix d z"
  shows "\<not> prefix z d"
proof
  assume pre: "prefix z d"
  have "z \<noteq> d" using assms(3) by auto
  then obtain r where r: "d = z @ r" "r \<noteq> []" using pre by (auto simp: prefix_def)
  then have "butlast d = z @ butlast r" by (simp add: butlast_append)
  then have "prefix z (butlast d)" by simp
  moreover have "lookup fs (butlast d) \<noteq> None"
    using assms(2) by (auto simp: is_dir_def split: option.splits)
  ultimately have "butlast d = z" using not_below_file[OF assms(1)] by blast
  then show False using assms(1,2) by simp
qed

text \<open>
  Claim C5. A well-formed directory tree at \<open>p\<close> is packed into an archive at \<open>z\<close>
  outside it, on a host that lets every file be read and written and with enough fuel
  for the walk; the archive is then unpacked into \<open>d\<close>, which is missing (its parent is
  there) or an empty directory. The paths are given in canonical spelling, and the
  codec reads back the entries that are written. Then \<open>zip\<close> returns the path of the
  archive, whose entries are the files of the tree under their relative names and one
  marker, a name ending in \<open>/\<close>, for every directory without children other than the
  packed root, and none for a directory with children; \<open>unzip\<close> returns the destination,
  and the tree there has the same relative file paths with the same bytes and the same
  empty directories as the tree that was packed.
\<close>

theorem zip_unzip_round_trip:
  assumes src: "resolvePath e fm sourcePath = Inr (path_string p)"
    and zf: "zipFilePath \<noteq> []" "resolvePath e fm zipFilePath = Inr (path_string z)"
    and arch: "resolvePath e fm archivePath = Inr (path_string z)"
    and dst: "resultFolderPath \<noteq> []" "resolvePath e fm resultFolderPath = Inr (path_string d)"
    and vp: "\<forall>s \<in> set p. valid_name s" and vz: "\<forall>s \<in> set z. valid_name s"
    and vd: "\<forall>s \<in> set d. valid_name s"
    and t: "lookup fs p = Some (Directory a l m cs)" "wf_node (Directory a l m cs)"
      "height (Directory a l m cs) < n"
    and rd: "\<forall>q. readable e q" and wr: "\<forall>q. writable e q"
    and zloc: "z \<noteq> []" "is_dir (lookup fs (butlast z))" "\<not> is_dir (lookup fs z)" "\<not> prefix p z"
    and dloc: "d \<noteq> []" "is_dir (lookup fs (butlast d))"
      "lookup fs d = None \<or> (\<exists>a' l' m'. lookup fs d = Some (Directory a' l' m' []))"
      "\<not> prefix d z"
    and codec: "unzip_bytes codec (zip_bytes codec (entries_of [] (Directory a l m cs)))
        = Some (entries_of [] (Directory a l m cs))"
  shows "\<exists>fsZ es fs2 t'.
     zip n e codec fm fs sourcePath (Some zipFilePath) = Some (Some (path_string z), fsZ) \<and>
     lookup fsZ z = Some (RegularFile (last z) (zip_bytes codec es) (clock e)) \<and>
     filter (\<lambda>x. \<not> endsWith (fst x) ''/'') es
       = map (\<lambda>(r, c). (joinWith sep r, c)) (files_of (Directory a l m cs)) \<and>
     map fst (filter (\<lambda>x. endsWith (fst x) ''/'') es)
       = map (\<lambda>r. joinWith sep r @ ''/'')
           (filter (\<lambda>r. r \<noteq> []) (empty_dirs_of (Directory a l m cs))) \<and>
     unzip e codec fm fsZ archivePath (Some resultFolderPath) = (Some (path_string d), fs2) \<and>
     lookup fs2 d = Some t' \<and>
     set (files_of t') = set (files_of (Directory a l m cs)) \<and>
     set (empty_dirs_of t') = set (empty_dirs_of (Directory a l m cs))"
proof -
  let ?t = "Directory a l m cs"
  let ?es = "entries_of [] ?t"
  let ?file = "RegularFile (last z) (zip_bytes codec ?es) (clock e)"
  let ?fsZ = "put fs z (Some ?file)"
  have zip: "zip n e codec fm fs sourcePath (Some zipFilePath) = Some (Some (path_string z), ?fsZ)"
    by (rule zip_directory[OF src zf vp vz t(1) _ t(2,3) rd wr zloc]) (simp add: is_dir_def)
  have lz: "lookup ?fsZ z = Some ?file"
    by (rule lookup_put_new[OF zloc(2) zloc(1)]) simp
  have nzd: "\<not> prefix z d" by (rule apart_from_file[OF zloc(3) dloc(2) dloc(4)])
  have ld: "lookup ?fsZ d = lookup fs d"
    by (rule lookup_put_other[OF nzd dloc(4)]) simp
  have pd: "is_dir (lookup ?fsZ (butlast d))"
    by (rule put_file_keeps_dir[OF zloc(3) dloc(2)]) simp
  have un: "fst (unzip e codec fm ?fsZ archivePath (Some resultFolderPath)) = Some (path_string d) \<and>
     (\<exists>a' l' m'. lookup (snd (unzip e codec fm ?fsZ archivePath (Some resultFolderPath))) d
                = Some (Directory a' l' m' (map (rebuilt e) cs)))"
    by (rule unzip_archive[OF arch dst vz vd lz codec t(2) rd wr dloc(1) pd])
       (use ld dloc(3) in simp)
  then obtain a' l' m' where
    l2: "lookup (snd (unzip e codec fm ?fsZ archivePath (Some resultFolderPath))) d
          = Some (Directory a' l' m' (map (rebuilt e) cs))" by blast
  have f: "filter (\<lambda>x. \<not> endsWith (fst x) ''/'') ?es
       = map (\<lambda>(r, c). (joinWith sep r, c)) (files_of ?t)"
    using entries_of_files[OF t(2), of "[]"] by simp
  have g: "map fst (filter (\<lambda>x. endsWith (fst x) ''/'') ?es)
       = map (\<lambda>r. joinWith sep r @ ''/'') (filter (\<lambda>r. r \<noteq> []) (empty_dirs_of ?t))"
    using entries_of_markers[OF t(2), of "[]"] by simp
  have same: "files_of (Directory a' l' m' (map (rebuilt e) cs)) = files_of ?t"
    "empty_dirs_of (Directory a' l' m' (map (rebuilt e) cs)) = empty_dirs_of ?t"
    by (rule files_of_children, rule empty_dirs_of_children)
  show ?thesis
  proof (intro exI conjI)
    show "zip n e codec fm fs sourcePath (Some zipFilePath) = Some (Some (path_string z), ?fsZ)"
      by (rule zip)
    show "lookup ?fsZ z = Some (RegularFile (last z) (zip_bytes codec ?es) (clock e))" by (rule lz)
    show "filter (\<lambda>x. \<not> endsWith (fst x) ''/'') ?es
       = map (\<lambda>(r, c). (joinWith sep r, c)) (files_of ?t)" by (rule f)
    show "map fst (filter (\<lambda>x. endsWith (fst x) ''/'') ?es)
       = map (\<lambda>r. joinWith sep r @ ''/'') (filter (\<lambda>r. r \<noteq> []) (empty_dirs_of ?t))" by (rule g)
    show "unzip e codec fm ?fsZ archivePath (Some resultFolderPath)
        = (Some (path_string d), snd (unzip e codec fm ?fsZ archivePath (Some resultFolderPath)))"
      using un by (cases "unzip e codec fm ?fsZ archivePath (Some resultFolderPath)") simp
    show "lookup (snd (unzip e codec fm ?fsZ archivePath (Some resultFolderPath))) d
        = Some (Directory a' l' m' (map (rebuilt e) cs))" by (rule l2)
    show "set (files_of (Directory a' l' m' (map (rebuilt e) cs))) = set (files_of ?t)"
      by (simp only: same)
    show "set (empty_dirs_of (Directory a' l' m' (map (rebuilt e) cs))) = set (empty_dirs_of ?t)"
      by (simp only: same)
  qed
qed

lemma pack_paths:
  "resolvePath unix_env (sandbox ''/base'') ''src'' = Inr (path_string [''base'', ''src''])"
  "resolvePath unix_env (sandbox ''/base'') ''src.zip'' = Inr (path_string [''base'', ''src.zip''])"
  "resolvePath unix_env (sandbox ''/base'') ''/base/src.zip'' = Inr (path_string [''base'', ''src.zip''])"
  "resolvePath unix_env (sandbox ''/base'') ''out'' = Inr (path_string [''base'', ''out''])"
  by code_simp+

lemma pack_names:
  "\<forall>s \<in> set [''base'', ''src'']. valid_name s"
  "\<forall>s \<in> set [''base'', ''src.zip'']. valid_name s"
  "\<forall>s \<in> set [''base'', ''out'']. valid_name s"
  by code_simp+

lemma pack_source:
  "lookup pack_tree [''base'', ''src'']
     = Some (Directory ''src'' 4096 1
         [RegularFile ''a.txt'' ''hello'' 2,
          Directory ''docs'' 4096 3 [RegularFile ''b.txt'' ''world'' 4],
          Directory ''empty'' 4096 5 []])"
  "wf_node (Directory ''src'' 4096 1
         [RegularFile ''a.txt'' ''hello'' 2,
          Directory ''docs'' 4096 3 [RegularFile ''b.txt'' ''world'' 4],
          Directory ''empty'' 4096 5 []])"
  "height (Directory ''src'' 4096 1
         [RegularFile ''a.txt'' ''hello'' 2,
          Directory ''docs'' 4096 3 [RegularFile ''b.txt'' ''world'' 4],
          Directory ''empty'' 4096 5 []]) < 5"
  by code_simp+

lemma pack_host: "\<forall>q. readable unix_env q" "\<forall>q. writable unix_env q"
  by (simp_all add: unix_env_def)

lemma pack_places:
  "[''base'', ''src.zip''] \<noteq> []"
  "is_dir (lookup pack_tree (butlast [''base'', ''src.zip'']))"
  "\<not> is_dir (lookup pack_tree [''base'', ''src.zip''])"
  "\<not> prefix [''base'', ''src''] [''base'', ''src.zip'']"
  "[''base'', ''out''] \<noteq> []"
  "is_dir (lookup pack_tree (butlast [''base'', ''out'']))"
  "\<not> prefix [''base'', ''out''] [''base'', ''src.zip'']"
  by code_simp+

lemma pack_destination: "lookup pack_tree [''base'', ''out''] = None"
  by code_simp

lemma pack_codec:
  "unzip_bytes plain_codec (zip_bytes plain_codec (entries_of [] (Directory ''src'' 4096 1
         [RegularFile ''a.txt'' ''hello'' 2,
          Directory ''docs'' 4096 3 [RegularFile ''b.txt'' ''world'' 4],
          Directory ''empty'' 4096 5 []])))
     = Some (entries_of [] (Directory ''src'' 4096 1
         [RegularFile ''a.txt'' ''hello'' 2,
          Directory ''docs'' 4096 3 [RegularFile ''b.txt'' ''world'' 4],
          Directory ''empty'' 4096 5 []]))"
  by code_simp

theorem zip_unzip_round_trip_witness:
  "\<exists>fsZ es fs2 t'.
     zip 5 unix_env plain_codec (sandbox ''/base'') pack_tree ''src'' (Some ''src.zip'')
       = Some (Some ''/base/src.zip'', fsZ) \<and>
     lookup fsZ [''base'', ''src.zip'']
       = Some (RegularFile ''src.zip'' (zip_bytes plain_codec es) 0) \<and>
     filter (\<lambda>x. \<not> endsWith (fst x) ''/'') es
       = [(''a.txt'', ''hello''), (''docs/b.txt'', ''world'')] \<and>
     map fst (filter (\<lambda>x. endsWith (fst x) ''/'') es) = [''empty/''] \<and>
     unzip unix_env plain_codec (sandbox ''/base'') fsZ ''/base/src.zip'' (Some ''out'')
       = (Some ''/base/out'', fs2) \<and>
     lookup fs2 [''base'', ''out''] = Some t' \<and>
     set (files_of t') = {([''a.txt''], ''hello''), ([''docs'', ''b.txt''], ''world'')} \<and>
     set (empty_dirs_of t') = {[''empty'']}"
proof -
  have none: "lookup pack_tree [''base'', ''out''] = None \<or>
      (\<exists>a' l' m'. lookup pack_tree [''base'', ''out''] = Some (Directory a' l' m' []))"
    using pack_destination by simp
  have strs: "path_string [''base'', ''src.zip''] = ''/base/src.zip''"
    "path_string [''base'', ''out''] = ''/base/out''"
    by (simp_all add: path_string_def sep_def)
  have clk: "clock unix_env = 0" by (simp add: unix_env_def)
  have vals:
    "map (\<lambda>(r, c). (joinWith sep r, c)) (files_of (Directory ''src'' 4096 1
         [RegularFile ''a.txt'' ''hello'' 2,
          Directory ''docs'' 4096 3 [RegularFile ''b.txt'' ''world'' 4],
          Directory ''empty'' 4096 5 []]))
       = [(''a.txt'', ''hello''), (''docs/b.txt'', ''world'')]"
    "map (\<lambda>r. joinWith sep r @ ''/'') (filter (\<lambda>r. r \<noteq> []) (empty_dirs_of (Directory ''src'' 4096 1
         [RegularFile ''a.txt'' ''hello'' 2,
          Directory ''docs'' 4096 3 [RegularFile ''b.txt'' ''world'' 4],
          Directory ''empty'' 4096 5 []])))
       = [''empty/'']"
    "set (files_of (Directory ''src'' 4096 1
         [RegularFile ''a.txt'' ''hello'' 2,
          Directory ''docs'' 4096 3 [RegularFile ''b.txt'' ''world'' 4],
          Directory ''empty'' 4096 5 []]))
       = {([''a.txt''], ''hello''), ([''docs'', ''b.txt''], ''world'')}"
    "set (empty_dirs_of (Directory ''src'' 4096 1
         [RegularFile ''a.txt'' ''hello'' 2,
          Directory ''docs'' 4096 3 [RegularFile ''b.txt'' ''world'' 4],
          Directory ''empty'' 4096 5 []]))
       = {[''empty'']}"
    by (simp_all add: sep_def)
  have ne: "''src.zip'' \<noteq> []" "''out'' \<noteq> []" by simp_all
  from zip_unzip_round_trip[OF pack_paths(1) ne(1) pack_paths(2) pack_paths(3) ne(2) pack_paths(4)
      pack_names pack_source pack_host pack_places(1-6) none pack_places(7) pack_codec]
  show ?thesis
    unfolding strs clk vals by simp
qed

section \<open>Properties of the sandbox\<close>

lemma resolvePath_sandboxed:
  assumes "isSandboxed fm" and "basePath fm = Some b" and "trim userPath \<noteq> []"
  shows "resolvePath e fm userPath =
     (let f = (if isAbsolute (File (trim userPath)) \<or> startsWith (trim userPath) ''sdcard/''
               then File (trim userPath) else File2 b (trim userPath))
      in if startsWith (getCanonicalPath e f) (getCanonicalPath e (File b)) then Inr f
         else Inl SecurityException)"
  using assms by (simp add: resolvePath_def Let_def)

text \<open>
  C1. The claim: a sandboxed instance rejects a path exactly when its canonical form does
  not start with the canonical base path followed by a separator, so that \<open>/base2\<close> is
  rejected under the base \<open>/base\<close>. The source compares with the canonical base path
  alone (line 99), so \<open>/base2\<close> is accepted: its canonical form does not start with
  \<open>/base/\<close>, and \<open>_resolvePath\<close> returns the file all the same.
\<close>

theorem resolvePath_accepts_sibling_of_base:
  "resolvePath unix_env (sandbox ''/base'') ''/base2'' = Inr ''/base2'' \<and>
   \<not> startsWith (getCanonicalPath unix_env ''/base2'')
        (getCanonicalPath unix_env (File ''/base'') @ [sep])"
  by code_simp

section \<open>Properties of the file content operations\<close>

text \<open>
  C4. The claim: no exception leaves a public operation; \<open>read\<close> returns \<open>null\<close> when the
  underlying read fails. \<open>write\<close>, \<open>append\<close> and \<open>delete\<close> wrap the \<open>FileStream\<close> call in
  \<open>try\<close>/\<open>catch\<close>; \<open>read\<close> (lines 526-530) does not, so an exception of
  \<open>FileStream.read\<close> reaches the caller, where the same failure in \<open>write\<close> gives \<open>null\<close>.
\<close>

theorem read_lets_exception_through:
  "read_op throwing_env (sandbox ''/base'') small_tree ''a.txt'' = Inl (Exn ''IOException'') \<and>
   fst (write_op throwing_env (sandbox ''/base'') small_tree ''a.txt'' (Some ''x'')) = Inr None"
  by code_simp

end
